(* ===== verification/Prelude.thy ===== *)
theory Prelude
  imports Main "HOL-Library.Monad_Syntax" "HOL-Library.Word"
begin

text \<open>
  Shared vocabulary of the development.  A C object of \<open>n\<close> bytes is a list of length
  \<open>n\<close>; every read or write of it goes through \<open>buf_get\<close> and \<open>buf_set\<close>, which yield
  \<open>None\<close> outside the object.  Throughout the development \<open>None\<close> therefore stands for
  undefined behaviour of the C program (an access outside an object, or a string
  function that finds no terminating zero byte), and a theorem that an operation
  returns \<open>Some\<close> is a memory-safety theorem.
  The two locales at the end are the contracts of a state machine that keeps an
  invariant: as a total step function with outputs, and as a step relation.
\<close>

named_theorems buffer_simps \<open>sizes and contents of C buffers\<close>

abbreviation NUL :: char where "NUL \<equiv> CHR 0x00"
abbreviation NL :: char where "NL \<equiv> CHR 0x0A"

abbreviation byte_of :: "char \<Rightarrow> nat" where "byte_of c \<equiv> of_char c"

type_synonym buffer = "char list"

definition buf_get :: "'a list \<Rightarrow> nat \<Rightarrow> 'a option" where
  "buf_get b i = (if i < length b then Some (b ! i) else None)"

definition buf_set :: "'a list \<Rightarrow> nat \<Rightarrow> 'a \<Rightarrow> 'a list option" where
  "buf_set b i x = (if i < length b then Some (b[i := x]) else None)"

text \<open>The bytes a block of \<open>n\<close> bytes holds when it is handed out uninitialised.\<close>

definition fresh_block :: "(nat \<Rightarrow> 'a) \<Rightarrow> nat \<Rightarrow> 'a list" where
  "fresh_block g n = map g [0..<n]"

lemma buf_get_Some [buffer_simps]: "i < length b \<Longrightarrow> buf_get b i = Some (b ! i)"
  by (simp add: buf_get_def)

lemma buf_get_None [buffer_simps]: "length b \<le> i \<Longrightarrow> buf_get b i = None"
  by (simp add: buf_get_def)

lemma buf_set_Some [buffer_simps]: "i < length b \<Longrightarrow> buf_set b i x = Some (b[i := x])"
  by (simp add: buf_set_def)

lemma buf_set_None [buffer_simps]: "length b \<le> i \<Longrightarrow> buf_set b i x = None"
  by (simp add: buf_set_def)

lemma buf_set_length: "buf_set b i x = Some b' \<Longrightarrow> length b' = length b"
  by (auto simp: buf_set_def split: if_splits)

lemma length_fresh_block [simp]: "length (fresh_block g n) = n"
  by (simp add: fresh_block_def)

lemma nth_fresh_block [simp]: "i < n \<Longrightarrow> fresh_block g n ! i = g i"
  by (simp add: fresh_block_def)

lemma fresh_block_const: "fresh_block (\<lambda>_. x) n = replicate n x"
  by (induction n) (simp_all add: fresh_block_def replicate_append_same)

lemma drop_fresh_block_const: "drop k (fresh_block (\<lambda>_. x) n) = replicate (n - k) x"
  by (simp add: fresh_block_const)

lemma list_update_take_drop:
  "i < length xs \<Longrightarrow> xs[i := x] = take i xs @ x # drop (Suc i) xs"
  by (simp add: upd_conv_take_nth_drop)

lemma takeWhile_append_stop:
  "x \<notin> set s \<Longrightarrow> takeWhile (\<lambda>c. c \<noteq> x) (s @ x # r) = s"
  by (induction s) auto

lemma drop_eq_ConsD:
  "drop i xs = y # ys \<Longrightarrow> i < length xs \<and> xs ! i = y \<and> drop (Suc i) xs = ys"
  by (metis drop_all Cons_nth_drop_Suc linorder_not_less list.distinct(1) list.inject)

lemma split_at_mem:
  assumes "x \<in> set xs"
  shows "\<exists>ys zs. xs = ys @ x # zs \<and> x \<notin> set ys"
  using assms by (meson split_list_first)

text \<open>Run a fallible operation over a list, stopping at the first failure.\<close>

fun fold_opt :: "('b \<Rightarrow> 'a \<Rightarrow> 'a option) \<Rightarrow> 'b list \<Rightarrow> 'a \<Rightarrow> 'a option" where
  "fold_opt f [] a = Some a"
| "fold_opt f (x # xs) a = do { a' \<leftarrow> f x a; fold_opt f xs a' }"

lemma fold_opt_count: "fold_opt (\<lambda>_ n. Some (Suc n)) ws n = Some (n + length ws)"
  by (induction ws arbitrary: n) auto

lemma fold_opt_steps:
  assumes "fold_opt f xs s = Some t" "\<And>x s t. f x s = Some t \<Longrightarrow> r s t"
  shows "r\<^sup>*\<^sup>* s t"
  using assms(1)
proof (induction xs arbitrary: s)
  case (Cons x xs)
  then obtain u where "f x s = Some u" "fold_opt f xs u = Some t" by (auto split: bind_splits)
  then show ?case
    using Cons.IH assms(2) by (meson converse_rtranclp_into_rtranclp)
qed simp

lemma fold_opt_keeps:
  "fold_opt f xs a = Some b \<Longrightarrow> (\<And>x a b. f x a = Some b \<Longrightarrow> P a \<Longrightarrow> P b) \<Longrightarrow> P a \<Longrightarrow> P b"
  by (induction xs arbitrary: a) (auto split: bind_splits)

lemma fold_opt_append:
  "fold_opt f (xs @ ys) a = do { b \<leftarrow> fold_opt f xs a; fold_opt f ys b }"
  by (induction xs arbitrary: a) (auto split: bind_splits)

text \<open>Loops over an index: one that rewrites the cells of an array in turn, one that reads
  them in turn, and one that appends to an output.\<close>

lemma fold_opt_update:
  assumes "\<And>i ys. i < n \<Longrightarrow> length ys = n \<Longrightarrow> ok (ys ! i) \<Longrightarrow> f i ys = Some (ys[i := v i (ys ! i)])"
    and "\<forall>x \<in> set xs. ok x" and "length xs = n"
  shows "fold_opt f [0..<n] xs = Some (map (\<lambda>i. v i (xs ! i)) [0..<n])"
proof -
  have "m \<le> n \<Longrightarrow> fold_opt f [0..<m] xs = Some (map (\<lambda>i. v i (xs ! i)) [0..<m] @ drop m xs)" for m
  proof (induction m)
    case (Suc m)
    let ?ys = "map (\<lambda>i. v i (xs ! i)) [0..<m] @ drop m xs"
    have ys: "length ?ys = n" "?ys ! m = xs ! m" using Suc.prems assms(3) by (simp_all add: nth_append)
    moreover have "ok (xs ! m)" using assms(2,3) Suc.prems by simp
    ultimately have "f m ?ys = Some (?ys[m := v m (xs ! m)])" using assms(1) [of m ?ys] Suc.prems by simp
    moreover have "?ys[m := v m (xs ! m)] = map (\<lambda>i. v i (xs ! i)) [0..<Suc m] @ drop (Suc m) xs"
      using Suc.prems assms(3) by (simp add: list_update_append Cons_nth_drop_Suc [symmetric])
    ultimately show ?case using Suc by (simp add: fold_opt_append)
  qed simp
  from this [of n] show ?thesis using assms(3) by simp
qed

lemma fold_opt_indices:
  assumes "n = length xs"
  shows "fold_opt (\<lambda>i a. do { x \<leftarrow> buf_get xs i; f x a }) [0..<n] a = fold_opt f xs a"
proof -
  have "k + length ys = n \<Longrightarrow> drop k xs = ys \<Longrightarrow>
    fold_opt (\<lambda>i a. do { x \<leftarrow> buf_get xs i; f x a }) [k..<n] a = fold_opt f ys a" for k ys a
  proof (induction ys arbitrary: k a)
    case (Cons y ys)
    from drop_eq_ConsD [OF Cons.prems(2)] have "k < length xs" "xs ! k = y" "drop (Suc k) xs = ys" by auto
    moreover have "[k..<n] = k # [Suc k..<n]" using Cons.prems by (simp add: upt_conv_Cons)
    ultimately show ?case using Cons by (cases "f y a") (simp_all add: buffer_simps)
  qed simp
  from this [of 0 xs a] assms show ?thesis by simp
qed

lemma fold_opt_appends:
  assumes "\<And>x a. x \<in> set xs \<Longrightarrow> f x a = Some (a @ h x)"
  shows "fold_opt f xs a = Some (a @ concat (map h xs))"
  using assms by (induction xs arbitrary: a) simp_all

lemma fold_opt_cong:
  "(\<And>x a. x \<in> set xs \<Longrightarrow> f x a = g x a) \<Longrightarrow> fold_opt f xs a = fold_opt g xs a"
  by (induction xs arbitrary: a) (auto cong: Option.bind_cong)

lemma fold_opt_total: "fold_opt (\<lambda>x a. Some (h x a)) xs a = Some (fold h xs a)"
  by (induction xs arbitrary: a) simp_all

lemma fold_opt_repeat: "fold_opt (\<lambda>_ a. Some (h a)) xs a = Some ((h ^^ length xs) a)"
  by (induction xs arbitrary: a) (simp_all add: funpow_swap1)

section \<open>Contracts of state machines\<close>

text \<open>
  A deterministic machine with outputs: \<open>step s e\<close> is the next state and what the
  machine emits.  The contract is that a step keeps the invariant and emits only
  outputs allowed by \<open>good\<close>; its consequence is the same for whole runs.
\<close>

fun run_machine :: "('s \<Rightarrow> 'e \<Rightarrow> 's \<times> 'o) \<Rightarrow> 's \<Rightarrow> 'e list \<Rightarrow> 's \<times> 'o list" where
  "run_machine step s [] = (s, [])"
| "run_machine step s (e # es) =
     (let (s', x) = step s e; (s'', xs) = run_machine step s' es in (s'', x # xs))"

locale machine =
  fixes step :: "'s \<Rightarrow> 'e \<Rightarrow> 's \<times> 'o"
    and inv :: "'s \<Rightarrow> bool"
    and good :: "'o \<Rightarrow> bool"
  assumes step_inv: "inv s \<Longrightarrow> inv (fst (step s e))"
    and step_good: "inv s \<Longrightarrow> good (snd (step s e))"
begin

lemma run_inv: "inv s \<Longrightarrow> inv (fst (run_machine step s es))"
proof (induction es arbitrary: s)
  case (Cons e es)
  then show ?case
    using step_inv [of s e] by (auto simp: Let_def split: prod.splits) (metis fst_conv)
qed simp

lemma run_good: "inv s \<Longrightarrow> \<forall>x \<in> set (snd (run_machine step s es)). good x"
proof (induction es arbitrary: s)
  case (Cons e es)
  obtain s' x where st: "step s e = (s', x)" by fastforce
  obtain s'' xs where rn: "run_machine step s' es = (s'', xs)" by fastforce
  have "inv s'" "good x"
    using Cons.prems step_inv [of s e] step_good [of s e] st by auto
  then show ?case
    using Cons.IH [of s'] st rn by auto
qed simp

lemma run_length: "length (snd (run_machine step s es)) = length es"
  by (induction es arbitrary: s) (auto simp: Let_def split: prod.splits, metis snd_conv)

end

text \<open>A step relation that keeps an invariant.\<close>

locale transition_system =
  fixes initial :: "'s \<Rightarrow> bool"
    and step :: "'s \<Rightarrow> 's \<Rightarrow> bool"
    and inv :: "'s \<Rightarrow> bool"
  assumes initial_inv: "initial s \<Longrightarrow> inv s"
    and step_keeps: "inv s \<Longrightarrow> step s t \<Longrightarrow> inv t"
begin

lemma steps_keep: "step\<^sup>*\<^sup>* s t \<Longrightarrow> inv s \<Longrightarrow> inv t"
  by (induction rule: rtranclp_induct) (auto intro: step_keeps)

lemma reachable_inv: "initial s \<Longrightarrow> step\<^sup>*\<^sup>* s t \<Longrightarrow> inv t"
  by (blast intro: steps_keep initial_inv)

end

text \<open>
  A transition system with locks: a thread inside a critical section guarded by \<open>m\<close> is
  the owner of \<open>m\<close>.  Mutual exclusion follows for every reachable state.
\<close>

locale locking = transition_system initial step inv
  for initial :: "'s \<Rightarrow> bool" and step :: "'s \<Rightarrow> 's \<Rightarrow> bool" and inv :: "'s \<Rightarrow> bool" +
  fixes critical :: "'s \<Rightarrow> 't \<Rightarrow> 'm \<Rightarrow> bool"
    and owner :: "'s \<Rightarrow> 'm \<Rightarrow> 't option"
  assumes inv_owner: "inv s \<Longrightarrow> critical s t m \<Longrightarrow> owner s m = Some t"
begin

lemma exclusion:
  "initial s \<Longrightarrow> step\<^sup>*\<^sup>* s s' \<Longrightarrow> critical s' t m \<Longrightarrow> critical s' u m \<Longrightarrow> t = u"
  using reachable_inv [of s s'] inv_owner [of s' t m] inv_owner [of s' u m] by auto

end

text \<open>
  The endless loop of a \<open>main\<close>: one iteration yields an output and the next state, or is
  undefined; an output for which \<open>stop\<close> holds ends the program.  \<open>iterate stop step n\<close>
  performs at most \<open>n\<close> iterations.  The contract is that an iteration keeps an invariant.
\<close>

fun iterate :: "('o \<Rightarrow> bool) \<Rightarrow> ('s \<Rightarrow> ('o \<times> 's) option) \<Rightarrow> nat \<Rightarrow> 's \<Rightarrow> ('o list \<times> 's) option" where
  "iterate stop step 0 s = Some ([], s)"
| "iterate stop step (Suc n) s = do {
     (x, s') \<leftarrow> step s;
     (if stop x then Some ([x], s')
      else do { (xs, s'') \<leftarrow> iterate stop step n s'; Some (x # xs, s'') })
   }"

locale main_loop =
  fixes stop :: "'o \<Rightarrow> bool"
    and step :: "'s \<Rightarrow> ('o \<times> 's) option"
    and inv :: "'s \<Rightarrow> bool"
  assumes iteration_inv: "inv s \<Longrightarrow> step s = Some (x, s') \<Longrightarrow> inv s'"
begin

lemma iterate_inv: "inv s \<Longrightarrow> iterate stop step n s = Some (xs, s') \<Longrightarrow> inv s'"
proof (induction n arbitrary: s xs)
  case (Suc n)
  then obtain x t where t: "step s = Some (x, t)" by (auto split: bind_splits)
  then have "inv t" using iteration_inv Suc.prems(1) by blast
  then show ?case using Suc.IH [of t] Suc.prems(2) t by (auto split: bind_splits if_splits)
qed simp

lemma iterate_length: "iterate stop step n s = Some (xs, s') \<Longrightarrow> length xs \<le> n"
  by (induction n arbitrary: s xs) (fastforce split: bind_splits if_splits)+

end

end
