(* ===== verification/CString.thy ===== *)
theory CString
  imports Prelude
begin

text \<open>
  The part of the C string library the programs use, over byte buffers: \<open>strlen\<close>,
  \<open>strcpy\<close>, \<open>strncpy\<close>, \<open>strcat\<close>, \<open>strncat\<close>, \<open>strcmp\<close>, \<open>memset\<close>, \<open>memcpy\<close>,
  \<open>memcmp\<close>, \<open>strtok\<close>, \<open>toupper\<close> and \<open>fgets\<close>.  A function that would read or write
  outside its argument yields \<open>None\<close>.  \<open>cstr b\<close> is the string a buffer holds: the
  bytes before its first zero byte.  The lemmas say what string each operation leaves
  in its destination; \<open>strtok_tokens\<close> relates the stateful tokeniser to the list of
  non-empty fields of a string.
\<close>

section \<open>Strings held by buffers\<close>

definition cstr :: "buffer \<Rightarrow> string option" where
  "cstr b = (if NUL \<in> set b then Some (takeWhile (\<lambda>c. c \<noteq> NUL) b) else None)"

definition strlen :: "buffer \<Rightarrow> nat option" where
  "strlen b = map_option length (cstr b)"

definition put_bytes :: "buffer \<Rightarrow> nat \<Rightarrow> buffer \<Rightarrow> buffer option" where
  "put_bytes dst i xs =
     (if i + length xs \<le> length dst
      then Some (take i dst @ xs @ drop (i + length xs) dst) else None)"

definition strcpy :: "buffer \<Rightarrow> buffer \<Rightarrow> buffer option" where
  "strcpy dst src = do { s \<leftarrow> cstr src; put_bytes dst 0 (s @ [NUL]) }"

definition strcat :: "buffer \<Rightarrow> buffer \<Rightarrow> buffer option" where
  "strcat dst src = do { d \<leftarrow> cstr dst; s \<leftarrow> cstr src; put_bytes dst (length d) (s @ [NUL]) }"

text \<open>\<open>strncat\<close> and \<open>strncpy\<close> read at most \<open>n\<close> bytes of their source.\<close>

definition cstrn :: "buffer \<Rightarrow> nat \<Rightarrow> string option" where
  "cstrn b n = (if n \<le> length b \<or> NUL \<in> set b
                then Some (takeWhile (\<lambda>c. c \<noteq> NUL) (take n b)) else None)"

definition strncat :: "buffer \<Rightarrow> buffer \<Rightarrow> nat \<Rightarrow> buffer option" where
  "strncat dst src n =
     do { d \<leftarrow> cstr dst; s \<leftarrow> cstrn src n; put_bytes dst (length d) (s @ [NUL]) }"

definition strncpy :: "buffer \<Rightarrow> buffer \<Rightarrow> nat \<Rightarrow> buffer option" where
  "strncpy dst src n =
     do { s \<leftarrow> cstrn src n; put_bytes dst 0 (s @ replicate (n - length s) NUL) }"

definition memset :: "buffer \<Rightarrow> char \<Rightarrow> nat \<Rightarrow> buffer option" where
  "memset dst c n = put_bytes dst 0 (replicate n c)"

definition memcpy :: "buffer \<Rightarrow> nat \<Rightarrow> buffer \<Rightarrow> nat \<Rightarrow> buffer option" where
  "memcpy dst i src n = (if n \<le> length src then put_bytes dst i (take n src) else None)"

text \<open>\<open>memcmp(b, lit, n) == 0\<close>; all \<open>n\<close> bytes of both objects may be read.\<close>

definition memeq :: "buffer \<Rightarrow> buffer \<Rightarrow> nat \<Rightarrow> bool option" where
  "memeq a b n = (if n \<le> length a \<and> n \<le> length b then Some (take n a = take n b) else None)"

text \<open>
  The value of \<open>strcmp\<close>: the difference of the first differing bytes, as
  \<open>unsigned char\<close>.  (ISO C fixes only its sign; the sign and the zero case are all
  the programs depend on, but for one comparison with 1 that is shown to be dead.)
\<close>

fun strcmp_str :: "string \<Rightarrow> string \<Rightarrow> int" where
  "strcmp_str [] [] = 0"
| "strcmp_str [] (d # ds) = - int (byte_of d)"
| "strcmp_str (c # cs) [] = int (byte_of c)"
| "strcmp_str (c # cs) (d # ds) =
     (if c = d then strcmp_str cs ds else int (byte_of c) - int (byte_of d))"

definition strcmp :: "buffer \<Rightarrow> string \<Rightarrow> int option" where
  "strcmp b lit = map_option (\<lambda>s. strcmp_str s lit) (cstr b)"

text \<open>\<open>toupper\<close> in the C locale: the ASCII letters from \<open>a\<close> (97) to \<open>z\<close> (122).\<close>

definition toupper :: "char \<Rightarrow> char" where
  "toupper c = (if 97 \<le> byte_of c \<and> byte_of c \<le> 122 then char_of (byte_of c - 32) else c)"

section \<open>Facts about string buffers\<close>

lemma cstr_append [simp]: "NUL \<notin> set s \<Longrightarrow> cstr (s @ NUL # r) = Some s"
  by (simp add: cstr_def takeWhile_append_stop)

lemma cstr_Nil [simp]: "cstr [] = None"
  by (simp add: cstr_def)

lemma cstr_Cons: "cstr (c # b) = (if c = NUL then Some [] else map_option (Cons c) (cstr b))"
  by (simp add: cstr_def)

lemma cstr_NUL [simp]: "cstr (NUL # b) = Some []"
  by (simp add: cstr_Cons)

lemma cstr_zeros [simp]: "0 < n \<Longrightarrow> cstr (replicate n NUL) = Some []"
  by (cases n) simp_all

lemma cstr_None [simp]: "NUL \<notin> set b \<Longrightarrow> cstr b = None"
  by (simp add: cstr_def)

lemma cstr_SomeD:
  assumes "cstr b = Some s"
  shows "\<exists>r. b = s @ NUL # r \<and> NUL \<notin> set s"
proof -
  from assms have m: "NUL \<in> set b" and s: "s = takeWhile (\<lambda>c. c \<noteq> NUL) b"
    by (auto simp: cstr_def split: if_splits)
  from split_at_mem [OF m] obtain ys zs where "b = ys @ NUL # zs" "NUL \<notin> set ys" by blast
  with s show ?thesis by (auto simp: takeWhile_append_stop)
qed

lemma cstr_SomeE:
  assumes "cstr b = Some s"
  obtains r where "b = s @ NUL # r" and "NUL \<notin> set s"
  using cstr_SomeD [OF assms] by blast

lemma cstr_length: "cstr b = Some s \<Longrightarrow> length s < length b"
  by (elim cstr_SomeE) auto

lemma cstr_no_NUL: "cstr b = Some s \<Longrightarrow> NUL \<notin> set s"
  by (elim cstr_SomeE) auto

lemma cstr_take: "cstr b = Some s \<Longrightarrow> take (length s) b = s"
  by (elim cstr_SomeE) auto

lemma cstr_nth: "cstr b = Some s \<Longrightarrow> i < length s \<Longrightarrow> b ! i = s ! i"
  by (elim cstr_SomeE) (auto simp: nth_append)

lemma cstr_nth_end: "cstr b = Some s \<Longrightarrow> b ! length s = NUL"
  by (elim cstr_SomeE) (auto simp: nth_append)

lemma cstr_append_pre: "NUL \<notin> set p \<Longrightarrow> cstr (p @ b) = map_option (\<lambda>s. p @ s) (cstr b)"
  by (cases "cstr b"; induction p) (auto simp: cstr_Cons)

lemma cstr_drop: "cstr b = Some s \<Longrightarrow> i \<le> length s \<Longrightarrow> cstr (drop i b) = Some (drop i s)"
  by (elim cstr_SomeE) (auto intro!: cstr_append dest: in_set_dropD)

lemma strlen_Some [buffer_simps]: "cstr b = Some s \<Longrightarrow> strlen b = Some (length s)"
  by (simp add: strlen_def)

lemma put_bytes_length: "put_bytes dst i xs = Some dst' \<Longrightarrow> length dst' = length dst"
  by (auto simp: put_bytes_def split: if_splits)

lemma put_bytes_Some [buffer_simps]:
  "i + length xs \<le> length dst \<Longrightarrow>
   put_bytes dst i xs = Some (take i dst @ xs @ drop (i + length xs) dst)"
  by (simp add: put_bytes_def)

lemma strcpy_Some [buffer_simps]:
  "cstr src = Some s \<Longrightarrow> length s < length dst \<Longrightarrow>
   strcpy dst src = Some (s @ NUL # drop (Suc (length s)) dst)"
  by (simp add: strcpy_def put_bytes_def)

lemma strcpy_result:
  assumes "strcpy dst src = Some dst'"
  shows "length dst' = length dst \<and> cstr dst' = cstr src \<and> cstr src \<noteq> None"
  using assms
  by (auto simp: strcpy_def put_bytes_def dest!: cstr_no_NUL split: bind_splits if_splits)

lemma strcpy_overflow: "cstr src = Some s \<Longrightarrow> length dst \<le> length s \<Longrightarrow> strcpy dst src = None"
  by (simp add: strcpy_def put_bytes_def)

lemma strcat_Some [buffer_simps]:
  "cstr dst = Some d \<Longrightarrow> cstr src = Some s \<Longrightarrow> length d + length s < length dst \<Longrightarrow>
   strcat dst src = Some (d @ s @ NUL # drop (Suc (length d + length s)) dst)"
  by (simp add: strcat_def put_bytes_def cstr_take)

lemma strcat_result:
  assumes "strcat dst src = Some dst'" "cstr dst = Some d" "cstr src = Some s"
  shows "length dst' = length dst \<and> cstr dst' = Some (d @ s)"
  using assms
  by (auto simp: strcat_def put_bytes_def cstr_take cstr_append_pre dest!: cstr_no_NUL split: if_splits)

lemma cstrn_Some [buffer_simps]: "cstr b = Some s \<Longrightarrow> cstrn b n = Some (take n s)"
proof (elim cstr_SomeE)
  fix r assume b: "b = s @ NUL # r" and n: "NUL \<notin> set s"
  then have s: "takeWhile (\<lambda>c. c \<noteq> NUL) b = s" by (simp add: takeWhile_append_stop)
  show ?thesis
  proof (cases "n \<le> length s")
    case True
    then have "take n b = take n s" by (simp add: b)
    moreover have "takeWhile (\<lambda>c. c \<noteq> NUL) (take n s) = take n s"
      using n by (auto simp: takeWhile_eq_all_conv dest: in_set_takeD)
    ultimately show ?thesis by (simp add: cstrn_def b)
  next
    case False
    then obtain k where "n = length s + Suc k"
      by (metis add_Suc_right less_imp_Suc_add not_le_imp_less)
    then have "take n b = s @ NUL # take k r" by (simp add: b)
    then show ?thesis using n False by (simp add: cstrn_def b takeWhile_append_stop)
  qed
qed

lemma strncat_all:
  "cstr src = Some s \<Longrightarrow> strncat dst src (length s) = strcat dst src"
  by (simp add: strncat_def strcat_def cstrn_Some)

lemma strncat_self:
  "cstr src = Some s \<Longrightarrow> cstr dst = Some d \<Longrightarrow> length d + length s < length dst \<Longrightarrow>
   strncat dst src (length s) = Some (d @ s @ NUL # drop (Suc (length d + length s)) dst)"
  by (simp add: strncat_all strcat_Some)

lemma byte_of_eq_0 [simp]: "byte_of c = 0 \<longleftrightarrow> c = NUL"
  using of_char_eq_iff [where 'a = nat, of c NUL] by simp

lemma strcmp_str_eq_0:
  "NUL \<notin> set s \<Longrightarrow> NUL \<notin> set t \<Longrightarrow> strcmp_str s t = 0 \<longleftrightarrow> s = t"
  by (induction s t rule: strcmp_str.induct) auto

lemma strcmp_Some: "cstr b = Some s \<Longrightarrow> strcmp b lit = Some (strcmp_str s lit)"
  by (simp add: strcmp_def)

section \<open>Fields of a string and \<open>strtok\<close>\<close>

text \<open>The non-empty maximal runs of non-delimiters of a string, in order.\<close>

function tokens :: "(char \<Rightarrow> bool) \<Rightarrow> string \<Rightarrow> string list" where
  "tokens d s =
     (case dropWhile d s of
        [] \<Rightarrow> []
      | c # cs \<Rightarrow> takeWhile (\<lambda>c. \<not> d c) (c # cs) # tokens d (dropWhile (\<lambda>c. \<not> d c) (c # cs)))"
  by pat_completeness auto
termination
proof (relation "measure (\<lambda>(d, s). length s)")
  fix d :: "char \<Rightarrow> bool" and s c cs
  assume h: "dropWhile d s = c # cs"
  then have "\<not> d c" using hd_dropWhile [of d s] by simp
  then have "length (dropWhile (\<lambda>c. \<not> d c) (c # cs)) \<le> length cs"
    by (simp add: length_dropWhile_le)
  also have "\<dots> < length s"
    using length_dropWhile_le [of d s] h by simp
  finally show "((d, dropWhile (\<lambda>c. \<not> d c) (c # cs)), d, s) \<in> measure (\<lambda>(d, s). length s)"
    by simp
qed simp

declare tokens.simps [simp del]

text \<open>
  \<open>strtok\<close> at position \<open>p\<close> of the buffer \<open>b\<close> (the first argument of a first call, the
  saved pointer of a later one): skip delimiters, stop at the end of the string,
  otherwise cut the field off by overwriting the delimiter after it with a zero byte.
  The field is returned by value; the buffer and the saved position are the new state.
\<close>

type_synonym tok_state = "buffer \<times> nat"

definition strtok :: "(char \<Rightarrow> bool) \<Rightarrow> tok_state \<Rightarrow> (string option \<times> tok_state) option" where
  "strtok d = (\<lambda>(b, p). do {
     s \<leftarrow> cstr (drop p b);
     let t = dropWhile d s;
     let start = p + (length s - length t);
     let w = takeWhile (\<lambda>c. \<not> d c) t;
     let e = start + length w;
     (if t = [] then Some (None, (b, p + length s))
      else if e = p + length s then Some (Some w, (b, e))
      else Some (Some w, (b[e := NUL], Suc e)))
   })"

text \<open>What is left to return, and when a tokeniser state is sound.\<close>

definition tok_rest :: "(char \<Rightarrow> bool) \<Rightarrow> tok_state \<Rightarrow> string list" where
  "tok_rest d = (\<lambda>(b, p). case cstr (drop p b) of None \<Rightarrow> [] | Some s \<Rightarrow> tokens d s)"

definition tok_ok :: "tok_state \<Rightarrow> bool" where
  "tok_ok = (\<lambda>(b, p). cstr (drop p b) \<noteq> None)"

text \<open>The loop \<open>while (ptr != NULL) { body; ptr = strtok(NULL, delim); }\<close>.\<close>

partial_function (option) while_tokens ::
  "('t \<Rightarrow> (string option \<times> 't) option) \<Rightarrow> (string \<Rightarrow> 'a \<Rightarrow> 'a option) \<Rightarrow>
   string option \<Rightarrow> 't \<Rightarrow> 'a \<Rightarrow> ('a \<times> 't) option" where
  "while_tokens nxt body ptr st acc =
     (case ptr of
        None \<Rightarrow> Some (acc, st)
      | Some w \<Rightarrow> do { acc' \<leftarrow> body w acc;
                      (ptr', st') \<leftarrow> nxt st;
                      while_tokens nxt body ptr' st' acc' })"

text \<open>The loop \<open>for (i = 0; i < n; i++) { body; ptr = strtok(NULL, delim); }\<close>, whose body
  dereferences \<open>ptr\<close>.\<close>

fun for_tokens ::
  "('t \<Rightarrow> (string option \<times> 't) option) \<Rightarrow> (string \<Rightarrow> 'a \<Rightarrow> 'a option) \<Rightarrow>
   nat \<Rightarrow> string option \<Rightarrow> 't \<Rightarrow> 'a \<Rightarrow> ('a \<times> 't) option" where
  "for_tokens nxt body 0 ptr st acc = Some (acc, st)"
| "for_tokens nxt body (Suc n) ptr st acc =
     (case ptr of
        None \<Rightarrow> None
      | Some w \<Rightarrow> do { acc' \<leftarrow> body w acc;
                      (ptr', st') \<leftarrow> nxt st;
                      for_tokens nxt body n ptr' st' acc' })"

text \<open>
  The contract of a tokeniser: it hands out exactly the fields still left, then a null
  pointer.  Every token loop of the programs relies on this contract only.
\<close>

locale tokenizer =
  fixes nxt :: "'t \<Rightarrow> (string option \<times> 't) option"
    and rest :: "'t \<Rightarrow> string list"
    and ok :: "'t \<Rightarrow> bool"
  assumes nxt_done: "ok t \<Longrightarrow> rest t = [] \<Longrightarrow> \<exists>t'. nxt t = Some (None, t')"
    and nxt_more: "ok t \<Longrightarrow> rest t = w # ws \<Longrightarrow>
                   \<exists>t'. nxt t = Some (Some w, t') \<and> ok t' \<and> rest t' = ws"
begin

lemma while_tokens_fold:
  assumes "ok t"
  shows "map_option fst (while_tokens nxt body (Some w) t a) = fold_opt body (w # rest t) a"
  using assms
proof (induction "rest t" arbitrary: t w a)
  case Nil
  from nxt_done [OF Nil.prems Nil(1) [symmetric]] obtain t' where "nxt t = Some (None, t')" by blast
  with Nil(1) [symmetric] show ?case
    by (cases "body w a") (simp_all add: while_tokens.simps)
next
  case (Cons v vs)
  from nxt_more [OF Cons.prems Cons(2) [symmetric]] obtain t'
    where t': "nxt t = Some (Some v, t')" "ok t'" "rest t' = vs" by blast
  show ?case
  proof (cases "body w a")
    case None
    then show ?thesis by (simp add: while_tokens.simps)
  next
    case (Some a')
    have "map_option fst (while_tokens nxt body (Some v) t' a') = fold_opt body (v # rest t') a'"
      using Cons(1) t' by blast
    with Some t' Cons(2) [symmetric] show ?thesis
      by (subst while_tokens.simps) simp
  qed
qed

lemma for_tokens_fold:
  assumes "ok t" "n \<le> length (rest t)"
  shows "map_option fst (for_tokens nxt body (Suc n) (Some w) t a) = fold_opt body (w # take n (rest t)) a"
  using assms
proof (induction n arbitrary: t w a)
  case 0
  then show ?case
    using nxt_done [of t] nxt_more [of t] by (cases "rest t"; cases "body w a") fastforce+
next
  case (Suc n)
  then obtain v vs where r: "rest t = v # vs" by (cases "rest t") auto
  from nxt_more [OF Suc.prems(1) r] obtain t'
    where t': "nxt t = Some (Some v, t')" "ok t'" "rest t' = vs" by blast
  have IH: "map_option fst (for_tokens nxt body (Suc n) (Some v) t' a') = fold_opt body (v # take n vs) a'" for a'
    using Suc.IH [of t' v a'] t' Suc.prems(2) r by simp
  show ?case
  proof (cases "body w a")
    case (Some a')
    then show ?thesis using IH [of a'] t'(1) r by (simp del: for_tokens.simps add: for_tokens.simps(2) [of _ _ "Suc n"])
  qed simp
qed

lemma for_loop_fold:
  assumes "ok t" "n \<le> length (rest t)"
  shows "map_option fst (do { (ptr, t') \<leftarrow> nxt t; for_tokens nxt body n ptr t' a })
         = fold_opt body (take n (rest t)) a"
proof (cases n)
  case 0
  then show ?thesis
    using nxt_done [OF assms(1)] nxt_more [OF assms(1)] by (cases "rest t") fastforce+
next
  case (Suc m)
  then obtain v vs where r: "rest t = v # vs" using assms(2) by (cases "rest t") auto
  from nxt_more [OF assms(1) r] obtain t'
    where t': "nxt t = Some (Some v, t')" "ok t'" "rest t' = vs" by blast
  have "map_option fst (for_tokens nxt body (Suc m) (Some v) t' a) = fold_opt body (v # take m vs) a"
    using for_tokens_fold [of t' m body v a] t' assms(2) r Suc by simp
  then show ?thesis using t' r Suc by (simp del: for_tokens.simps)
qed

lemma token_loop_fold:
  assumes "ok t"
  shows "map_option fst (do { (ptr, t') \<leftarrow> nxt t; while_tokens nxt body ptr t' a })
         = fold_opt body (rest t) a"
proof (cases "rest t")
  case Nil
  with nxt_done [OF assms] show ?thesis by (auto simp: while_tokens.simps)
next
  case (Cons w ws)
  from nxt_more [OF assms Cons] obtain t'
    where "nxt t = Some (Some w, t')" "ok t'" "rest t' = ws" by blast
  with while_tokens_fold [of t' body w a] Cons show ?thesis by simp
qed

end

lemma tokens_Nil [simp]: "tokens d [] = []"
  by (subst tokens.simps) simp

lemma tokens_empty_iff: "tokens d s = [] \<longleftrightarrow> dropWhile d s = []"
  by (subst tokens.simps) (simp split: list.splits del: dropWhile_eq_Nil_conv)

lemma tokens_ConsD:
  assumes "tokens d s = w # ws"
  shows "dropWhile d s \<noteq> [] \<and> w = takeWhile (\<lambda>c. \<not> d c) (dropWhile d s)
         \<and> ws = tokens d (dropWhile (\<lambda>c. \<not> d c) (dropWhile d s))"
  using assms by (subst (asm) tokens.simps) (simp split: list.splits del: dropWhile_eq_Nil_conv)

lemma tokens_skip_delim: "d c \<Longrightarrow> tokens d (c # s) = tokens d s"
  by (subst (1 2) tokens.simps) simp


lemma tokens_drop_field:
  assumes "dropWhile (\<lambda>c. \<not> d c) t = c # u"
  shows "tokens d (dropWhile (\<lambda>c. \<not> d c) t) = tokens d u"
proof -
  have "d c" using hd_dropWhile [of "\<lambda>c. \<not> d c" t] assms by simp
  with assms show ?thesis by (simp add: tokens_skip_delim)
qed

lemma strtok_done:
  assumes "cstr (drop p b) = Some s" "tokens d s = []"
  shows "strtok d (b, p) = Some (None, (b, p + length s))"
  using assms by (simp add: strtok_def tokens_empty_iff del: dropWhile_eq_Nil_conv)

lemma strtok_more:
  assumes s: "cstr (drop p b) = Some s" and tk: "tokens d s = w # ws"
  shows "\<exists>b' p' s'. strtok d (b, p) = Some (Some w, (b', p')) \<and> length b' = length b \<and>
           cstr (drop p' b') = Some s' \<and> tokens d s' = ws"
proof -
  define t where "t = dropWhile d s"
  define u where "u = dropWhile (\<lambda>c. \<not> d c) t"
  define k where "k = length s - length t"
  from tokens_ConsD [OF tk] have t: "t \<noteq> []" and w: "w = takeWhile (\<lambda>c. \<not> d c) t"
    and ws: "ws = tokens d u" by (auto simp: t_def u_def)
  have sp: "s = takeWhile d s @ w @ u" by (simp add: w u_def t_def)
  have k: "k = length (takeWhile d s)"
    using takeWhile_dropWhile_id [of d s] unfolding k_def t_def
    by (metis add_diff_cancel_right' length_append)
  then have ls: "length s = k + length w + length u" using sp
    by (metis add.assoc length_append)
  from s obtain r where b: "drop p b = s @ NUL # r" and n: "NUL \<notin> set s" by (rule cstr_SomeE)
  then have p: "p + length s < length b"
    by (metis add.commute cstr_length length_drop less_diff_conv s)
  have du: "drop (p + (k + length w)) b = u @ NUL # r"
  proof -
    have "drop (p + (k + length w)) b = drop (k + length w) (drop p b)" by (simp add: add.commute)
    also have "\<dots> = drop (k + length w) (takeWhile d s @ w @ u @ NUL # r)"
      using b sp by (metis append.assoc)
    finally show ?thesis by (simp add: k)
  qed
  have val: "strtok d (b, p) =
      (if p + k + length w = p + length s then Some (Some w, (b, p + k + length w))
       else Some (Some w, (b[p + k + length w := NUL], Suc (p + k + length w))))"
    using s t by (simp add: strtok_def Let_def t_def [symmetric] w [symmetric] k_def [symmetric]
      del: dropWhile_eq_Nil_conv)
  show ?thesis
  proof (cases u)
    case Nil
    then have "strtok d (b, p) = Some (Some w, (b, p + length s))"
      using val ls by simp
    moreover have "cstr (drop (p + length s) b) = Some []"
      using b by (metis append_eq_conv_conj cstr_NUL drop_drop add.commute)
    ultimately show ?thesis using ws Nil by auto
  next
    case (Cons c u')
    let ?e = "p + (k + length w)"
    have "strtok d (b, p) = Some (Some w, (b[?e := NUL], Suc ?e))"
      using val ls Cons by (simp add: add.assoc)
    moreover have "drop (Suc ?e) b = u' @ NUL # r"
      using du Cons by (metis append_Cons drop_Suc list.sel(3) tl_drop)
    moreover have "NUL \<notin> set u'" using n sp Cons by (metis Un_iff list.set_intros(2) set_append)
    moreover have "ws = tokens d u'"
      using ws tokens_drop_field [of d t c u'] Cons u_def by simp
    ultimately show ?thesis
      by (intro exI [of _ "b[?e := NUL]"] exI [of _ "Suc ?e"] exI [of _ u']) simp
  qed
qed

interpretation tk: tokenizer "strtok d" "tok_rest d" tok_ok
  for d :: "char \<Rightarrow> bool"
proof
  fix t :: tok_state
  assume ok: "tok_ok t" and "tok_rest d t = []"
  then show "\<exists>t'. strtok d t = Some (None, t')"
    by (cases t) (auto simp: tok_ok_def tok_rest_def strtok_done)
next
  fix t :: tok_state and w ws
  assume ok: "tok_ok t" and r: "tok_rest d t = w # ws"
  obtain b p where t: "t = (b, p)" by fastforce
  from ok obtain s where s: "cstr (drop p b) = Some s" by (auto simp: tok_ok_def t)
  with r have "tokens d s = w # ws" by (simp add: tok_rest_def t)
  from strtok_more [OF s this]
  show "\<exists>t'. strtok d t = Some (Some w, t') \<and> tok_ok t' \<and> tok_rest d t' = ws"
    by (auto simp: t tok_ok_def tok_rest_def)
qed

text \<open>The whole loop over the string a buffer holds.\<close>

lemma strtok_loop:
  assumes "cstr b = Some s"
  shows "map_option fst (do { (ptr, t') \<leftarrow> strtok d (b, 0); while_tokens (strtok d) body ptr t' a })
         = fold_opt body (tokens d s) a"
  using tk.token_loop_fold [of "(b, 0)" d body a] assms by (simp add: tok_ok_def tok_rest_def)

lemma strtok_for:
  assumes "cstr b = Some s" "n \<le> length (tokens d s)"
  shows "map_option fst (do { (ptr, t') \<leftarrow> strtok d (b, 0); for_tokens (strtok d) body n ptr t' a })
         = fold_opt body (take n (tokens d s)) a"
  using tk.for_loop_fold [of "(b, 0)" n d body a] assms by (simp add: tok_ok_def tok_rest_def)

section \<open>Reading lines\<close>

text \<open>
  \<open>fgets(b, n, stdin)\<close>, where \<open>inp\<close> is what is left of the standard input: at its end
  the buffer keeps its contents (and the C function returns a null pointer).
\<close>

definition line_part :: "nat \<Rightarrow> string \<Rightarrow> string" where
  "line_part n inp = (let l = take (n - 1) inp in
     takeWhile (\<lambda>c. c \<noteq> NL) l @ (if NL \<in> set l then [NL] else []))"

definition fgets :: "buffer \<Rightarrow> nat \<Rightarrow> string \<Rightarrow> (buffer \<times> string) option" where
  "fgets b n inp =
     (if inp = [] then Some (b, inp)
      else do { b' \<leftarrow> put_bytes b 0 (line_part n inp @ [NUL]);
                Some (b', drop (length (line_part n inp)) inp) })"

lemma line_part_line:
  "NL \<notin> set l \<Longrightarrow> length l + 1 < n \<Longrightarrow> line_part n (l @ NL # rest) = l @ [NL]"
  by (simp add: line_part_def Let_def takeWhile_append_stop take_Cons')

lemma fgets_line:
  assumes "NL \<notin> set l" "length l + 1 < n" "n \<le> length b"
  shows "fgets b n (l @ NL # rest) = Some (l @ NL # NUL # drop (length l + 2) b, rest)"
  using assms by (simp add: fgets_def line_part_line put_bytes_def)

lemma tokens_subset: "w \<in> set (tokens d s) \<Longrightarrow> set w \<subseteq> set s \<and> length w \<le> length s"
proof (induction d s rule: tokens.induct)
  case (1 d s)
  show ?case
  proof (cases "dropWhile d s")
    case Nil
    with 1 show ?thesis by (simp add: tokens.simps [of d s])
  next
    case (Cons c cs)
    let ?w = "takeWhile (\<lambda>c. \<not> d c) (c # cs)" and ?u = "dropWhile (\<lambda>c. \<not> d c) (c # cs)"
    have sub: "set (c # cs) \<subseteq> set s" "length (c # cs) \<le> length s"
      using Cons by (metis set_dropWhileD subsetI, metis length_dropWhile_le)
    have tk: "tokens d s = ?w # tokens d ?u" using Cons by (subst tokens.simps) simp
    with 1(2) consider "w = ?w" | "w \<in> set (tokens d ?u)" by auto
    then show ?thesis
    proof cases
      case 1
      then show ?thesis using sub set_takeWhileD length_takeWhile_le
        by (metis order_trans subset_eq)
    next
      case 2
      have "set ?u \<subseteq> set (c # cs)" "length ?u \<le> length (c # cs)"
        using set_dropWhileD length_dropWhile_le by (metis subsetI, metis)
      with 1(1) [OF Cons 2] sub show ?thesis by (meson order_trans)
    qed
  qed
qed

section \<open>Facts for the callers of the tokeniser\<close>

lemma length_tokens: "length (tokens d s) \<le> length s"
proof (induction d s rule: tokens.induct)
  case (1 d s)
  show ?case
  proof (cases "dropWhile d s")
    case Nil
    then have "tokens d s = []" by (simp add: tokens_empty_iff)
    then show ?thesis by simp
  next
    case (Cons c cs)
    let ?u = "dropWhile (\<lambda>c. \<not> d c) (c # cs)"
    have "\<not> d c" using hd_dropWhile [of d s] Cons by simp
    then have "length ?u \<le> length cs" by (simp add: length_dropWhile_le)
    moreover have "length (c # cs) \<le> length s" using Cons by (metis length_dropWhile_le)
    moreover have "length (tokens d s) = Suc (length (tokens d ?u))" using Cons by (subst tokens.simps) simp
    ultimately show ?thesis using 1 [OF Cons] by simp
  qed
qed

lemma token_count:
  assumes "cstr b = Some s"
  shows "do { (ptr, st) \<leftarrow> strtok d (b, 0);
              (c, st) \<leftarrow> while_tokens (strtok d) (\<lambda>_ c. Some (Suc c)) ptr st 0; Some c }
         = Some (length (tokens d s))"
  using strtok_loop [OF assms, of d "\<lambda>_ c. Some (Suc c)" 0] fold_opt_count [of "tokens d s" 0]
  by (auto split: bind_splits)

lemma fresh_tail:
  assumes "NUL \<notin> set w" "length w < n" "g (length w) = NUL"
  shows "cstr (w @ drop (length w) (fresh_block g n)) = Some w"
proof -
  have "drop (length w) (fresh_block g n) = NUL # drop (Suc (length w)) (fresh_block g n)"
    using assms(2,3) by (simp add: Cons_nth_drop_Suc [symmetric])
  with assms(1) show ?thesis by simp
qed

lemma cstr_fresh:
  assumes "NUL \<notin> set w" "length w < n" "\<forall>i < length w. g i = w ! i" "g (length w) = NUL"
  shows "cstr (fresh_block g n) = Some w"
proof -
  have "take (length w) (fresh_block g n) = w" using assms(2,3) by (intro nth_equalityI) simp_all
  then have "fresh_block g n = w @ drop (length w) (fresh_block g n)" by (metis append_take_drop_id)
  then show ?thesis using fresh_tail [of w n g] assms by simp
qed

text \<open>\<open>strncpy(buf, s, strlen(s))\<close> copies the bytes and nothing else.\<close>

lemma strncpy_bare:
  assumes "cstr s = Some w" "length w \<le> length dst"
  shows "strncpy dst s (length w) = Some (w @ drop (length w) dst)"
  using assms by (simp add: strncpy_def cstrn_Some put_bytes_def)

text \<open>Filling an array of pointers from index \<open>i\<close> on.\<close>

lemma fold_fill:
  assumes "\<forall>w \<in> set ws. \<forall>k. f k w = Some (h k w)" "i + length ws \<le> length a"
  shows "fold_opt (\<lambda>w (a, i). do { v \<leftarrow> f i w; a \<leftarrow> buf_set a i (Some v); Some (a, Suc i) }) ws (a, i)
    = Some (take i a @ map (\<lambda>(k, w). Some (h k w)) (enumerate i ws) @ drop (i + length ws) a, i + length ws)"
  using assms
proof (induction ws arbitrary: a i)
  case (Cons w ws)
  then have i: "i < length a" by simp
  then have "fold_opt (\<lambda>w (a, i). do { v \<leftarrow> f i w; a \<leftarrow> buf_set a i (Some v); Some (a, Suc i) }) (w # ws) (a, i)
    = fold_opt (\<lambda>w (a, i). do { v \<leftarrow> f i w; a \<leftarrow> buf_set a i (Some v); Some (a, Suc i) }) ws (a[i := Some (h i w)], Suc i)"
    using Cons.prems by (simp add: buffer_simps)
  also have "\<dots> = Some (take (Suc i) (a[i := Some (h i w)]) @ map (\<lambda>(k, w). Some (h k w)) (enumerate (Suc i) ws) @
      drop (Suc i + length ws) (a[i := Some (h i w)]), Suc i + length ws)"
    using Cons.prems by (intro Cons.IH) auto
  finally show ?case using i by (simp add: take_Suc_conv_app_nth)
qed simp

lemma fold_fill_overflow:
  assumes "length a < i + length ws" "i \<le> length a" "\<forall>w \<in> set ws. \<forall>k. f k w = Some (h k w)"
  shows "fold_opt (\<lambda>w (a, i). do { v \<leftarrow> f i w; a \<leftarrow> buf_set a i (Some v); Some (a, Suc i) }) ws (a, i) = None"
  using assms
proof (induction ws arbitrary: a i)
  case (Cons w ws)
  show ?case
  proof (cases "i < length a")
    case True
    then show ?thesis using Cons.IH [of "a[i := Some (h i w)]" "Suc i"] Cons.prems by (simp add: buffer_simps)
  next
    case False
    then show ?thesis using Cons.prems by (simp add: buffer_simps)
  qed
qed simp

lemma in_set_update_same: "x \<in> set b \<Longrightarrow> x \<in> set (b[i := x])"
  by (cases "i < length b") (simp_all add: set_update_memI list_update_beyond)

lemma strtok_keeps_NUL:
  assumes "strtok d (b, p) = Some (x, b', p')" "NUL \<in> set b"
  shows "length b' = length b \<and> NUL \<in> set b'"
proof -
  obtain s where s: "cstr (drop p b) = Some s"
    using assms(1) by (cases "cstr (drop p b)") (simp_all add: strtok_def)
  have "b' = b \<or> (\<exists>e. b' = b[e := NUL])"
    using assms(1) unfolding strtok_def Let_def prod.case s bind.simps
    by (metis (no_types, lifting) option.inject prod.inject)
  then show ?thesis using assms(2) in_set_update_same [of NUL b] by auto
qed

lemma map_enumerate_fun: "map (\<lambda>(k, w). f w) (enumerate i ws) = map f ws"
  by (induction ws arbitrary: i) simp_all

lemma map_enumerate_snd: "map (\<lambda>(k, w). Some w) (enumerate i ws) = map Some ws"
  by (induction ws arbitrary: i) simp_all

lemma map_enumerate_tail:
  "0 < i \<Longrightarrow> map (\<lambda>(k, w). Some (if k = 0 then f w else w)) (enumerate i ws) = map Some ws"
  by (induction ws arbitrary: i) simp_all

lemma for_tokens_keeps_NUL:
  "for_tokens (strtok d) body n ptr (b, p) acc = Some (acc', b', p') \<Longrightarrow> NUL \<in> set b \<Longrightarrow>
   length b' = length b \<and> NUL \<in> set b'"
proof (induction n arbitrary: ptr b p acc)
  case (Suc n)
  then obtain w acc1 ptr1 b1 p1 where 1: "strtok d (b, p) = Some (ptr1, b1, p1)"
    and 2: "for_tokens (strtok d) body n ptr1 (b1, p1) acc1 = Some (acc', b', p')"
    by (auto split: option.splits bind_splits)
  then show ?case using Suc.IH [OF 2] strtok_keeps_NUL [OF 1 Suc.prems(2)] by simp
qed simp

end
