(* ===== verification/Pathnames.thy ===== *)
theory Pathnames
  imports CString
begin

text \<open>
  The thread-safe \<open>basen\<close> and \<open>dirn\<close> of \<open>C/dirname & basename\<close>.  Each function copies
  the path into a per-thread block of 4096 bytes, removes repeated slashes through a
  heap buffer, trims one trailing slash, counts the slashes and cuts the string.  The
  bytes the C code reads without having written them are parameters of the model
  (record \<open>path_env\<close>): the byte before the block (\<open>string[i - 1]\<close> at \<open>i = 0\<close>), the
  initial contents of the heap buffer (which is never zero-terminated), and of the
  array \<open>filename\<close>.  The reference is the POSIX meaning of the two functions on the
  list of path components; the theorems say exactly which of the unwritten bytes must
  be zero for the code to compute it.
\<close>

abbreviation slash_char :: char where "slash_char \<equiv> CHR 0x2F"

section \<open>The code\<close>

record path_env =
  before :: char
  heap :: "nat \<Rightarrow> char"
  stack :: "nat \<Rightarrow> char"

text \<open>The byte at index \<open>n - 1\<close> of the block; index -1 lies just before it.\<close>

definition prev_byte :: "char \<Rightarrow> buffer \<Rightarrow> nat \<Rightarrow> char option" where
  "prev_byte pre str n = (if n = 0 then Some pre else buf_get str (n - 1))"

function squeeze_loop ::
  "char \<Rightarrow> buffer \<Rightarrow> nat \<Rightarrow> nat \<Rightarrow> nat \<Rightarrow> buffer \<Rightarrow> (nat \<times> buffer) option" where
  "squeeze_loop pre str amount i j buf =
     (if i < amount then do {
        c \<leftarrow> buf_get str i;
        dup \<leftarrow> (if c = slash_char then do { p \<leftarrow> prev_byte pre str i; Some (p = slash_char) }
               else Some False);
        (if dup then squeeze_loop pre str amount (i + 1) j buf
         else do { buf' \<leftarrow> buf_set buf j c; squeeze_loop pre str amount (i + 1) (j + 1) buf' })
      } else Some (j, buf))"
  by pat_completeness auto
termination
  by (relation "measure (\<lambda>(pre, str, amount, i, j, buf). amount - i)") auto

declare squeeze_loop.simps [simp del]

definition trim_slash :: "char \<Rightarrow> buffer \<Rightarrow> (buffer \<times> nat) option" where
  "trim_slash pre str = do {
     amount \<leftarrow> strlen str;
     c \<leftarrow> prev_byte pre str amount;
     (if c = slash_char \<and> amount \<noteq> 1 then
        (if amount = 0 then None
         else do { str' \<leftarrow> buf_set str (amount - 1) NUL; amount' \<leftarrow> strlen str'; Some (str', amount') })
      else Some (str, amount))
   }"

function count_slashes :: "buffer \<Rightarrow> nat \<Rightarrow> nat \<Rightarrow> int \<Rightarrow> int option" where
  "count_slashes str amount i slash =
     (if i < amount then do {
        c \<leftarrow> buf_get str i;
        count_slashes str amount (i + 1) (if c = slash_char then slash + 1 else slash)
      } else Some slash)"
  by pat_completeness auto
termination
  by (relation "measure (\<lambda>(str, amount, i, slash). amount - i)") auto

declare count_slashes.simps [simp del]

definition late_trim :: "char \<Rightarrow> buffer \<Rightarrow> nat \<Rightarrow> int \<Rightarrow> (buffer \<times> nat \<times> int) option" where
  "late_trim pre str amount slash = do {
     c \<leftarrow> prev_byte pre str amount;
     hit \<leftarrow> (if c = slash_char then map_option (\<lambda>r. r = 1) (strcmp str ''/'') else Some False);
     (if hit then
        (if amount = 0 then None
         else do { str' \<leftarrow> buf_set str (amount - 1) NUL; Some (str', amount - 1, slash - 1) })
      else Some (str, amount, slash))
   }"

text \<open>The two forms of the final loop: \<open>dirn\<close> cuts at the last slash, \<open>basen\<close> copies what
  follows it into \<open>filename\<close> (255 bytes).  Both stop when \<open>slash\<close> reaches 0.\<close>

function cut_loop :: "buffer \<Rightarrow> nat \<Rightarrow> int \<Rightarrow> buffer option" where
  "cut_loop str i slash =
     (if slash > 0 then do {
        c \<leftarrow> buf_get str i;
        (if c = slash_char then
           (if slash - 1 = 0 then buf_set str i NUL else cut_loop str (i + 1) (slash - 1))
         else cut_loop str (i + 1) slash)
      } else Some str)"
  by pat_completeness auto
termination
  by (relation "measure (\<lambda>(str, i, slash). length str - i)")
     (auto simp: buf_get_def split: if_splits)

function copy_tail :: "buffer \<Rightarrow> nat \<Rightarrow> nat \<Rightarrow> nat \<Rightarrow> buffer \<Rightarrow> buffer option" where
  "copy_tail str amount i j filename =
     (if i < amount then do {
        c \<leftarrow> buf_get str i;
        filename' \<leftarrow> buf_set filename j c;
        copy_tail str amount (i + 1) (j + 1) filename'
      } else Some filename)"
  by pat_completeness auto
termination
  by (relation "measure (\<lambda>(str, amount, i, j, filename). amount - i)") auto

function base_loop :: "buffer \<Rightarrow> nat \<Rightarrow> nat \<Rightarrow> int \<Rightarrow> buffer \<Rightarrow> buffer option" where
  "base_loop str amount i slash filename =
     (if slash > 0 then do {
        c \<leftarrow> buf_get str i;
        (if c = slash_char then
           (if slash - 1 = 0 then copy_tail str amount (i + 1) 0 filename
            else base_loop str amount (i + 1) (slash - 1) filename)
         else base_loop str amount (i + 1) slash filename)
      } else Some filename)"
  by pat_completeness auto
termination
  by (relation "measure (\<lambda>(str, amount, i, slash, filename). length str - i)")
     (auto simp: buf_get_def split: if_splits)

declare cut_loop.simps [simp del] copy_tail.simps [simp del] base_loop.simps [simp del]

text \<open>The common first half: copy, squeeze, trim, count, trim again.\<close>

definition normalise_path :: "path_env \<Rightarrow> buffer \<Rightarrow> buffer \<Rightarrow> (buffer \<times> nat \<times> int) option" where
  "normalise_path e string0 pathname = do {
     str \<leftarrow> strcpy string0 pathname;
     amount \<leftarrow> strlen str;
     (j, buf) \<leftarrow> squeeze_loop (before e) str amount 0 0 (fresh_block (heap e) (amount + 1));
     str \<leftarrow> strcpy str buf;
     (str, amount) \<leftarrow> trim_slash (before e) str;
     slash \<leftarrow> count_slashes str amount 0 0;
     late_trim (before e) str amount slash
   }"

definition dirn_string :: "path_env \<Rightarrow> buffer \<Rightarrow> buffer \<Rightarrow> buffer option" where
  "dirn_string e string0 pathname = do {
     (str, amount, slash) \<leftarrow> normalise_path e string0 pathname;
     root \<leftarrow> strcmp str ''/'';
     first \<leftarrow> buf_get str 0;
     (if root = 0 \<or> (slash = 1 \<and> first = slash_char) then strcpy str (''/'' @ [NUL])
      else let amount = (0 :: nat) in
        if amount \<noteq> 0 \<or> slash = 0 \<or> (amount > 0 \<and> slash = 1) then strcpy str (''.'' @ [NUL])
        else do {
          up \<leftarrow> strcmp str ''..'';
          (if up = 0 then strcpy str (''.'' @ [NUL]) else cut_loop str 0 slash)
        })
   }"

definition basen_string :: "path_env \<Rightarrow> buffer \<Rightarrow> buffer \<Rightarrow> buffer option" where
  "basen_string e string0 pathname = do {
     (str, amount, slash) \<leftarrow> normalise_path e string0 pathname;
     (if amount = 0 then strcpy str (''.'' @ [NUL])
      else if slash = 0 then Some str
      else do {
        root \<leftarrow> strcmp str ''/'';
        dot \<leftarrow> strcmp str ''.'';
        up \<leftarrow> strcmp str ''..'';
        (if root = 0 \<or> dot = 0 \<or> up = 0 then Some str
         else do {
           filename \<leftarrow> base_loop str amount 0 slash (fresh_block (stack e) 255);
           strcpy str filename
         })
      })
   }"

text \<open>
  The per-thread block.  \<open>pthread_once\<close> creates the key at the first call; a thread's
  block is allocated at its first call and reused.  The value returned to the caller is
  the thread's block itself.
\<close>

record tsd =
  key_created :: bool
  slot :: "nat \<Rightarrow> buffer option"

definition with_slot ::
  "(nat \<Rightarrow> char) \<Rightarrow> (buffer \<Rightarrow> buffer option) \<Rightarrow> nat \<Rightarrow> tsd \<Rightarrow> tsd option" where
  "with_slot page body t \<sigma> = do {
     let string0 = (case (if key_created \<sigma> then slot \<sigma> t else None) of
                      None \<Rightarrow> fresh_block page 4096 | Some b \<Rightarrow> b);
     str \<leftarrow> body string0;
     Some (\<sigma>\<lparr>key_created := True, slot := (slot \<sigma>)(t := Some str)\<rparr>)
   }"

text \<open>When a thread ends the destructor of the key frees its block.\<close>

definition destructor :: "nat \<Rightarrow> tsd \<Rightarrow> tsd" where
  "destructor t \<sigma> = (if key_created \<sigma> then \<sigma>\<lparr>slot := (slot \<sigma>)(t := None)\<rparr> else \<sigma>)"

definition dirn :: "path_env \<Rightarrow> (nat \<Rightarrow> char) \<Rightarrow> nat \<Rightarrow> buffer \<Rightarrow> tsd \<Rightarrow> tsd option" where
  "dirn e page t pathname = with_slot page (\<lambda>string0. dirn_string e string0 pathname) t"

definition basen :: "path_env \<Rightarrow> (nat \<Rightarrow> char) \<Rightarrow> nat \<Rightarrow> buffer \<Rightarrow> tsd \<Rightarrow> tsd option" where
  "basen e page t pathname = with_slot page (\<lambda>string0. basen_string e string0 pathname) t"

section \<open>The reference: path components\<close>

definition components :: "string \<Rightarrow> string list" where
  "components p = tokens (\<lambda>c. c = slash_char) p"

definition absolute :: "string \<Rightarrow> bool" where
  "absolute p = (case p of [] \<Rightarrow> False | c # _ \<Rightarrow> c = slash_char)"

fun join :: "string list \<Rightarrow> string" where
  "join [] = []"
| "join [w] = w"
| "join (w # ws) = w @ slash_char # join ws"

definition basename_ref :: "string \<Rightarrow> string" where
  "basename_ref p = (if p = [] then ''.'' else if components p = [] then ''/'' else last (components p))"

definition dirname_ref :: "string \<Rightarrow> string" where
  "dirname_ref p =
     (let parent = butlast (components p); root = (if absolute p then ''/'' else [])
      in if parent = [] then (if absolute p then ''/'' else ''.'') else root @ join parent)"

definition normal_path :: "string \<Rightarrow> string" where
  "normal_path p = (if absolute p then ''/'' else []) @ join (components p)"

text \<open>What the squeezing loop copies, as a function of the previous byte.\<close>

fun squeeze :: "char \<Rightarrow> string \<Rightarrow> string" where
  "squeeze p [] = []"
| "squeeze p (c # cs) = (if c = slash_char \<and> p = slash_char then squeeze c cs else c # squeeze c cs)"

section \<open>The loops\<close>

lemma squeeze_Nil_iff [simp]: "squeeze p s = [] \<longleftrightarrow> s = [] \<or> (p = slash_char \<and> set s \<subseteq> {slash_char})"
  by (induction p s rule: squeeze.induct) auto

lemma length_squeeze: "length (squeeze p s) \<le> length s"
  by (induction p s rule: squeeze.induct) auto

lemma set_squeeze: "set (squeeze p s) \<subseteq> set s"
  by (induction p s rule: squeeze.induct) auto

lemma squeeze_loop_result:
  assumes "cstr str = Some s" "i \<le> length s" "j \<le> i" "length s < length buf"
    and "p = (if i = 0 then pre else s ! (i - 1))"
  shows "squeeze_loop pre str (length s) i j buf =
    Some (j + length (squeeze p (drop i s)),
          take j buf @ squeeze p (drop i s) @ drop (j + length (squeeze p (drop i s))) buf)"
  using assms
proof (induction "length s - i" arbitrary: i j buf p)
  case 0
  then show ?case by (subst squeeze_loop.simps) simp
next
  case (Suc k)
  let ?c = "s ! i"
  from Suc.hyps(2) have i: "i < length s" by simp
  have ls: "length s < length str" using Suc.prems(1) by (rule cstr_length)
  have c: "buf_get str i = Some ?c"
    using i ls cstr_nth [OF Suc.prems(1) i] by (simp add: buf_get_def)
  have pv: "prev_byte pre str i = Some p"
    using i ls cstr_nth [OF Suc.prems(1), of "i - 1"] Suc.prems(5)
    by (auto simp: prev_byte_def buf_get_def)
  have d: "drop i s = ?c # drop (Suc i) s" using i by (simp add: Cons_nth_drop_Suc)
  have IH: "squeeze_loop pre str (length s) (Suc i) j' buf' =
      Some (j' + length (squeeze ?c (drop (Suc i) s)),
        take j' buf' @ squeeze ?c (drop (Suc i) s) @ drop (j' + length (squeeze ?c (drop (Suc i) s))) buf')"
    if "j' \<le> Suc i" "length s < length buf'" for j' buf'
    using Suc.hyps(1) [of "Suc i" j' buf' ?c] that Suc.hyps(2) i Suc.prems(1) by simp
  show ?case
  proof (cases "?c = slash_char \<and> p = slash_char")
    case True
    then show ?thesis
      using i c pv d IH [of j buf] Suc.prems by (subst squeeze_loop.simps) simp
  next
    case False
    have j: "j < length buf" using Suc.prems i by simp
    have "squeeze_loop pre str (length s) i j buf
        = squeeze_loop pre str (length s) (Suc i) (Suc j) (buf[j := ?c])"
      using i c pv j False by (subst squeeze_loop.simps) (auto simp: buf_set_def)
    also have "\<dots> = Some (Suc j + length (squeeze ?c (drop (Suc i) s)),
        take j buf @ ?c # squeeze ?c (drop (Suc i) s) @
        drop (Suc (j + length (squeeze ?c (drop (Suc i) s)))) buf)"
      using IH [of "Suc j" "buf[j := ?c]"] Suc.prems j by (simp add: take_Suc_conv_app_nth)
    finally show ?thesis using False d by auto
  qed
qed

lemma count_slashes_result:
  assumes "cstr str = Some s" "i \<le> length s"
  shows "count_slashes str (length s) i n = Some (n + int (count_list (drop i s) slash_char))"
  using assms
proof (induction "length s - i" arbitrary: i n)
  case 0
  then show ?case by (subst count_slashes.simps) simp
next
  case (Suc k)
  then have i: "i < length s" by simp
  have "buf_get str i = Some (s ! i)"
    using i cstr_nth [OF Suc.prems(1) i] cstr_length [OF Suc.prems(1)] by (simp add: buf_get_def)
  moreover have "drop i s = s ! i # drop (Suc i) s" using i by (simp add: Cons_nth_drop_Suc)
  ultimately show ?case
    using Suc.hyps(1) [of "Suc i"] Suc.hyps(2) Suc.prems i
    by (subst count_slashes.simps) simp
qed

text \<open>Both final loops stop at the last slash; \<open>x\<close> is what precedes it from \<open>i\<close> on.\<close>

lemma cut_loop_result:
  assumes "drop i str = x @ slash_char # y" "slash = 1 + int (count_list x slash_char)"
  shows "cut_loop str i slash = Some (str[i + length x := NUL])"
  using assms
proof (induction x arbitrary: i slash)
  case Nil
  then have "i < length str" "str ! i = slash_char"
    using drop_eq_ConsD [of i str slash_char y] by simp_all
  with Nil.prems(2) show ?case by (subst cut_loop.simps) (simp add: buffer_simps)
next
  case (Cons c x)
  then have i: "i < length str" and "str ! i = c" "drop (Suc i) str = x @ slash_char # y"
    using drop_eq_ConsD [of i str c "x @ slash_char # y"] by simp_all
  with Cons.IH [of "Suc i"] Cons.prems(2) show ?case
    by (subst cut_loop.simps) (auto simp: buffer_simps)
qed

lemma copy_tail_result:
  assumes "i + length y = amount" "take (length y) (drop i str) = y" "amount \<le> length str"
    and "j + length y \<le> length filename"
  shows "copy_tail str amount i j filename =
    Some (take j filename @ y @ drop (j + length y) filename)"
  using assms
proof (induction y arbitrary: i j filename)
  case Nil
  then show ?case by (subst copy_tail.simps) simp
next
  case (Cons c y)
  then have i: "i < length str" "i < amount" and j: "j < length filename" by auto
  have "str ! i = c" "take (length y) (drop (Suc i) str) = y"
    using Cons.prems(2) i by (simp_all add: Cons_nth_drop_Suc [symmetric])
  then have "copy_tail str amount i j filename = copy_tail str amount (Suc i) (Suc j) (filename[j := c])"
    using i j by (subst copy_tail.simps) (simp add: buffer_simps)
  also have "\<dots> = Some (take (Suc j) (filename[j := c]) @ y @ drop (Suc j + length y) (filename[j := c]))"
    using Cons.prems \<open>take (length y) (drop (Suc i) str) = y\<close> by (intro Cons.IH) auto
  finally show ?case using j by (simp add: take_Suc_conv_app_nth)
qed

lemma copy_tail_overflow:
  assumes "i + length y = amount" "amount \<le> length str"
    and "length filename < j + length y" "j \<le> length filename"
  shows "copy_tail str amount i j filename = None"
  using assms
proof (induction y arbitrary: i j filename)
  case (Cons c y)
  then have i: "i < length str" "i < amount" by auto
  show ?case
  proof (cases "j < length filename")
    case True
    then show ?thesis using Cons.IH [of "Suc i" "filename[j := str ! i]" "Suc j"] Cons.prems i
      by (subst copy_tail.simps) (simp add: buffer_simps)
  next
    case False
    then show ?thesis using i by (subst copy_tail.simps) (simp add: buffer_simps)
  qed
qed (simp)

lemma base_loop_result:
  assumes "drop i str = x @ slash_char # y" "slash = 1 + int (count_list x slash_char)"
  shows "base_loop str amount i slash filename = copy_tail str amount (i + length x + 1) 0 filename"
  using assms
proof (induction x arbitrary: i slash)
  case Nil
  then have "i < length str" "str ! i = slash_char"
    using drop_eq_ConsD [of i str slash_char y] by simp_all
  with Nil.prems(2) show ?case by (subst base_loop.simps) (simp add: buffer_simps)
next
  case (Cons c x)
  then have i: "i < length str" and "str ! i = c" "drop (Suc i) str = x @ slash_char # y"
    using drop_eq_ConsD [of i str c "x @ slash_char # y"] by simp_all
  with Cons.IH [of "Suc i"] Cons.prems(2) show ?case
    by (subst base_loop.simps) (auto simp: buffer_simps)
qed


section \<open>Normal form of a path\<close>

lemma components_no_slash: "w \<in> set (components p) \<Longrightarrow> w \<noteq> [] \<and> slash_char \<notin> set w \<and> set w \<subseteq> set p"
  unfolding components_def
proof (induction "\<lambda>c. c = slash_char" p rule: tokens.induct)
  case (1 p)
  show ?case
  proof (cases "dropWhile (\<lambda>c. c = slash_char) p")
    case Nil
    with 1 show ?thesis by (simp add: tokens.simps [of _ p])
  next
    case (Cons c cs)
    have c: "c \<noteq> slash_char" using hd_dropWhile [of "\<lambda>c. c = slash_char" p] Cons by simp
    have sub: "set (c # cs) \<subseteq> set p" using Cons by (metis set_dropWhileD subsetI)
    from 1(2) Cons c consider "w = c # takeWhile (\<lambda>c. c \<noteq> slash_char) cs"
      | "w \<in> set (tokens (\<lambda>c. c = slash_char) (dropWhile (\<lambda>c. c \<noteq> slash_char) cs))"
      by (auto simp: tokens.simps [of _ p])
    then show ?thesis
    proof cases
      case 1
      then show ?thesis using c sub by (auto dest: set_takeWhileD)
    next
      case 2
      have "set (dropWhile (\<lambda>c. c \<noteq> slash_char) cs) \<subseteq> set p"
        using sub by (auto dest: set_dropWhileD)
      then show ?thesis using 1(1) [OF Cons] 2 c by auto
    qed
  qed
qed

lemma squeeze_skip: "squeeze slash_char p = squeeze slash_char (dropWhile (\<lambda>c. c = slash_char) p)"
  by (induction p) auto

lemma squeeze_other: "c \<noteq> slash_char \<Longrightarrow> squeeze p (c # cs) = c # squeeze c cs"
  by simp

lemma squeeze_word:
  "slash_char \<notin> set w \<Longrightarrow> squeeze p (w @ r) = w @ squeeze (last (p # w)) r"
  by (induction w arbitrary: p) auto

lemma squeeze_slash_form:
  "\<exists>e. squeeze slash_char p = join (components p) @ e \<and> (e = [] \<or> e = ''/'' \<and> components p \<noteq> [])"
  unfolding components_def
proof (induction "\<lambda>c. c = slash_char" p rule: tokens.induct)
  case (1 p)
  let ?tok = "tokens (\<lambda>c. c = slash_char)"
  show ?case
  proof (cases "dropWhile (\<lambda>c. c = slash_char) p")
    case Nil
    then have "squeeze slash_char p = []" using squeeze_skip [of p] by simp
    moreover have "?tok p = []" using Nil by (simp add: tokens_empty_iff)
    ultimately show ?thesis by simp
  next
    case (Cons c cs)
    let ?w = "takeWhile (\<lambda>c. c \<noteq> slash_char) (c # cs)"
    let ?u = "dropWhile (\<lambda>c. c \<noteq> slash_char) (c # cs)"
    have c: "c \<noteq> slash_char" using hd_dropWhile [of "\<lambda>c. c = slash_char" p] Cons by simp
    have w: "slash_char \<notin> set ?w" "?w \<noteq> []" using c by (auto dest: set_takeWhileD)
    have tk: "?tok p = ?w # ?tok ?u" using Cons c by (subst tokens.simps) simp
    have "squeeze slash_char p = squeeze slash_char (?w @ ?u)"
      using squeeze_skip [of p] Cons by simp
    then have sq: "squeeze slash_char p = ?w @ squeeze (last ?w) ?u"
      using squeeze_word [OF w(1), of slash_char ?u] w(2) by simp
    have lw: "last ?w \<noteq> slash_char" using w last_in_set by metis
    show ?thesis
    proof (cases ?u)
      case Nil
      with sq tk show ?thesis by simp
    next
      case u: (Cons d u')
      have "d = slash_char" using hd_dropWhile [of "\<lambda>c. c \<noteq> slash_char" "c # cs"] u by simp
      then have "squeeze (last ?w) ?u = slash_char # squeeze slash_char ?u" using u lw by simp
      moreover obtain e where e: "squeeze slash_char ?u = join (?tok ?u) @ e"
        "e = [] \<or> e = ''/'' \<and> ?tok ?u \<noteq> []" using 1 [OF Cons] c by auto
      ultimately have s: "squeeze slash_char p = ?w @ slash_char # join (?tok ?u) @ e" using sq by simp
      show ?thesis
      proof (cases "?tok ?u")
        case Nil
        with s e tk show ?thesis by simp
      next
        case (Cons v vs)
        with s e tk show ?thesis by simp
      qed
    qed
  qed
qed

lemma squeeze_form:
  assumes "p \<noteq> slash_char"
  shows "\<exists>e. squeeze p s = normal_path s @ e \<and> (e = [] \<or> e = ''/'' \<and> components s \<noteq> [])"
proof (cases s)
  case Nil
  then show ?thesis by (simp add: normal_path_def absolute_def components_def)
next
  case (Cons c cs)
  show ?thesis
  proof (cases "c = slash_char")
    case True
    have "components s = components cs"
      using Cons True by (simp add: components_def tokens_skip_delim)
    then show ?thesis
      using squeeze_slash_form [of cs] Cons True assms by (auto simp: normal_path_def absolute_def)
  next
    case False
    then have "squeeze p s = squeeze slash_char s" using Cons by simp
    then show ?thesis
      using squeeze_slash_form [of s] Cons False by (auto simp: normal_path_def absolute_def)
  qed
qed

lemma join_snoc: "ws \<noteq> [] \<Longrightarrow> join (ws @ [w]) = join ws @ slash_char # w"
  by (induction ws rule: join.induct) auto

lemma join_Nil_iff: "\<forall>w \<in> set ws. w \<noteq> [] \<Longrightarrow> join ws = [] \<longleftrightarrow> ws = []"
  by (induction ws rule: join.induct) auto

lemma set_join: "set (join ws) \<subseteq> insert slash_char (\<Union> (set ` set ws))"
  by (induction ws rule: join.induct) auto

lemma count_join:
  "\<forall>w \<in> set ws. slash_char \<notin> set w \<Longrightarrow> count_list (join ws) slash_char = length ws - 1"
  by (induction ws rule: join.induct) (auto simp: count_list_0_iff)

lemma components_split:
  assumes "components s \<noteq> []"
  obtains vs w where "components s = vs @ [w]" "w \<noteq> []" "slash_char \<notin> set w"
    "\<forall>v \<in> set vs. v \<noteq> [] \<and> slash_char \<notin> set v"
  using assms components_no_slash
  by (cases "components s" rule: rev_cases) (auto, metis Un_iff list.set_intros(1) set_append)

text \<open>The normal path in the shape the last loops see it: a prefix up to the last slash.\<close>

lemma normal_path_last:
  assumes "components s = vs @ [w]"
  shows "normal_path s = (if vs = [] \<and> \<not> absolute s then w
    else (if absolute s then ''/'' else []) @ (if vs = [] then [] else join vs @ ''/'') @ w)"
  using assms by (auto simp: normal_path_def join_snoc)

lemma last_normal_path:
  "normal_path s \<noteq> [] \<Longrightarrow> last (normal_path s) = slash_char \<longleftrightarrow> components s = []"
proof (cases "components s = []")
  case False
  then obtain vs w where c: "components s = vs @ [w]" and w: "w \<noteq> []" "slash_char \<notin> set w"
    by (rule components_split)
  have "last (normal_path s) = last w" using w(1) by (auto simp: normal_path_last [OF c])
  then show ?thesis using w False by (metis last_in_set)
qed (auto simp: normal_path_def split: if_splits)

lemma normal_path_Nil_iff: "normal_path s = [] \<longleftrightarrow> s = []"
proof
  assume n: "normal_path s = []"
  show "s = []"
  proof (cases s)
    case (Cons c cs)
    with n have "c \<noteq> slash_char" by (auto simp: normal_path_def absolute_def split: if_splits)
    then have "components s \<noteq> []" using Cons by (simp add: components_def tokens_empty_iff)
    then obtain vs w where c: "components s = vs @ [w]" and w: "w \<noteq> []" by (rule components_split)
    with n show ?thesis by (auto simp: normal_path_last [OF c] split: if_splits)
  qed
qed (simp add: normal_path_def absolute_def components_def)

lemma normal_path_no_NUL: "NUL \<notin> set s \<Longrightarrow> NUL \<notin> set (normal_path s)"
  using set_join [of "components s"] components_no_slash [of _ s]
  by (fastforce simp: normal_path_def)

section \<open>The normalising half\<close>

lemma cstr_cut:
  "cstr b = Some (u @ v) \<Longrightarrow> v \<noteq> [] \<Longrightarrow> cstr (b[length u := NUL]) = Some u"
  by (elim cstr_SomeE) (auto simp: neq_Nil_conv)

lemma prev_byte_end:
  "cstr str = Some t \<Longrightarrow> prev_byte pre str (length t) = Some (if t = [] then pre else last t)"
  using cstr_length [of str t] cstr_nth [of str t "length t - 1"]
  by (auto simp: prev_byte_def buf_get_def last_conv_nth)

lemma trim_slash_keep:
  "cstr str = Some t \<Longrightarrow> pre \<noteq> slash_char \<Longrightarrow> t = ''/'' \<or> t = [] \<or> last t \<noteq> slash_char \<Longrightarrow>
   trim_slash pre str = Some (str, length t)"
  using prev_byte_end [of str t pre] by (auto simp: trim_slash_def strlen_Some)

lemma trim_slash_cut:
  assumes "cstr str = Some (u @ ''/'')" "u \<noteq> []"
  shows "trim_slash pre str = Some (str[length u := NUL], length u)"
  using assms prev_byte_end [OF assms(1), of pre] cstr_length [OF assms(1)]
    cstr_cut [OF assms(1)]
  by (simp add: trim_slash_def strlen_Some buffer_simps)

text \<open>The second trim never fires: a string that still ends in a slash is \<open>"/"\<close> itself.\<close>

lemma late_trim_dead:
  "cstr str = Some t \<Longrightarrow> pre \<noteq> slash_char \<Longrightarrow> t = ''/'' \<or> t = [] \<or> last t \<noteq> slash_char \<Longrightarrow>
   late_trim pre str (length t) n = Some (str, length t, n)"
  using prev_byte_end [of str t pre] by (auto simp: late_trim_def strcmp_Some)

lemma normal_path_ends:
  "normal_path s = ''/'' \<or> normal_path s = [] \<or> last (normal_path s) \<noteq> slash_char"
  using last_normal_path [of s] by (auto simp: normal_path_def)

lemma trim_slash_squeeze:
  assumes str: "cstr str = Some (squeeze pre s)" and pre: "pre \<noteq> slash_char"
  shows "\<exists>str'. trim_slash pre str = Some (str', length (normal_path s)) \<and>
           cstr str' = Some (normal_path s) \<and> length str' = length str"
proof -
  obtain e where sq: "squeeze pre s = normal_path s @ e"
    and e: "e = [] \<or> e = ''/'' \<and> components s \<noteq> []" using squeeze_form [OF pre] by blast
  show ?thesis
  proof (cases "e = []")
    case True
    then show ?thesis using trim_slash_keep [OF str pre] sq str normal_path_ends [of s] by auto
  next
    case False
    then have e: "e = ''/''" and "components s \<noteq> []" using e by auto
    then have "normal_path s \<noteq> []" by (auto simp: normal_path_Nil_iff components_def)
    with trim_slash_cut [of str "normal_path s" pre] cstr_cut [of str "normal_path s" e] str sq e
    show ?thesis by auto
  qed
qed

lemma squeeze_pass:
  assumes "cstr str = Some s" "heap e (length (squeeze (before e) s)) = NUL"
  shows "\<exists>j buf. squeeze_loop (before e) str (length s) 0 0 (fresh_block (heap e) (length s + 1))
      = Some (j, buf) \<and> cstr buf = Some (squeeze (before e) s)"
proof -
  let ?q = "squeeze (before e) s" and ?b = "fresh_block (heap e) (length s + 1)"
  have l: "length ?q < length ?b" using length_squeeze [of "before e" s] by simp
  have n: "NUL \<notin> set ?q" using set_squeeze [of "before e" s] cstr_no_NUL [OF assms(1)] by auto
  have "drop (length ?q) ?b = NUL # drop (Suc (length ?q)) ?b"
    using l assms(2) by (simp add: Cons_nth_drop_Suc [symmetric])
  then have "cstr (?q @ drop (length ?q) ?b) = Some ?q" using n by simp
  then show ?thesis using squeeze_loop_result [OF assms(1), of 0 0 ?b "before e"] by simp
qed

lemma normalise_path_result:
  assumes p: "cstr pathname = Some s" and l: "length s < length string0"
    and pre: "before e \<noteq> slash_char"
    and h: "heap e (length (squeeze (before e) s)) = NUL"
  shows "\<exists>str. normalise_path e string0 pathname
      = Some (str, length (normal_path s), int (count_list (normal_path s) slash_char)) \<and>
      cstr str = Some (normal_path s) \<and> length str = length string0"
proof -
  let ?q = "squeeze (before e) s"
  obtain s1 where s1: "strcpy string0 pathname = Some s1" "cstr s1 = Some s" "length s1 = length string0"
    using strcpy_Some [OF p l] cstr_no_NUL [OF p] l by auto
  obtain j buf where b: "squeeze_loop (before e) s1 (length s) 0 0 (fresh_block (heap e) (length s + 1))
      = Some (j, buf)" "cstr buf = Some ?q"
    using squeeze_pass [where str = s1] s1(2) h by blast
  have "length ?q < length s1" using length_squeeze [of "before e" s] l s1(3) by simp
  then obtain s2 where s2: "strcpy s1 buf = Some s2" "cstr s2 = Some ?q" "length s2 = length s1"
    using strcpy_Some [OF b(2)] cstr_no_NUL [OF b(2)] by auto
  obtain s3 where s3: "trim_slash (before e) s2 = Some (s3, length (normal_path s))"
    "cstr s3 = Some (normal_path s)" "length s3 = length s2"
    using trim_slash_squeeze [OF s2(2) pre] by blast
  show ?thesis
    using s1 b s2 s3 count_slashes_result [OF s3(2), of 0 0]
      late_trim_dead [OF s3(2) pre normal_path_ends]
    by (simp add: normalise_path_def strlen_Some)
qed


section \<open>Correctness against the reference\<close>

lemma count_normal_path:
  assumes "components s = vs @ [w]"
  shows "count_list (normal_path s) slash_char = (if absolute s then 1 else 0) + length vs"
proof -
  have "\<forall>v \<in> set (components s). slash_char \<notin> set v" using components_no_slash by blast
  from count_join [OF this] show ?thesis using assms by (simp add: normal_path_def)
qed

lemma normal_path_root:
  "components s = [] \<Longrightarrow> normal_path s = (if absolute s then ''/'' else []) \<and> (absolute s \<longleftrightarrow> s \<noteq> [])"
  using normal_path_Nil_iff [of s] by (auto simp: normal_path_def split: if_splits)

text \<open>Up to and from the last slash of a normal path with more than one part.\<close>

lemma normal_path_cut:
  assumes c: "components s = vs @ [w]" and many: "absolute s \<or> vs \<noteq> []"
  defines "x \<equiv> (if absolute s \<and> vs \<noteq> [] then ''/'' else []) @ join vs"
  shows "normal_path s = x @ slash_char # w"
    and "int (count_list (normal_path s) slash_char) = 1 + int (count_list x slash_char)"
proof -
  show n: "normal_path s = x @ slash_char # w"
    using many by (auto simp: normal_path_last [OF c] x_def)
  have "slash_char \<notin> set w" using components_no_slash [of w s] c by simp
  then show "int (count_list (normal_path s) slash_char) = 1 + int (count_list x slash_char)"
    by (simp add: n count_list_0_iff)
qed

lemma first_byte:
  "cstr str = Some t \<Longrightarrow> buf_get str 0 = Some (if t = [] then NUL else hd t)"
  by (elim cstr_SomeE) (auto simp: buf_get_def neq_Nil_conv nth_append)

lemma strcpy_literal:
  assumes "NUL \<notin> set lit" "length lit < length str"
  shows "\<exists>str'. strcpy str (lit @ [NUL]) = Some str' \<and> cstr str' = Some lit \<and> length str' = length str"
  using assms strcpy_Some [of "lit @ [NUL]" lit str] by simp

lemma dirname_ref_cut:
  assumes "components s = vs @ [w]"
  shows "dirname_ref s = (if vs = [] then (if absolute s then ''/'' else ''.'')
    else (if absolute s then ''/'' else []) @ join vs)"
  using assms by (simp add: dirname_ref_def Let_def)

lemma dirn_string_result:
  assumes p: "cstr pathname = Some s" and l: "length s < length string0" "1 < length string0"
    and pre: "before e \<noteq> slash_char"
    and h: "heap e (length (squeeze (before e) s)) = NUL"
  shows "\<exists>str. dirn_string e string0 pathname = Some str \<and> cstr str = Some (dirname_ref s) \<and>
           length str = length string0"
proof -
  let ?N = "normal_path s"
  obtain str where np: "normalise_path e string0 pathname = Some (str, length ?N, int (count_list ?N slash_char))"
    and str: "cstr str = Some ?N" "length str = length string0"
    using normalise_path_result [OF p l(1) pre h] by blast
  note unf = dirn_string_def np bind.simps prod.case strcmp_Some [OF str(1)] first_byte [OF str(1)] Let_def
  have n0: "NUL \<notin> set ?N" using str(1) by (rule cstr_no_NUL)
  have lit: "\<exists>str'. strcpy str (lit @ [NUL]) = Some str' \<and> cstr str' = Some lit \<and> length str' = length string0"
    if "lit = ''/'' \<or> lit = ''.''" for lit
    using strcpy_literal [of lit str] that l(2) str(2) by auto
  show ?thesis
  proof (cases "components s = []")
    case True
    then show ?thesis using normal_path_root [OF True] lit [of "''/''"] lit [of "''.''"]
      by (auto simp: unf dirname_ref_def)
  next
    case False
    then obtain vs w where c: "components s = vs @ [w]" and w: "w \<noteq> []" "slash_char \<notin> set w"
      by (rule components_split)
    have hw: "hd w \<noteq> slash_char" using w hd_in_set by metis
    have root: "?N \<noteq> ''/''" using w by (auto simp: normal_path_last [OF c] append_eq_Cons_conv split: if_splits)
    have hd: "?N \<noteq> [] \<and> (absolute s \<longrightarrow> hd ?N = slash_char)"
      "vs = [] \<Longrightarrow> \<not> absolute s \<Longrightarrow> hd ?N \<noteq> slash_char"
      using w hw by (auto simp: normal_path_last [OF c])
    show ?thesis
    proof (cases "vs = []")
      case True
      then show ?thesis
        using lit [of "''/''"] lit [of "''.''"] root hd n0 count_normal_path [OF c]
        by (auto simp: unf strcmp_str_eq_0 dirname_ref_cut [OF c])
    next
      case vs: False
      define x where "x = (if absolute s \<and> vs \<noteq> [] then ''/'' else []) @ join vs"
      have nx: "?N = x @ slash_char # w" "int (count_list ?N slash_char) = 1 + int (count_list x slash_char)"
        using normal_path_cut [OF c] vs unfolding x_def by blast+
      have "\<forall>v \<in> set vs. v \<noteq> []" using components_no_slash [of _ s] c by auto
      then have v: "join vs \<noteq> []" using vs by (simp add: join_Nil_iff)
      have up: "?N \<noteq> ''..''" using nx(1) by (auto simp: append_eq_Cons_conv Cons_eq_append_conv)
      have cnt: "count_list ?N slash_char = 1 \<Longrightarrow> \<not> absolute s \<and> hd ?N \<noteq> slash_char"
      proof -
        assume 1: "count_list ?N slash_char = 1"
        then have "\<not> absolute s" "slash_char \<notin> set x"
          using count_normal_path [OF c] vs nx(2) by (auto simp: count_list_0_iff split: if_splits)
        moreover from this have "hd (join vs) \<noteq> slash_char"
          using hd_in_set [OF v] unfolding x_def by (metis append_Nil)
        ultimately show ?thesis using nx(1) v by (auto simp: x_def)
      qed
      obtain r where r: "str = ?N @ NUL # r" using str(1) by (rule cstr_SomeE)
      have "cut_loop str 0 (int (count_list ?N slash_char)) = Some (str[0 + length x := NUL])"
        by (rule cut_loop_result [where y = "w @ NUL # r"]) (use r nx in simp_all)
      moreover have "cstr (str[length x := NUL]) = Some x"
        by (rule cstr_cut [of _ x "slash_char # w"]) (use str(1) nx(1) in simp_all)
      moreover have "dirname_ref s = x" using vs by (auto simp: dirname_ref_cut [OF c] x_def)
      moreover have "count_list ?N slash_char \<noteq> 0" using nx(2) by simp
      ultimately show ?thesis
        using root up cnt n0 str(2) hd by (auto simp: unf strcmp_str_eq_0)
    qed
  qed
qed

text \<open>\<open>basen\<close> copies the last component into \<open>filename\<close> if a slash precedes it.\<close>

definition copied :: "string \<Rightarrow> bool" where
  "copied s \<longleftrightarrow> components s \<noteq> [] \<and> (absolute s \<or> 1 < length (components s))"

lemma basen_string_result:
  assumes p: "cstr pathname = Some s" and l: "length s < length string0" "1 < length string0"
    and pre: "before e \<noteq> slash_char"
    and h: "heap e (length (squeeze (before e) s)) = NUL"
    and cp: "copied s \<Longrightarrow> length (basename_ref s) < 255 \<and> stack e (length (basename_ref s)) = NUL"
  shows "\<exists>str. basen_string e string0 pathname = Some str \<and> cstr str = Some (basename_ref s) \<and>
           length str = length string0"
proof -
  let ?N = "normal_path s"
  obtain str where np: "normalise_path e string0 pathname = Some (str, length ?N, int (count_list ?N slash_char))"
    and str: "cstr str = Some ?N" "length str = length string0"
    using normalise_path_result [OF p l(1) pre h] by blast
  note unf = basen_string_def np bind.simps prod.case strcmp_Some [OF str(1)] Let_def
  have n0: "NUL \<notin> set ?N" using str(1) by (rule cstr_no_NUL)
  show ?thesis
  proof (cases "components s = []")
    case True
    then show ?thesis
      using normal_path_root [OF True] strcpy_literal [of "''.''" str] l(2) str
      by (auto simp: unf basename_ref_def)
  next
    case False
    then obtain vs w where c: "components s = vs @ [w]" and w: "w \<noteq> []" "slash_char \<notin> set w"
      by (rule components_split)
    have s: "s \<noteq> []" using c by (auto simp: components_def)
    have bw: "basename_ref s = w" using c s by (simp add: basename_ref_def)
    have ne: "?N \<noteq> []" using s by (simp add: normal_path_Nil_iff)
    show ?thesis
    proof (cases "absolute s \<or> vs \<noteq> []")
      case False
      then show ?thesis using str ne bw count_normal_path [OF c]
        by (simp add: unf normal_path_last [OF c])
    next
      case many: True
      then have b: "length (basename_ref s) < 255" and st: "stack e (length (basename_ref s)) = NUL"
        using cp c by (auto simp: copied_def)
      define x where "x = (if absolute s \<and> vs \<noteq> [] then ''/'' else []) @ join vs"
      have nx: "?N = x @ slash_char # w" "int (count_list ?N slash_char) = 1 + int (count_list x slash_char)"
        using normal_path_cut [OF c many] unfolding x_def by blast+
      have lits: "?N \<noteq> ''/''" "?N \<noteq> ''.''" "?N \<noteq> ''..''"
      proof -
        have "slash_char \<in> set ?N" "length ?N \<noteq> 1" using nx(1) w(1) by auto
        then show "?N \<noteq> ''/''" "?N \<noteq> ''.''" "?N \<noteq> ''..''" by auto
      qed
      obtain r where r: "str = ?N @ NUL # r" using str(1) by (rule cstr_SomeE)
      let ?f = "fresh_block (stack e) 255"
      have "base_loop str (length ?N) 0 (int (count_list ?N slash_char)) ?f
          = copy_tail str (length ?N) (0 + length x + 1) 0 ?f"
        by (rule base_loop_result [where y = "w @ NUL # r"]) (use r nx in simp_all)
      also have "\<dots> = Some (take 0 ?f @ w @ drop (0 + length w) ?f)"
        by (rule copy_tail_result) (use r nx b bw in simp_all)
      finally have bl: "base_loop str (length ?N) 0 (int (count_list ?N slash_char)) ?f
          = Some (w @ drop (length w) ?f)" by simp
      have "drop (length w) ?f = NUL # drop (Suc (length w)) ?f"
        using b st bw by (simp add: Cons_nth_drop_Suc [symmetric])
      moreover have "NUL \<notin> set w" using n0 nx(1) by simp
      ultimately have f: "cstr (w @ drop (length w) ?f) = Some w" by simp
      have "length w < length str" using cstr_length [OF str(1)] nx(1) by simp
      from strcpy_Some [OF f this] obtain str' where
        "strcpy str (w @ drop (length w) ?f) = Some str'" "cstr str' = Some w" "length str' = length str"
        using \<open>NUL \<notin> set w\<close> \<open>length w < length str\<close> by auto
      then show ?thesis
        using bl lits n0 str(2) ne nx(2) bw by (auto simp: unf strcmp_str_eq_0)
    qed
  qed
qed

text \<open>A component of 255 bytes or more leaves the array or fills it without a zero byte.\<close>

lemma basen_string_overflow:
  assumes p: "cstr pathname = Some s" and l: "length s < length string0"
    and pre: "before e \<noteq> slash_char"
    and h: "heap e (length (squeeze (before e) s)) = NUL"
    and cp: "copied s" "255 \<le> length (basename_ref s)"
  shows "basen_string e string0 pathname = None"
proof -
  let ?N = "normal_path s" and ?f = "fresh_block (stack e) 255"
  obtain str where np: "normalise_path e string0 pathname = Some (str, length ?N, int (count_list ?N slash_char))"
    and str: "cstr str = Some ?N" "length str = length string0"
    using normalise_path_result [OF p l pre h] by blast
  note unf = basen_string_def np bind.simps prod.case strcmp_Some [OF str(1)] Let_def
  have n0: "NUL \<notin> set ?N" using str(1) by (rule cstr_no_NUL)
  obtain vs w where c: "components s = vs @ [w]" and w: "w \<noteq> []" "slash_char \<notin> set w"
    using cp(1) components_split unfolding copied_def by metis
  have s: "s \<noteq> []" using c by (auto simp: components_def)
  have bw: "255 \<le> length w" using c s cp(2) by (simp add: basename_ref_def)
  have many: "absolute s \<or> vs \<noteq> []" using cp(1) c by (auto simp: copied_def)
  define x where "x = (if absolute s \<and> vs \<noteq> [] then ''/'' else []) @ join vs"
  have nx: "?N = x @ slash_char # w" "int (count_list ?N slash_char) = 1 + int (count_list x slash_char)"
    using normal_path_cut [OF c many] unfolding x_def by blast+
  have lits: "?N \<noteq> []" "?N \<noteq> ''/''" "?N \<noteq> ''.''" "?N \<noteq> ''..''"
    using nx(1) bw by (auto simp: append_eq_Cons_conv Cons_eq_append_conv)
  obtain r where r: "str = ?N @ NUL # r" using str(1) by (rule cstr_SomeE)
  have bl: "base_loop str (length ?N) 0 (int (count_list ?N slash_char)) ?f
      = copy_tail str (length ?N) (0 + length x + 1) 0 ?f"
    by (rule base_loop_result [where y = "w @ NUL # r"]) (use r nx in simp_all)
  have "copy_tail str (length ?N) (0 + length x + 1) 0 ?f = None \<or>
      (\<exists>b. copy_tail str (length ?N) (0 + length x + 1) 0 ?f = Some b \<and> strcpy str b = None)"
  proof (cases "length w = 255")
    case True
    have "copy_tail str (length ?N) (0 + length x + 1) 0 ?f = Some (take 0 ?f @ w @ drop (0 + length w) ?f)"
      by (rule copy_tail_result) (use r nx True in simp_all)
    moreover have "NUL \<notin> set w" using n0 nx(1) by simp
    ultimately show ?thesis using True by (simp add: strcpy_def)
  next
    case False
    then have "copy_tail str (length ?N) (0 + length x + 1) 0 ?f = None"
      using bw by (intro copy_tail_overflow [where y = w]) (use r nx in simp_all)
    then show ?thesis by blast
  qed
  then show ?thesis using bl lits nx(2) n0 by (auto simp: unf strcmp_str_eq_0)
qed

section \<open>The per-thread block\<close>

definition tsd_ok :: "tsd \<Rightarrow> bool" where
  "tsd_ok \<sigma> \<longleftrightarrow> (\<forall>t b. key_created \<sigma> \<longrightarrow> slot \<sigma> t = Some b \<longrightarrow> length b = 4096) \<and>
     (\<not> key_created \<sigma> \<longrightarrow> (\<forall>t. slot \<sigma> t = None))"

definition no_tsd :: tsd where
  "no_tsd = \<lparr>key_created = False, slot = (\<lambda>_. None)\<rparr>"

text \<open>
  The contract of a function that returns its result in a per-thread block: under its
  precondition a call succeeds, leaves its value in the caller's block and touches no
  other thread's block.
\<close>

locale per_thread =
  fixes call :: "nat \<Rightarrow> 'a \<Rightarrow> tsd \<Rightarrow> tsd option"
    and pre :: "'a \<Rightarrow> bool"
    and result :: "'a \<Rightarrow> string"
  assumes call_ok: "pre a \<Longrightarrow> tsd_ok \<sigma> \<Longrightarrow>
    \<exists>\<sigma>' b. call t a \<sigma> = Some \<sigma>' \<and> tsd_ok \<sigma>' \<and> slot \<sigma>' t = Some b \<and> cstr b = Some (result a) \<and>
           (\<forall>u. u \<noteq> t \<longrightarrow> slot \<sigma>' u = slot \<sigma> u)"
begin

text \<open>After any sequence of calls by any threads, each thread finds its own last result.\<close>

lemma interleaved_calls:
  assumes "\<forall>(t, a) \<in> set cs. pre a" "tsd_ok \<sigma>"
  shows "\<exists>\<sigma>'. fold_opt (\<lambda>(t, a). call t a) cs \<sigma> = Some \<sigma>' \<and> tsd_ok \<sigma>' \<and>
    (\<forall>t. case map_of (rev cs) t of
           None \<Rightarrow> slot \<sigma>' t = slot \<sigma> t
         | Some a \<Rightarrow> (\<exists>b. slot \<sigma>' t = Some b \<and> cstr b = Some (result a)))"
  using assms
proof (induction cs arbitrary: \<sigma>)
  case Nil
  then show ?case by simp
next
  case (Cons c cs)
  obtain t a where c: "c = (t, a)" by fastforce
  obtain \<sigma>1 b where 1: "call t a \<sigma> = Some \<sigma>1" "tsd_ok \<sigma>1" "slot \<sigma>1 t = Some b"
    "cstr b = Some (result a)" "\<forall>u. u \<noteq> t \<longrightarrow> slot \<sigma>1 u = slot \<sigma> u"
    using call_ok [of a \<sigma> t] Cons.prems c by auto
  obtain \<sigma>' where 2: "fold_opt (\<lambda>(t, a). call t a) cs \<sigma>1 = Some \<sigma>'" "tsd_ok \<sigma>'"
    and m: "\<And>t. case map_of (rev cs) t of None \<Rightarrow> slot \<sigma>' t = slot \<sigma>1 t
      | Some a \<Rightarrow> (\<exists>b. slot \<sigma>' t = Some b \<and> cstr b = Some (result a))"
    using Cons.IH [of \<sigma>1] Cons.prems 1(2) by auto
  have "case map_of (rev (c # cs)) u of None \<Rightarrow> slot \<sigma>' u = slot \<sigma> u
      | Some a \<Rightarrow> (\<exists>b. slot \<sigma>' u = Some b \<and> cstr b = Some (result a))" for u
    using m [of u] 1 c by (auto simp: map_add_def split: option.splits)
  then show ?case using 1(1) 2 c by auto
qed

end

text \<open>A call site: the unwritten bytes, the page behind a new block, and the argument.\<close>

type_synonym path_call = "path_env \<times> (nat \<Rightarrow> char) \<times> buffer"

definition path_of :: "path_call \<Rightarrow> string" where
  "path_of = (\<lambda>(e, page, p). case cstr p of None \<Rightarrow> [] | Some s \<Rightarrow> s)"

text \<open>Enough for \<open>dirn\<close>: a path that fits, no slash before the block, and a zero byte
  where the heap buffer should have been terminated.\<close>

definition dirn_pre :: "path_call \<Rightarrow> bool" where
  "dirn_pre = (\<lambda>(e, page, p).
     (case cstr p of None \<Rightarrow> False
      | Some s \<Rightarrow> length s < 4096 \<and> before e \<noteq> slash_char \<and>
                  heap e (length (squeeze (before e) s)) = NUL))"

text \<open>For \<open>basen\<close> also a last component that, if it is copied, fits \<open>filename\<close>, and a zero
  byte after it.\<close>

definition basen_pre :: "path_call \<Rightarrow> bool" where
  "basen_pre = (\<lambda>(e, page, p). dirn_pre (e, page, p) \<and>
     (copied (path_of (e, page, p)) \<longrightarrow>
       (let n = length (basename_ref (path_of (e, page, p))) in n < 255 \<and> stack e n = NUL)))"

lemma with_slot_result:
  assumes "tsd_ok \<sigma>"
    and "\<And>s0. length s0 = 4096 \<Longrightarrow> \<exists>b. body s0 = Some b \<and> cstr b = Some v \<and> length b = length s0"
  shows "\<exists>\<sigma>' b. with_slot page body t \<sigma> = Some \<sigma>' \<and> tsd_ok \<sigma>' \<and> slot \<sigma>' t = Some b \<and>
           cstr b = Some v \<and> (\<forall>u. u \<noteq> t \<longrightarrow> slot \<sigma>' u = slot \<sigma> u)"
proof -
  define s0 where "s0 = (case (if key_created \<sigma> then slot \<sigma> t else None) of
    None \<Rightarrow> fresh_block page 4096 | Some b \<Rightarrow> b)"
  have l: "length s0 = 4096"
    using assms(1) by (auto simp: s0_def tsd_ok_def split: option.splits if_splits)
  from assms(2) [OF this] obtain b where "body s0 = Some b" "cstr b = Some v" "length b = 4096"
    using l by auto
  then show ?thesis using assms(1)
    by (auto simp: with_slot_def s0_def [symmetric] Let_def tsd_ok_def)
qed

interpretation dirn_calls: per_thread "\<lambda>t (e, page, p). dirn e page t p" dirn_pre
  "\<lambda>a. dirname_ref (path_of a)"
proof
  fix a :: path_call and \<sigma> t
  assume pre: "dirn_pre a" and ok: "tsd_ok \<sigma>"
  obtain e page p where a: "a = (e, page, p)" by (cases a)
  from pre obtain s where s: "cstr p = Some s" "length s < 4096" "before e \<noteq> slash_char"
    "heap e (length (squeeze (before e) s)) = NUL"
    by (auto simp: a dirn_pre_def split: option.splits)
  show "\<exists>\<sigma>' b. (case a of (e, page, p) \<Rightarrow> dirn e page t p) \<sigma> = Some \<sigma>' \<and> tsd_ok \<sigma>' \<and>
      slot \<sigma>' t = Some b \<and> cstr b = Some (dirname_ref (path_of a)) \<and>
      (\<forall>u. u \<noteq> t \<longrightarrow> slot \<sigma>' u = slot \<sigma> u)"
    unfolding a prod.case dirn_def
  proof (rule with_slot_result [OF ok])
    fix s0 :: buffer
    assume "length s0 = 4096"
    then show "\<exists>b. dirn_string e s0 p = Some b \<and> cstr b = Some (dirname_ref (path_of (e, page, p))) \<and>
        length b = length s0"
      using dirn_string_result [OF s(1), of s0 e] s by (simp add: path_of_def)
  qed
qed

interpretation basen_calls: per_thread "\<lambda>t (e, page, p). basen e page t p" basen_pre
  "\<lambda>a. basename_ref (path_of a)"
proof
  fix a :: path_call and \<sigma> t
  assume pre: "basen_pre a" and ok: "tsd_ok \<sigma>"
  obtain e page p where a: "a = (e, page, p)" by (cases a)
  from pre obtain s where s: "cstr p = Some s" "length s < 4096" "before e \<noteq> slash_char"
    "heap e (length (squeeze (before e) s)) = NUL"
    "copied s \<Longrightarrow> length (basename_ref s) < 255 \<and> stack e (length (basename_ref s)) = NUL"
    by (auto simp: a basen_pre_def dirn_pre_def path_of_def Let_def split: option.splits)
  show "\<exists>\<sigma>' b. (case a of (e, page, p) \<Rightarrow> basen e page t p) \<sigma> = Some \<sigma>' \<and> tsd_ok \<sigma>' \<and>
      slot \<sigma>' t = Some b \<and> cstr b = Some (basename_ref (path_of a)) \<and>
      (\<forall>u. u \<noteq> t \<longrightarrow> slot \<sigma>' u = slot \<sigma> u)"
    unfolding a prod.case basen_def
  proof (rule with_slot_result [OF ok])
    fix s0 :: buffer
    assume "length s0 = 4096"
    then show "\<exists>b. basen_string e s0 p = Some b \<and> cstr b = Some (basename_ref (path_of (e, page, p))) \<and>
        length b = length s0"
      using basen_string_result [OF s(1), of s0 e] s by (simp add: path_of_def)
  qed
qed

section \<open>Where the unwritten bytes show\<close>

lemma squeeze_loop_garbage:
  assumes "cstr str = Some s" "\<forall>i \<le> length s. heap e i \<noteq> NUL"
  shows "\<exists>j buf. squeeze_loop (before e) str (length s) 0 0 (fresh_block (heap e) (length s + 1))
      = Some (j, buf) \<and> NUL \<notin> set buf"
proof -
  let ?b = "fresh_block (heap e) (length s + 1)" and ?q = "squeeze (before e) s"
  have "heap e i \<noteq> NUL" if "i < length s + 1" for i using assms(2) that by simp
  then have "NUL \<notin> set ?b" by (auto simp: in_set_conv_nth simp del: add_Suc_right)
  moreover have "NUL \<notin> set ?q"
    using set_squeeze [of "before e" s] cstr_no_NUL [OF assms(1)] by auto
  ultimately show ?thesis
    using squeeze_loop_result [OF assms(1), of 0 0 ?b "before e"] by (auto dest: in_set_dropD)
qed

lemma normalise_path_garbage:
  assumes "cstr pathname = Some s" "\<forall>i \<le> length s. heap e i \<noteq> NUL"
  shows "normalise_path e string0 pathname = None"
proof (cases "strcpy string0 pathname")
  case (Some s1)
  then have s1: "cstr s1 = Some s" using strcpy_result [OF Some] assms(1) by simp
  from squeeze_loop_garbage [OF this assms(2)] show ?thesis
    using Some s1 by (auto simp: normalise_path_def strlen_Some strcpy_def)
qed (simp add: normalise_path_def)


section \<open>Properties\<close>

text \<open>
  C1.  \<open>dirn\<close>: for every path of fewer than 4096 bytes, if the byte before the thread's
  block is no slash and the heap buffer is zero where it should have been terminated, a
  call stays inside its buffers and leaves the POSIX directory name in the caller's
  block, whatever the block held before.
\<close>

theorem dirn_correct:
  assumes "cstr pathname = Some s" "length s < 4096" "before e \<noteq> slash_char"
    and "heap e (length (squeeze (before e) s)) = NUL" "tsd_ok \<sigma>"
  shows "\<exists>\<sigma>' b. dirn e page t pathname \<sigma> = Some \<sigma>' \<and> slot \<sigma>' t = Some b \<and>
    cstr b = Some (dirname_ref s)"
  using dirn_calls.call_ok [of "(e, page, pathname)" \<sigma> t] assms
  by (auto simp: dirn_pre_def path_of_def)

definition zero_env :: path_env where
  "zero_env = \<lparr>before = NUL, heap = (\<lambda>_. NUL), stack = (\<lambda>_. NUL)\<rparr>"

lemma no_tsd_ok: "tsd_ok no_tsd"
  by (simp add: tsd_ok_def no_tsd_def)

text \<open>The end of one thread frees its block only; the next call of a thread with the same
  number starts from a fresh block again.\<close>

lemma destructor_ok:
  assumes "tsd_ok \<sigma>"
  shows "tsd_ok (destructor t \<sigma>) \<and> slot (destructor t \<sigma>) t = None \<and>
    (\<forall>u. u \<noteq> t \<longrightarrow> slot (destructor t \<sigma>) u = slot \<sigma> u) \<and>
    with_slot page body t (destructor t \<sigma>) =
      map_option (\<lambda>b. \<sigma>\<lparr>key_created := True, slot := (slot \<sigma>)(t := Some b)\<rparr>) (body (fresh_block page 4096))"
  using assms by (cases "body (fresh_block page 4096)") (auto simp: tsd_ok_def destructor_def with_slot_def)

lemma dirname_ref_example: "dirname_ref ''/usr//lib/'' = ''/usr''"
  by code_simp

theorem dirn_correct_witness:
  "\<exists>\<sigma>' b. dirn zero_env (\<lambda>_. CHR ''x'') 7 (''/usr//lib/'' @ [NUL]) no_tsd = Some \<sigma>' \<and>
    slot \<sigma>' 7 = Some b \<and> cstr b = Some ''/usr''"
  by (rule dirn_correct [of "''/usr//lib/'' @ [NUL]" "''/usr//lib/''" zero_env no_tsd,
        unfolded dirname_ref_example])
    (simp_all add: no_tsd_ok zero_env_def cstr_Cons)

text \<open>
  C2.  \<open>basen\<close>: for every path of fewer than 4096 bytes, if the byte before the thread's block
  is no slash, the heap buffer is zero where it should have been terminated and \<open>filename\<close> is
  zero right after what is copied into it: a call leaves the POSIX base name in the caller's block,
  unless the last component has 255 bytes or more and a slash precedes it; exactly then it
  overruns \<open>filename[255]\<close>.
\<close>

theorem basen_correct:
  assumes "cstr pathname = Some s" "length s < 4096" "before e \<noteq> slash_char"
    and "heap e (length (squeeze (before e) s)) = NUL"
    and "copied s \<and> length (basename_ref s) < 255 \<longrightarrow> stack e (length (basename_ref s)) = NUL" "tsd_ok \<sigma>"
  shows "if copied s \<and> 255 \<le> length (basename_ref s)
    then basen e page t pathname \<sigma> = None
    else (\<exists>\<sigma>' b. basen e page t pathname \<sigma> = Some \<sigma>' \<and> slot \<sigma>' t = Some b \<and> cstr b = Some (basename_ref s))"
proof (cases "copied s \<and> 255 \<le> length (basename_ref s)")
  case True
  have "basen_string e b pathname = None" if "length b = 4096" for b
    using basen_string_overflow [OF assms(1) _ assms(3,4)] assms(2) True that by simp
  moreover have "length (case (if key_created \<sigma> then slot \<sigma> t else None) of None \<Rightarrow> fresh_block page 4096 | Some b \<Rightarrow> b) = 4096"
    using assms(6) by (auto simp: tsd_ok_def split: option.splits)
  ultimately show ?thesis using True by (simp add: basen_def with_slot_def Let_def)
next
  case False
  then show ?thesis
    using basen_calls.call_ok [of "(e, page, pathname)" \<sigma> t] assms
    by (auto simp: basen_pre_def dirn_pre_def path_of_def Let_def)
qed

lemma basename_ref_example: "basename_ref ''/usr//lib/'' = ''lib''"
  by code_simp

lemma long_component:
  "copied (''/'' @ replicate 255 CHR ''x'')" "basename_ref (''/'' @ replicate 255 CHR ''x'') = replicate 255 CHR ''x''"
  by code_simp+

theorem basen_correct_witness:
  "(\<exists>\<sigma>' b. basen zero_env (\<lambda>_. CHR ''x'') 7 (''/usr//lib/'' @ [NUL]) no_tsd = Some \<sigma>' \<and>
     slot \<sigma>' 7 = Some b \<and> cstr b = Some ''lib'') \<and>
   basen zero_env (\<lambda>_. CHR ''x'') 7 ((''/'' @ replicate 255 CHR ''x'') @ [NUL]) no_tsd = None"
proof
  show "\<exists>\<sigma>' b. basen zero_env (\<lambda>_. CHR ''x'') 7 (''/usr//lib/'' @ [NUL]) no_tsd = Some \<sigma>' \<and>
      slot \<sigma>' 7 = Some b \<and> cstr b = Some ''lib''"
    using basen_correct [of "''/usr//lib/'' @ [NUL]" "''/usr//lib/''" zero_env no_tsd "\<lambda>_. CHR ''x''" 7, unfolded basename_ref_example]
    by (simp add: no_tsd_ok zero_env_def cstr_Cons)
next
  let ?s = "''/'' @ replicate 255 CHR ''x''"
  have "cstr (?s @ [NUL]) = Some ?s" by (rule cstr_append) simp
  moreover have "heap zero_env n = NUL" "stack zero_env n = NUL" "before zero_env \<noteq> slash_char" for n by (simp_all add: zero_env_def)
  moreover have "length ?s < 4096" by simp
  ultimately have r: "if copied ?s \<and> 255 \<le> length (basename_ref ?s) then basen zero_env (\<lambda>_. CHR ''x'') 7 (?s @ [NUL]) no_tsd = None
      else (\<exists>\<sigma>' b. basen zero_env (\<lambda>_. CHR ''x'') 7 (?s @ [NUL]) no_tsd = Some \<sigma>' \<and> slot \<sigma>' 7 = Some b \<and>
        cstr b = Some (basename_ref ?s))"
    using no_tsd_ok by (intro basen_correct) blast+
  have "copied ?s \<and> 255 \<le> length (basename_ref ?s)"
    by (rule conjI, rule long_component) (simp only: long_component length_replicate)
  with r show "basen zero_env (\<lambda>_. CHR ''x'') 7 (?s @ [NUL]) no_tsd = None" by (simp only: if_True)
qed

text \<open>
  C3.  The heap buffer of \<open>basen\<close> and \<open>dirn\<close> is never zero-terminated by the code: if
  the block \<open>malloc\<close> returns holds no zero byte in its first \<open>strlen + 1\<close> bytes, the
  following \<open>strcpy\<close> reads past it, for every argument.
\<close>

theorem unterminated_heap_buffer:
  assumes "cstr pathname = Some s" "\<forall>i \<le> length s. heap e i \<noteq> NUL"
  shows "dirn e page t pathname \<sigma> = None \<and> basen e page t pathname \<sigma> = None"
  using normalise_path_garbage [OF assms]
  by (simp add: dirn_def basen_def with_slot_def dirn_string_def basen_string_def)

theorem unterminated_heap_buffer_witness:
  "dirn (zero_env\<lparr>heap := (\<lambda>_. CHR ''x'')\<rparr>) (\<lambda>_. NUL) 0 (''a/b'' @ [NUL]) no_tsd = None \<and>
   basen (zero_env\<lparr>heap := (\<lambda>_. CHR ''x'')\<rparr>) (\<lambda>_. NUL) 0 (''a/b'' @ [NUL]) no_tsd = None"
  using unterminated_heap_buffer [of "''a/b'' @ [NUL]" "''a/b''"
    "zero_env\<lparr>heap := (\<lambda>_. CHR ''x'')\<rparr>" "\<lambda>_. NUL" 0 no_tsd]
  by (simp add: cstr_Cons)





end
