(* ===== verification/Shop.thy ===== *)
theory Shop
  imports Prelude
begin

text \<open>
  \<open>C/threads_shop\<close>: five stores with a mutex each, a loader thread and three customer
  threads.  A state holds the shared memory (\<open>store\<close>, \<open>mutex\<close>, the counter \<open>sum\<close> of
  finished customers) and, per thread, the statement it is about to execute; a step
  executes one statement of one thread.  \<open>(*param)++\<close> runs outside any mutex and is
  therefore two steps, a read and a write.  \<open>sleep\<close> only delays a thread and has no step
  of its own.  The amounts of \<open>shop_act\<close> are mathematical integers; \<open>shop_act32\<close> is the
  program with its 32-bit \<open>int\<close>, where a statement whose result does not fit is undefined, and
  the two are proved to agree for the first 21 million statements of the loader, which
  sleeps for a second in every round of five.
\<close>

section \<open>random_number.c\<close>

text \<open>\<open>r\<close> is the value of \<open>rand()\<close>, which is never negative.\<close>

definition random_number :: "nat \<Rightarrow> int \<Rightarrow> int \<Rightarrow> int" where
  "random_number r a b = a + int r mod (b - a + 1)"

lemma random_number_range:
  "a \<le> b \<Longrightarrow> a \<le> random_number r a b \<and> random_number r a b \<le> b"
  using pos_mod_bound [of "b - a + 1" "int r"] pos_mod_sign [of "b - a + 1" "int r"]
  by (simp add: random_number_def)

lemma random_number_onto:
  "a \<le> x \<Longrightarrow> x \<le> b \<Longrightarrow> \<exists>r. random_number r a b = x"
  by (rule exI [of _ "nat (x - a)"]) (simp add: random_number_def)

definition random_index :: "nat \<Rightarrow> nat" where
  "random_index r = nat (random_number r 0 4)"

lemma random_index_less [simp]: "random_index r < 5"
  using random_number_range [of 0 4 r] by (auto simp: random_index_def nat_less_iff)

section \<open>Threads and shared memory\<close>

datatype thread = Loader | Customer nat

datatype loader_pc = LCheck | LPick | LLock nat | LAdd nat | LUnlock nat | LDone

datatype customer_pc =
  CStart | CPick | CTest nat | CLock nat | CBuy nat | CUnlock nat | CCheck
| CRead | CWrite int | CDone

record customer =
  cpc :: customer_pc
  need :: int

record shop =
  store :: "int list"
  mutex :: "thread option list"
  finished :: int
  loader :: loader_pc
  customers :: "customer list"

definition lock :: "thread \<Rightarrow> nat \<Rightarrow> shop \<Rightarrow> shop option" where
  "lock t j s = (if mutex s ! j = None then Some (s\<lparr>mutex := (mutex s)[j := Some t]\<rparr>) else None)"

definition unlock :: "nat \<Rightarrow> shop \<Rightarrow> shop" where
  "unlock j s = s\<lparr>mutex := (mutex s)[j := None]\<rparr>"

section \<open>loading.c\<close>

text \<open>One statement of \<open>loading\<close>; \<open>r\<close> feeds \<open>rand()\<close>, \<open>None\<close> means blocked or ended.\<close>

definition loading :: "nat \<Rightarrow> shop \<Rightarrow> shop option" where
  "loading r s = (case loader s of
     LCheck \<Rightarrow> Some (s\<lparr>loader := (if finished s < 3 then LPick else LDone)\<rparr>)
   | LPick \<Rightarrow> Some (s\<lparr>loader := LLock (random_index r)\<rparr>)
   | LLock j \<Rightarrow> map_option (\<lambda>s. s\<lparr>loader := LAdd j\<rparr>) (lock Loader j s)
   | LAdd j \<Rightarrow> Some (s\<lparr>store := (store s)[j := store s ! j + random_number r 300 500],
                       loader := LUnlock j\<rparr>)
   | LUnlock j \<Rightarrow> Some ((unlock j s)\<lparr>loader := LCheck\<rparr>)
   | LDone \<Rightarrow> None)"

section \<open>purchases.c\<close>

definition set_customer :: "nat \<Rightarrow> customer \<Rightarrow> shop \<Rightarrow> shop" where
  "set_customer k c s = s\<lparr>customers := (customers s)[k := c]\<rparr>"

definition goto :: "nat \<Rightarrow> customer_pc \<Rightarrow> shop \<Rightarrow> shop" where
  "goto k pc s = set_customer k ((customers s ! k)\<lparr>cpc := pc\<rparr>) s"

text \<open>One statement of \<open>purchases\<close> in customer thread \<open>k\<close>.\<close>

definition purchases :: "nat \<Rightarrow> nat \<Rightarrow> shop \<Rightarrow> shop option" where
  "purchases k r s = (let c = customers s ! k in case cpc c of
     CStart \<Rightarrow> Some (set_customer k \<lparr>cpc = CPick, need = random_number r 3000 3500\<rparr> s)
   | CPick \<Rightarrow> Some (goto k (CTest (random_index r)) s)
   | CTest j \<Rightarrow> Some (goto k (if store s ! j = 0 then CPick else CLock j) s)
   | CLock j \<Rightarrow> map_option (goto k (CBuy j)) (lock (Customer k) j s)
   | CBuy j \<Rightarrow> Some (
       if need c \<ge> store s ! j
       then set_customer k \<lparr>cpc = CUnlock j, need = need c - store s ! j\<rparr>
              (s\<lparr>store := (store s)[j := 0]\<rparr>)
       else set_customer k \<lparr>cpc = CUnlock j, need = 0\<rparr>
              (s\<lparr>store := (store s)[j := store s ! j - need c]\<rparr>))
   | CUnlock j \<Rightarrow> Some (goto k CCheck (unlock j s))
   | CCheck \<Rightarrow> Some (goto k (if need c = 0 then CRead else CPick) s)
   | CRead \<Rightarrow> Some (goto k (CWrite (finished s)) s)
   | CWrite v \<Rightarrow> Some (goto k CDone (s\<lparr>finished := v + 1\<rparr>))
   | CDone \<Rightarrow> None)"

section \<open>main.c\<close>

text \<open>Initial state for the values \<open>rs\<close> of the five \<open>rand()\<close> calls; then all threads run.\<close>

definition shop_main_start :: "nat list \<Rightarrow> shop" where
  "shop_main_start rs =
     \<lparr>store = map (\<lambda>i. random_number (rs ! i) 1000 1200) [0..<5],
      mutex = replicate 5 None, finished = 0, loader = LCheck,
      customers = replicate 3 \<lparr>cpc = CStart, need = 0\<rparr>\<rparr>"

text \<open>What \<open>main\<close> prints once the four \<open>pthread_join\<close> calls have returned.\<close>

definition shop_main_report :: "shop \<Rightarrow> (nat \<times> int) list option" where
  "shop_main_report s =
     (if loader s = LDone \<and> (\<forall>c \<in> set (customers s). cpc c = CDone)
      then Some (zip [0..<5] (store s)) else None)"

text \<open>A scheduler picks the thread and the value of \<open>rand()\<close>.\<close>

fun shop_act :: "thread \<times> nat \<Rightarrow> shop \<Rightarrow> shop option" where
  "shop_act (Loader, r) s = loading r s"
| "shop_act (Customer k, r) s = (if k < 3 then purchases k r s else None)"

text \<open>The program with 32-bit integers: a statement that computes an amount that is no \<open>int\<close>
  has no defined effect.\<close>

definition fits :: "int \<Rightarrow> bool" where
  "fits n \<longleftrightarrow> - (2 ^ 31) \<le> n \<and> n < 2 ^ 31"

fun overflows :: "thread \<times> nat \<Rightarrow> shop \<Rightarrow> bool" where
  "overflows (Loader, r) s = (case loader s of
     LAdd j \<Rightarrow> \<not> fits (store s ! j + random_number r 300 500) | _ \<Rightarrow> False)"
| "overflows (Customer k, r) s = (let c = customers s ! k in case cpc c of
     CStart \<Rightarrow> \<not> fits (random_number r 3000 3500)
   | CBuy j \<Rightarrow> (if need c \<ge> store s ! j then \<not> fits (need c - store s ! j) else \<not> fits (store s ! j - need c))
   | CWrite v \<Rightarrow> \<not> fits (v + 1)
   | _ \<Rightarrow> False)"

definition shop_act32 :: "thread \<times> nat \<Rightarrow> shop \<Rightarrow> shop option" where
  "shop_act32 a s = (if overflows a s then None else shop_act a s)"

inductive shop_step :: "shop \<Rightarrow> shop \<Rightarrow> bool" where
  act: "shop_act a s = Some t \<Longrightarrow> shop_step s t"

inductive shop_start :: "shop \<Rightarrow> bool" where
  start: "shop_start (shop_main_start rs)"

inductive_cases shop_stepE: "shop_step s t"
inductive_cases shop_startE: "shop_start s"

lemma shop_run_steps: "fold_opt shop_act as s = Some t \<Longrightarrow> shop_step\<^sup>*\<^sup>* s t"
  by (rule fold_opt_steps) (auto intro: shop_step.act)

section \<open>Invariants\<close>

fun loader_index :: "loader_pc \<Rightarrow> nat option" where
  "loader_index (LLock j) = Some j"
| "loader_index (LAdd j) = Some j"
| "loader_index (LUnlock j) = Some j"
| "loader_index _ = None"

fun loader_holds :: "loader_pc \<Rightarrow> nat option" where
  "loader_holds (LAdd j) = Some j"
| "loader_holds (LUnlock j) = Some j"
| "loader_holds _ = None"

fun customer_index :: "customer_pc \<Rightarrow> nat option" where
  "customer_index (CTest j) = Some j"
| "customer_index (CLock j) = Some j"
| "customer_index (CBuy j) = Some j"
| "customer_index (CUnlock j) = Some j"
| "customer_index _ = None"

fun customer_holds :: "customer_pc \<Rightarrow> nat option" where
  "customer_holds (CBuy j) = Some j"
| "customer_holds (CUnlock j) = Some j"
| "customer_holds _ = None"

fun critical :: "shop \<Rightarrow> thread \<Rightarrow> nat \<Rightarrow> bool" where
  "critical s Loader j = (loader_holds (loader s) = Some j)"
| "critical s (Customer k) j = (k < 3 \<and> customer_holds (cpc (customers s ! k)) = Some j)"

definition mutex_owner :: "shop \<Rightarrow> nat \<Rightarrow> thread option" where
  "mutex_owner s j = (if j < 5 then mutex s ! j else None)"

definition done_count :: "shop \<Rightarrow> int" where
  "done_count s = (\<Sum>k<3. of_bool (cpc (customers s ! k) = CDone))"

text \<open>Shapes and ranges; stores and needs never go negative.\<close>

definition shape_inv :: "shop \<Rightarrow> bool" where
  "shape_inv s \<longleftrightarrow> length (store s) = 5 \<and> length (mutex s) = 5 \<and> length (customers s) = 3 \<and>
     (\<forall>j<5. 0 \<le> store s ! j) \<and> (\<forall>k<3. 0 \<le> need (customers s ! k)) \<and>
     (\<forall>j. loader_index (loader s) = Some j \<longrightarrow> j < 5) \<and>
     (\<forall>k<3. \<forall>j. customer_index (cpc (customers s ! k)) = Some j \<longrightarrow> j < 5)"

text \<open>A mutex is owned by exactly the thread between its lock and unlock.\<close>

definition lock_inv :: "shop \<Rightarrow> bool" where
  "lock_inv s \<longleftrightarrow> (\<forall>j t. mutex_owner s j = Some t \<longleftrightarrow> critical s t j)"

text \<open>The counter never runs ahead of the customers that are done; a customer that is past
  its loop needs nothing; the loader ends only when all three are done.\<close>

definition count_inv :: "shop \<Rightarrow> bool" where
  "count_inv s \<longleftrightarrow> 0 \<le> finished s \<and> finished s \<le> done_count s \<and>
     (\<forall>k<3. \<forall>v. cpc (customers s ! k) = CWrite v \<longrightarrow> 0 \<le> v \<and> v \<le> done_count s) \<and>
     (\<forall>k<3. (cpc (customers s ! k) = CRead \<or> cpc (customers s ! k) = CDone \<or>
             (\<exists>v. cpc (customers s ! k) = CWrite v)) \<longrightarrow> need (customers s ! k) = 0) \<and>
     (loader s = LDone \<longrightarrow> done_count s = 3 \<and> finished s = 3)"

definition shop_inv :: "shop \<Rightarrow> bool" where
  "shop_inv s \<longleftrightarrow> shape_inv s \<and> lock_inv s \<and> count_inv s"

lemmas shop_ops = loading_def purchases_def lock_def unlock_def goto_def set_customer_def Let_def

lemma less_3_iff: "(k :: nat) < 3 \<longleftrightarrow> k = 0 \<or> k = 1 \<or> k = 2"
  by auto

lemma loading_shape: "shape_inv s \<Longrightarrow> loading r s = Some t \<Longrightarrow> shape_inv t"
  using random_number_range [of 300 500 r]
  by (cases "loader s") (auto simp: shape_inv_def shop_ops nth_list_update split: if_splits)

lemma purchases_shape: "shape_inv s \<Longrightarrow> k < 3 \<Longrightarrow> purchases k r s = Some t \<Longrightarrow> shape_inv t"
  using random_number_range [of 3000 3500 r]
  by (cases "cpc (customers s ! k)") (auto simp: shape_inv_def shop_ops nth_list_update split: if_splits)

lemma lock_inv_owner:
  "lock_inv s \<Longrightarrow> j < 5 \<Longrightarrow> mutex s ! j = Some t \<longleftrightarrow> critical s t j"
  unfolding lock_inv_def mutex_owner_def by (drule spec [of _ j]) simp

lemma lock_invI:
  assumes "\<And>j t. j < 5 \<Longrightarrow> mutex s ! j = Some t \<longleftrightarrow> critical s t j"
    and "\<And>j t. critical s t j \<Longrightarrow> j < 5"
  shows "lock_inv s"
  using assms by (auto simp: lock_inv_def mutex_owner_def)

lemma critical_index: "shape_inv s \<Longrightarrow> critical s t j \<Longrightarrow> j < 5"
  by (cases t; cases "loader s"; cases "cpc (customers s ! (case t of Customer k \<Rightarrow> k | _ \<Rightarrow> 0))")
     (auto simp: shape_inv_def)

lemma loading_mutex:
  assumes "loading r s = Some t"
  shows "customers t = customers s \<and> (case loader s of
      LLock i \<Rightarrow> mutex s ! i = None \<and> mutex t = (mutex s)[i := Some Loader] \<and> loader t = LAdd i
    | LUnlock i \<Rightarrow> mutex t = (mutex s)[i := None] \<and> loader t = LCheck
    | pc \<Rightarrow> mutex t = mutex s \<and> loader_holds (loader t) = loader_holds pc)"
  using assms by (cases "loader s") (auto simp: shop_ops split: if_splits)

lemma loading_lock:
  assumes sh: "shape_inv s" and li: "lock_inv s" and st: "loading r s = Some t"
  shows "lock_inv t"
proof (rule lock_invI)
  fix j :: nat and u assume j: "j < 5"
  note own = lock_inv_owner [OF li]
  have i: "i < 5" if "loader_index (loader s) = Some i" for i
    using sh that by (simp add: shape_inv_def)
  have l: "length (mutex s) = 5" using sh by (simp add: shape_inv_def)
  note mx = loading_mutex [OF st]
  have fr: "critical t u j \<longleftrightarrow> (if u = Loader then loader_holds (loader t) = Some j else critical s u j)"
    using mx by (cases u) auto
  show "mutex t ! j = Some u \<longleftrightarrow> critical t u j"
  proof (cases "loader s")
    case (LLock i)
    then show ?thesis
      using mx own [of i u] own [OF j, of u] i [of i] l fr by (auto simp: nth_list_update)
  next
    case (LUnlock i)
    then show ?thesis
      using mx own [of i u] own [of i Loader] own [OF j, of u] i [of i] l fr
      by (auto simp: nth_list_update)
  qed (use mx own [OF j, of u] fr in auto)
next
  fix j u assume "critical t u j"
  then show "j < 5" using critical_index loading_shape [OF sh st] by blast
qed

lemma purchases_frame:
  assumes "purchases k r s = Some t"
  shows "loader t = loader s \<and> length (customers t) = length (customers s) \<and>
    (\<forall>i. i \<noteq> k \<longrightarrow> customers t ! i = customers s ! i)"
  using assms by (cases "cpc (customers s ! k)") (auto simp: shop_ops split: if_splits)

lemma purchases_mutex:
  assumes "purchases k r s = Some t" "length (customers s) = 3" "k < 3"
  shows "case cpc (customers s ! k) of
      CLock i \<Rightarrow> mutex s ! i = None \<and> mutex t = (mutex s)[i := Some (Customer k)] \<and> cpc (customers t ! k) = CBuy i
    | CUnlock i \<Rightarrow> mutex t = (mutex s)[i := None] \<and> cpc (customers t ! k) = CCheck
    | pc \<Rightarrow> mutex t = mutex s \<and> customer_holds (cpc (customers t ! k)) = customer_holds pc"
  using assms by (cases "cpc (customers s ! k)") (auto simp: shop_ops split: if_splits)

lemma purchases_lock:
  assumes sh: "shape_inv s" and li: "lock_inv s" and k: "k < 3" and st: "purchases k r s = Some t"
  shows "lock_inv t"
proof (rule lock_invI)
  fix j :: nat and u assume j: "j < 5"
  note own = lock_inv_owner [OF li]
  have i: "i < 5" if "customer_index (cpc (customers s ! k)) = Some i" for i
    using sh k that by (simp add: shape_inv_def)
  have l: "length (mutex s) = 5" "length (customers s) = 3" using sh by (simp_all add: shape_inv_def)
  have fr: "critical t u j \<longleftrightarrow> (if u = Customer k then customer_holds (cpc (customers t ! k)) = Some j
      else critical s u j)"
    using purchases_frame [OF st] k by (cases u) auto
  have me: "critical s (Customer k) j \<longleftrightarrow> customer_holds (cpc (customers s ! k)) = Some j" for j
    using k by simp
  note mx = purchases_mutex [OF st l(2) k]
  show "mutex t ! j = Some u \<longleftrightarrow> critical t u j"
  proof (cases "cpc (customers s ! k)")
    case (CLock i)
    then show ?thesis
      using mx own [of i u] own [OF j, of u] i [of i] l(1) fr me [of j] by (auto simp: nth_list_update)
  next
    case (CUnlock i)
    then show ?thesis
      using mx own [of i u] own [of i "Customer k"] own [OF j, of u] i [of i] l(1) fr me [of i] me [of j]
      by (auto simp: nth_list_update)
  qed (use mx own [OF j, of u] fr me [of j] in auto)
next
  fix j u assume "critical t u j"
  then show "j < 5" using critical_index purchases_shape [OF sh k st] by blast
qed

text \<open>Only the last statement of a customer moves the number of finished customers.\<close>

lemma sum_three: "(\<Sum>k<(3::nat). f k) = f 0 + f 1 + (f 2 :: int)"
  by (simp add: eval_nat_numeral lessThan_Suc)

lemma done_count_update:
  assumes "length (customers s) = 3" "k < 3"
  shows "done_count (s\<lparr>customers := (customers s)[k := c]\<rparr>)
    = done_count s - of_bool (cpc (customers s ! k) = CDone) + of_bool (cpc c = CDone)"
  using assms by (auto simp: done_count_def sum_three less_3_iff nth_list_update)

lemma done_count_all: "done_count s = 3 \<Longrightarrow> k < 3 \<Longrightarrow> cpc (customers s ! k) = CDone"
  by (auto simp: done_count_def sum_three less_3_iff of_bool_def split: if_splits)

lemma done_count_le: "done_count s \<le> 3"
  by (simp add: done_count_def sum_three)

lemma loading_count: "shape_inv s \<Longrightarrow> count_inv s \<Longrightarrow> loading r s = Some t \<Longrightarrow> count_inv t"
  using done_count_le [of s]
  by (cases "loader s") (auto simp: count_inv_def shop_ops done_count_def split: if_splits)

lemma done_count_cong: "customers s = customers t \<Longrightarrow> done_count s = done_count t"
  by (simp add: done_count_def)

lemma purchases_done_count:
  assumes "length (customers s) = 3" "k < 3" "purchases k r s = Some t"
  shows "done_count t = done_count s + of_bool (\<exists>v. cpc (customers s ! k) = CWrite v)"
proof -
  obtain c where c: "customers t = (customers s)[k := c]"
    and d: "cpc c = CDone \<longleftrightarrow> (\<exists>v. cpc (customers s ! k) = CWrite v)"
    and n: "cpc (customers s ! k) \<noteq> CDone"
    using assms(3) by (cases "cpc (customers s ! k)") (auto simp: shop_ops split: if_splits)
  have "done_count t = done_count (s\<lparr>customers := (customers s)[k := c]\<rparr>)"
    using c by (intro done_count_cong) simp
  then show ?thesis using done_count_update [OF assms(1,2), of c] d n by simp
qed

lemma purchases_count:
  assumes sh: "shape_inv s" and ci: "count_inv s" and k: "k < 3" and st: "purchases k r s = Some t"
  shows "count_inv t"
proof -
  have l: "length (customers s) = 3" using sh by (simp add: shape_inv_def)
  note dc = purchases_done_count [OF l k st]
  have le: "done_count s \<le> done_count t" using dc by simp
  have ld: "loader t = loader s"
    using st by (cases "cpc (customers s ! k)") (auto simp: shop_ops split: if_splits)
  have fin: "finished t = (case cpc (customers s ! k) of CWrite v \<Rightarrow> v + 1 | _ \<Rightarrow> finished s)"
    using st by (cases "cpc (customers s ! k)") (auto simp: shop_ops split: if_splits)
  have other: "customers t ! i = customers s ! i" if "i \<noteq> k" for i
    using purchases_frame [OF st] that by blast
  have fin0: "0 \<le> finished s" "finished s \<le> done_count s"
    and wr0: "\<And>i v. i < 3 \<Longrightarrow> cpc (customers s ! i) = CWrite v \<Longrightarrow> 0 \<le> v \<and> v \<le> done_count s"
    and nd0: "\<And>i. i < 3 \<Longrightarrow> cpc (customers s ! i) = CRead \<or> cpc (customers s ! i) = CDone \<or>
      (\<exists>v. cpc (customers s ! i) = CWrite v) \<Longrightarrow> need (customers s ! i) = 0"
    and ld0: "loader s = LDone \<Longrightarrow> done_count s = 3 \<and> finished s = 3"
    using ci unfolding count_inv_def by blast+
  have me: "(\<forall>v. cpc (customers t ! k) = CWrite v \<longrightarrow> v = finished s) \<and>
      (cpc (customers t ! k) = CRead \<or> cpc (customers t ! k) = CDone \<or> (\<exists>v. cpc (customers t ! k) = CWrite v)
        \<longrightarrow> need (customers t ! k) = 0)"
    using st nd0 [OF k] k l
    by (cases "cpc (customers s ! k)") (auto simp: shop_ops split: if_splits)
  have w: "\<nexists>v. cpc (customers s ! k) = CWrite v" if "loader s = LDone"
    using ld0 [OF that] k done_count_all [of s k] by auto
  have b: "0 \<le> finished t \<and> finished t \<le> done_count t"
    using fin0 wr0 [OF k] dc fin by (cases "cpc (customers s ! k)") auto
  have wv: "0 \<le> v \<and> v \<le> done_count t" if "i < 3" "cpc (customers t ! i) = CWrite v" for i v
    using fin0 wr0 [of i v] that me other [of i] le by (cases "i = k") auto
  have nd: "need (customers t ! i) = 0"
    if "i < 3" "cpc (customers t ! i) = CRead \<or> cpc (customers t ! i) = CDone \<or> (\<exists>v. cpc (customers t ! i) = CWrite v)" for i
    using nd0 [of i] that me other [of i] by (cases "i = k") auto
  have ldn: "loader t = LDone \<longrightarrow> done_count t = 3 \<and> finished t = 3"
    using ld0 ld dc fin w by (cases "cpc (customers s ! k)") auto
  show ?thesis unfolding count_inv_def using b wv nd ldn by blast
qed

lemma shop_act_inv: "shop_inv s \<Longrightarrow> shop_act a s = Some t \<Longrightarrow> shop_inv t"
  by (cases "(a, s)" rule: shop_act.cases)
     (auto simp: shop_inv_def split: if_splits
       intro: loading_shape loading_lock loading_count purchases_shape purchases_lock purchases_count)

lemma shop_start_inv: "shop_inv (shop_main_start rs)"
proof -
  have r: "0 \<le> random_number r 1000 1200" for r using random_number_range [of 1000 1200 r] by simp
  have "shape_inv (shop_main_start rs)"
    using r by (auto simp: shape_inv_def shop_main_start_def)
  moreover have "lock_inv (shop_main_start rs)"
    by (rule lock_invI) (auto simp: shop_main_start_def critical.simps elim!: critical.elims)
  moreover have "count_inv (shop_main_start rs)"
    by (auto simp: count_inv_def shop_main_start_def done_count_def)
  ultimately show ?thesis by (simp add: shop_inv_def)
qed

interpretation shop: locking shop_start shop_step shop_inv critical mutex_owner
proof
  fix s :: shop
  show "shop_start s \<Longrightarrow> shop_inv s" by (auto elim: shop_startE intro: shop_start_inv)
next
  fix s t :: shop
  show "shop_inv s \<Longrightarrow> shop_step s t \<Longrightarrow> shop_inv t" by (auto elim: shop_stepE intro: shop_act_inv)
next
  fix s :: shop and t j
  show "shop_inv s \<Longrightarrow> critical s t j \<Longrightarrow> mutex_owner s j = Some t"
    by (simp add: shop_inv_def lock_inv_def)
qed

section \<open>Goods are neither lost nor created\<close>

definition needs :: "shop \<Rightarrow> int" where
  "needs s = (\<Sum>k<3. need (customers s ! k))"

lemma sum_list_set: "i < length xs \<Longrightarrow> sum_list (xs[i := x]) = sum_list xs - xs ! i + (x :: int)"
  by (induction xs arbitrary: i) (auto split: nat.split)

definition balance :: "shop \<Rightarrow> int" where
  "balance s = sum_list (store s) - needs s"

lemma needs_update:
  "length (customers s) = 3 \<Longrightarrow> k < 3 \<Longrightarrow> customers t = (customers s)[k := c] \<Longrightarrow>
   needs t = needs s - need (customers s ! k) + need c"
  by (auto simp: needs_def sum_three less_3_iff nth_list_update)

lemma loading_balance:
  assumes "shape_inv s" "loading r s = Some t"
  shows "balance t = balance s + (case loader s of LAdd j \<Rightarrow> random_number r 300 500 | _ \<Rightarrow> 0)"
  using assms by (cases "loader s")
    (auto simp: balance_def needs_def shape_inv_def shop_ops sum_list_set split: if_splits)

lemma purchases_balance:
  assumes sh: "shape_inv s" and k: "k < 3" and st: "purchases k r s = Some t"
    and pc: "cpc (customers s ! k) \<noteq> CStart"
  shows "balance t = balance s"
proof -
  have l: "length (customers s) = 3" "length (store s) = 5" using sh by (simp_all add: shape_inv_def)
  have idx: "j < 5" if "customer_index (cpc (customers s ! k)) = Some j" for j
    using sh k that by (simp add: shape_inv_def)
  have c: "customers t = (customers s)[k := customers t ! k]"
    using st k l(1) by (cases "cpc (customers s ! k)") (auto simp: shop_ops split: if_splits)
  have d: "need (customers s ! k) - need (customers t ! k) = sum_list (store s) - sum_list (store t)"
    using st pc l k idx
    by (cases "cpc (customers s ! k)") (auto simp: shop_ops sum_list_set split: if_splits)
  show ?thesis using needs_update [OF l(1) k c] d by (simp add: balance_def)
qed

section \<open>How long the amounts fit an int\<close>

text \<open>\<open>D\<close> deliveries have been made in \<open>L\<close> statements of the loader.\<close>

fun loader_phase :: "loader_pc \<Rightarrow> int" where
  "loader_phase LPick = 1"
| "loader_phase (LLock j) = 2"
| "loader_phase (LAdd j) = 3"
| "loader_phase (LUnlock j) = -1"
| "loader_phase _ = 0"

definition small_inv :: "int \<Rightarrow> shop \<Rightarrow> bool" where
  "small_inv L s \<longleftrightarrow> (\<forall>k<3. need (customers s ! k) \<le> 3500) \<and>
     (\<exists>D. (\<forall>j<5. store s ! j \<le> 1200 + 500 * D) \<and> 5 * D + loader_phase (loader s) \<le> L)"

definition loader_steps :: "(thread \<times> nat) list \<Rightarrow> int" where
  "loader_steps as = int (length (filter (\<lambda>a. fst a = Loader) as))"

lemma small_start: "small_inv 0 (shop_main_start rs)"
proof -
  have "random_number r 1000 1200 \<le> 1200" for r using random_number_range [of 1000 1200 r] by simp
  then have "(\<forall>j<5. store (shop_main_start rs) ! j \<le> 1200 + 500 * 0) \<and> 5 * 0 + loader_phase (loader (shop_main_start rs)) \<le> 0"
    by (simp add: shop_main_start_def)
  then show ?thesis unfolding small_inv_def by (intro conjI exI [of _ 0]) (auto simp: shop_main_start_def)
qed

lemma loading_small:
  assumes "shape_inv s" "small_inv L s" "loading r s = Some t"
  shows "small_inv (L + 1) t"
proof -
  obtain D where n: "\<forall>k<3. need (customers s ! k) \<le> 3500" and D: "\<forall>j<5. store s ! j \<le> 1200 + 500 * D" "5 * D + loader_phase (loader s) \<le> L"
    using assms(2) unfolding small_inv_def by blast
  let ?E = "case loader s of LAdd j \<Rightarrow> D + 1 | _ \<Rightarrow> D"
  have c: "customers t = customers s" using assms(3) by (cases "loader s") (auto simp: shop_ops split: if_splits)
  have "store t ! j \<le> 1200 + 500 * ?E" if "j < 5" for j
    using assms(1,3) D(1) that random_number_range [of 300 500 r]
    by (cases "loader s") (fastforce simp: shop_ops shape_inv_def nth_list_update split: if_splits)+
  moreover have "5 * ?E + loader_phase (loader t) \<le> L + 1"
    using assms(3) D(2) by (cases "loader s") (auto simp: shop_ops split: if_splits)
  ultimately show ?thesis using n c unfolding small_inv_def by auto
qed

lemma purchases_small:
  assumes "shape_inv s" "small_inv L s" "k < 3" "purchases k r s = Some t"
  shows "small_inv L t"
proof -
  obtain D where n: "\<forall>k<3. need (customers s ! k) \<le> 3500" and D: "\<forall>j<5. store s ! j \<le> 1200 + 500 * D" "5 * D + loader_phase (loader s) \<le> L"
    using assms(2) unfolding small_inv_def by blast
  have sh: "\<forall>j<5. 0 \<le> store s ! j" "\<forall>k<3. 0 \<le> need (customers s ! k)" "length (store s) = 5" "length (customers s) = 3"
    "\<forall>j. customer_index (cpc (customers s ! k)) = Some j \<longrightarrow> j < 5"
    using assms(1,3) by (auto simp: shape_inv_def)
  have le: "store t ! j \<le> store s ! j" if "j < 5" for j
    using assms(3,4) sh that by (cases "cpc (customers s ! k)") (auto simp: shop_ops nth_list_update split: if_splits)
  have nk: "need (customers s ! k) \<le> 3500" using n assms(3) by blast
  have "need (customers t ! k) = (case cpc (customers s ! k) of CStart \<Rightarrow> random_number r 3000 3500
      | CBuy j \<Rightarrow> (if need (customers s ! k) \<ge> store s ! j then need (customers s ! k) - store s ! j else 0)
      | _ \<Rightarrow> need (customers s ! k))"
    using assms(3,4) sh(4) by (cases "cpc (customers s ! k)") (auto simp: shop_ops split: if_splits)
  moreover have "0 \<le> store s ! j" if "cpc (customers s ! k) = CBuy j" for j using sh(1,5) that by simp
  ultimately have own: "need (customers t ! k) \<le> 3500"
    using nk random_number_range [of 3000 3500 r] by (auto split: customer_pc.splits)
  have nd: "need (customers t ! i) \<le> 3500" if "i < 3" for i
    using own n that purchases_frame [OF assms(4)] by (cases "i = k") simp_all
  have ld: "loader t = loader s" using purchases_frame [OF assms(4)] by blast
  have "store t ! j \<le> 1200 + 500 * D" if "j < 5" for j using le [OF that] D(1) that by (meson order_trans)
  then show ?thesis unfolding small_inv_def using nd D(2) ld by (intro conjI exI [of _ D]) auto
qed

lemma small_store:
  assumes "small_inv L s" "L \<le> 21474823" "j < 5"
  shows "store s ! j < 2 ^ 31"
proof -
  obtain D where D: "store s ! j \<le> 1200 + 500 * D" "5 * D + loader_phase (loader s) \<le> L"
    using assms(1,3) unfolding small_inv_def by blast
  have "-1 \<le> loader_phase (loader s)" by (cases "loader s") simp_all
  then have "D \<le> 4294964" using D(2) assms(2) by linarith
  then show ?thesis using D(1) by simp
qed

lemma small_fits:
  assumes inv: "shop_inv s" "small_inv L s" and L: "L \<le> 21474823" "fst a = Loader \<Longrightarrow> L < 21474823"
    and act: "shop_act a s = Some t"
  shows "\<not> overflows a s"
proof (cases "(a, s)" rule: overflows.cases)
  case (1 r u)
  show ?thesis
  proof (cases "loader s")
    case (LAdd j)
    have j: "j < 5" "0 \<le> store s ! j" using inv(1) LAdd by (auto simp: shop_inv_def shape_inv_def)
    obtain D where D: "store s ! j \<le> 1200 + 500 * D" "5 * D + 3 \<le> L"
      using inv(2) LAdd j(1) unfolding small_inv_def by auto
    have "D \<le> 4294963" using D(2) L(2) 1 by simp
    then have "store s ! j + random_number r 300 500 < 2 ^ 31"
      using D(1) random_number_range [of 300 500 r] by simp
    then show ?thesis using 1 LAdd j(2) random_number_range [of 300 500 r] by (simp add: fits_def)
  qed (use 1 in simp_all)
next
  case (2 k r u)
  then have k: "k < 3" using act by (simp split: if_splits)
  show ?thesis
  proof (cases "cpc (customers s ! k)")
    case CStart
    then show ?thesis using 2 random_number_range [of 3000 3500 r] by (simp add: fits_def Let_def)
  next
    case (CBuy j)
    have j: "j < 5" "0 \<le> store s ! j" "0 \<le> need (customers s ! k)"
      using inv(1) CBuy k by (auto simp: shop_inv_def shape_inv_def)
    have "need (customers s ! k) \<le> 3500" using inv(2) k by (simp add: small_inv_def)
    then show ?thesis using small_store [OF inv(2) L(1) j(1)] 2 CBuy j(2,3) by (simp add: fits_def Let_def)
  next
    case (CWrite v)
    have "0 \<le> v" "v \<le> done_count s" using inv(1) CWrite k by (auto simp: shop_inv_def count_inv_def)
    then show ?thesis using 2 CWrite done_count_le [of s] by (simp add: fits_def Let_def)
  qed (use 2 in \<open>simp_all add: Let_def\<close>)
qed

lemma shop_run_small:
  assumes "fold_opt shop_act as (shop_main_start rs) = Some s"
  shows "shop_inv s \<and> small_inv (loader_steps as) s"
  using assms
proof (induction as arbitrary: s rule: rev_induct)
  case Nil
  then have "s = shop_main_start rs" by simp
  then show ?case using shop_start_inv [of rs] small_start [of rs] by (simp add: loader_steps_def)
next
  case (snoc a as)
  then obtain u where u: "fold_opt shop_act as (shop_main_start rs) = Some u" and a: "shop_act a u = Some s"
    by (auto simp: fold_opt_append split: bind_splits)
  from snoc.IH [OF u] have i: "shop_inv u" "small_inv (loader_steps as) u" by blast+
  have "small_inv (loader_steps (as @ [a])) s"
    using i a by (cases "(a, u)" rule: shop_act.cases)
      (auto simp: loader_steps_def shop_inv_def add.commute split: if_splits
        dest: loading_small purchases_small)
  then show ?case using shop_act_inv [OF i(1) a] by blast
qed

lemma shop_runs_agree:
  "loader_steps as \<le> 21474823 \<Longrightarrow>
   fold_opt shop_act32 as (shop_main_start rs) = fold_opt shop_act as (shop_main_start rs)"
proof (induction as rule: rev_induct)
  case (snoc a as)
  have L: "loader_steps as \<le> 21474823" "fst a = Loader \<Longrightarrow> loader_steps as < 21474823"
    using snoc.prems by (auto simp: loader_steps_def split: if_splits)
  have same: "fold_opt shop_act32 as (shop_main_start rs) = fold_opt shop_act as (shop_main_start rs)"
    by (rule snoc.IH [OF L(1)])
  show ?case
  proof (cases "fold_opt shop_act as (shop_main_start rs)")
    case (Some u)
    have "shop_act32 a u = shop_act a u"
    proof (cases "shop_act a u")
      case (Some t)
      then show ?thesis using small_fits [OF _ _ L Some] shop_run_small [OF \<open>fold_opt shop_act as (shop_main_start rs) = Some u\<close>]
        by (simp add: shop_act32_def)
    qed (simp add: shop_act32_def)
    then show ?thesis using Some same by (cases "shop_act a u") (simp_all add: fold_opt_append)
  qed (use same in \<open>simp add: fold_opt_append\<close>)
qed simp

section \<open>The unguarded counter\<close>

text \<open>Once all customers are done with \<open>finished < 3\<close>, nothing writes the counter again.\<close>

definition starved :: "shop \<Rightarrow> bool" where
  "starved s \<longleftrightarrow> (\<forall>k<3. cpc (customers s ! k) = CDone) \<and> finished s < 3 \<and> loader s \<noteq> LDone"

lemma starved_step: "starved s \<Longrightarrow> shop_step s t \<Longrightarrow> starved t"
  by (elim shop_stepE, rename_tac a, case_tac "(a, s)" rule: shop_act.cases)
     (auto simp: starved_def shop_ops split: if_splits loader_pc.splits)

lemma starved_steps: "shop_step\<^sup>*\<^sup>* s t \<Longrightarrow> starved s \<Longrightarrow> starved t"
  by (induction rule: rtranclp_induct) (auto intro: starved_step)

text \<open>A schedule: three purchases, one load of 500 into store 0, and the loss itself.\<close>

definition buy :: "nat \<Rightarrow> nat \<Rightarrow> (thread \<times> nat) list" where
  "buy k j = replicate 6 (Customer k, j)"

definition load_500 :: "(thread \<times> nat) list" where
  "load_500 = [(Loader, 0), (Loader, 0), (Loader, 0), (Loader, 200), (Loader, 0)]"

text \<open>A loader that is left alone does overflow in the end.\<close>

lemma load_500_run:
  assumes "loader s = LCheck" "finished s = 0" "mutex s ! 0 = None" "length (store s) = 5" "length (mutex s) = 5"
  shows "fold_opt shop_act load_500 s = Some (s\<lparr>store := (store s)[0 := store s ! 0 + 500]\<rparr>)"
proof -
  have "(mutex s)[0 := None] = mutex s" using assms(3) by (metis list_update_id)
  then show ?thesis using assms
    by (simp add: load_500_def shop_ops random_index_def random_number_def)
qed

lemma load_500_runs:
  "fold_opt shop_act (concat (replicate n load_500)) (shop_main_start [])
   = Some ((shop_main_start [])\<lparr>store := (store (shop_main_start []))[0 := store (shop_main_start []) ! 0 + 500 * int n]\<rparr>)"
proof (induction n)
  case (Suc n)
  have "fold_opt shop_act (concat (replicate (Suc n) load_500)) (shop_main_start []) =
      fold_opt shop_act (concat (replicate n load_500) @ load_500) (shop_main_start [])"
    by (simp only: replicate_append_same [symmetric] replicate.simps concat_append concat.simps append_Nil2)
  then show ?case using Suc load_500_run
    by (simp add: fold_opt_append) (subst load_500_run, simp_all add: shop_main_start_def algebra_simps)
qed (simp add: list_update_id)

lemma shop_overflow:
  "\<exists>as s. fold_opt shop_act as (shop_main_start []) = Some s \<and> shop_act32 (Loader, 200) s = None \<and> loader s = LAdd 0"
proof -
  define n :: nat where "n = 4294965"
  let ?s = "(shop_main_start [])\<lparr>store := (store (shop_main_start []))[0 := store (shop_main_start []) ! 0 + 500 * int n]\<rparr>"
  let ?t = "?s\<lparr>mutex := (mutex ?s)[0 := Some Loader], loader := LAdd 0\<rparr>"
  have "fold_opt shop_act [(Loader, 0), (Loader, 0), (Loader, 0)] ?s = Some ?t"
    by (simp add: shop_ops shop_main_start_def random_index_def random_number_def)
  then have "fold_opt shop_act (concat (replicate n load_500) @ [(Loader, 0), (Loader, 0), (Loader, 0)]) (shop_main_start []) = Some ?t"
    by (simp only: fold_opt_append load_500_runs bind.simps)
  moreover have "1000 \<le> store (shop_main_start []) ! 0" "length (store (shop_main_start [])) = 5"
    using random_number_range [of 1000 1200 "[] ! 0"] by (simp_all add: shop_main_start_def)
  then have "shop_act32 (Loader, 200) ?t = None"
    using random_number_range [of 300 500 200] by (simp add: shop_act32_def fits_def n_def random_number_def)
  moreover have "loader ?t = LAdd 0" by simp
  ultimately show ?thesis by (intro exI conjI)
qed

definition shopping_schedule :: "(thread \<times> nat) list" where
  "shopping_schedule =
     (Customer 0, 0) # buy 0 0 @ buy 0 1 @ buy 0 2 @
     (Customer 1, 0) # buy 1 2 @ buy 1 3 @ buy 1 4 @
     concat (replicate 6 load_500) @ (Customer 2, 0) # buy 2 0"

definition lost_update_schedule :: "(thread \<times> nat) list" where
  "lost_update_schedule = shopping_schedule @
     [(Customer 0, 0), (Customer 1, 0), (Customer 0, 0), (Customer 1, 0), (Customer 2, 0), (Customer 2, 0)]"

definition lost_update_state :: shop where
  "lost_update_state =
     \<lparr>store = [0, 0, 0, 0, 0], mutex = replicate 5 None, finished = 2, loader = LCheck,
      customers = replicate 3 \<lparr>cpc = CDone, need = 0\<rparr>\<rparr>"

lemma lost_update_run:
  "fold_opt shop_act lost_update_schedule (shop_main_start (replicate 5 200)) = Some lost_update_state"
  by code_simp

text \<open>The same shopping with the three increments one after the other, and the loader's exit.\<close>

definition good_schedule :: "(thread \<times> nat) list" where
  "good_schedule = shopping_schedule @
     [(Customer 0, 0), (Customer 0, 0), (Customer 1, 0), (Customer 1, 0), (Customer 2, 0), (Customer 2, 0),
      (Loader, 0)]"

lemma good_run:
  "fold_opt shop_act good_schedule (shop_main_start (replicate 5 200))
   = Some (lost_update_state\<lparr>finished := 3, loader := LDone\<rparr>)"
  by code_simp

section \<open>Properties\<close>

text \<open>
  C5.  Mutual exclusion: in every reachable state of the shop at most one thread is
  between \<open>pthread_mutex_lock\<close> and \<open>pthread_mutex_unlock\<close> of the same store.
\<close>

theorem shop_mutual_exclusion:
  assumes "shop_start s" "shop_step\<^sup>*\<^sup>* s s'" "critical s' t j" "critical s' u j"
  shows "t = u"
  using assms by (rule shop.exclusion)

definition one_in_section :: shop where
  "one_in_section = (shop_main_start [])
     \<lparr>mutex := [None, None, Some Loader, None, None], loader := LAdd 2\<rparr>"

lemma one_in_section_run:
  "fold_opt shop_act [(Loader, 0), (Loader, 2), (Loader, 0)] (shop_main_start []) = Some one_in_section"
  by (simp add: shop_ops shop_main_start_def one_in_section_def random_index_def random_number_def
      eval_nat_numeral)

theorem shop_mutual_exclusion_witness:
  "critical one_in_section Loader 2 \<and> \<not> critical one_in_section (Customer 0) 2"
proof -
  have c: "critical one_in_section Loader 2" by (simp add: one_in_section_def)
  show ?thesis
    using c shop_mutual_exclusion [OF shop_start.start shop_run_steps [OF one_in_section_run] _ c, of "Customer 0"]
    by blast
qed

text \<open>
  C6.  Conservation and bounds: for the first 21474823 statements of the loader (seven weeks, at a
  second's sleep in every five) the 32-bit program does what \<open>shop_act\<close> says, because no
  amount leaves the range of \<open>int\<close>: stores stay between 0 and 2^31 - 1 and needs between 0 and
  3500; a statement of a customer past its start leaves the difference between the goods in
  store and the goods still needed unchanged, and a statement of the loader raises it by
  nothing or by a delivery of 300 to 500.
\<close>

theorem shop_conservation:
  assumes "loader_steps as \<le> 21474823" "fold_opt shop_act32 as (shop_main_start rs) = Some s"
  shows "fold_opt shop_act as (shop_main_start rs) = Some s \<and>
    (\<forall>j<5. 0 \<le> store s ! j \<and> store s ! j < 2 ^ 31) \<and> (\<forall>k<3. 0 \<le> need (customers s ! k) \<and> need (customers s ! k) \<le> 3500) \<and>
    (\<forall>t r s'. shop_act32 (t, r) s = Some s' \<longrightarrow> (case t of
       Customer k \<Rightarrow> cpc (customers s ! k) = CStart \<or> balance s' = balance s
     | Loader \<Rightarrow> balance s' = balance s \<or> (\<exists>d. 300 \<le> d \<and> d \<le> 500 \<and> balance s' = balance s + d))) \<and>
    (\<forall>a. loader_steps (as @ [a]) \<le> 21474823 \<longrightarrow> shop_act32 a s = shop_act a s)"
proof (intro conjI)
  show run: "fold_opt shop_act as (shop_main_start rs) = Some s" using shop_runs_agree [OF assms(1)] assms(2) by simp
  then have inv: "shop_inv s" "small_inv (loader_steps as) s" using shop_run_small by blast+
  then have sh: "shape_inv s" by (simp add: shop_inv_def)
  show "\<forall>j<5. 0 \<le> store s ! j \<and> store s ! j < 2 ^ 31" using sh small_store [OF inv(2) assms(1)] by (simp add: shape_inv_def)
  show "\<forall>k<3. 0 \<le> need (customers s ! k) \<and> need (customers s ! k) \<le> 3500" using sh inv(2) by (simp add: shape_inv_def small_inv_def)
  show "\<forall>t r s'. shop_act32 (t, r) s = Some s' \<longrightarrow> (case t of
       Customer k \<Rightarrow> cpc (customers s ! k) = CStart \<or> balance s' = balance s
     | Loader \<Rightarrow> balance s' = balance s \<or> (\<exists>d. 300 \<le> d \<and> d \<le> 500 \<and> balance s' = balance s + d))"
  proof (intro allI impI)
    fix t r s' assume "shop_act32 (t, r) s = Some s'"
    then have "shop_act (t, r) s = Some s'" by (simp add: shop_act32_def split: if_splits)
    then show "case t of Customer k \<Rightarrow> cpc (customers s ! k) = CStart \<or> balance s' = balance s
      | Loader \<Rightarrow> balance s' = balance s \<or> (\<exists>d. 300 \<le> d \<and> d \<le> 500 \<and> balance s' = balance s + d)"
      using loading_balance [OF sh, of r s'] purchases_balance [OF sh, of _ r s'] random_number_range [of 300 500 r]
      by (cases t) (auto split: if_splits loader_pc.splits)
  qed
  show "\<forall>a. loader_steps (as @ [a]) \<le> 21474823 \<longrightarrow> shop_act32 a s = shop_act a s"
  proof (intro allI impI)
    fix a assume "loader_steps (as @ [a]) \<le> 21474823"
    from shop_runs_agree [OF this, of rs] show "shop_act32 a s = shop_act a s"
      by (cases "shop_act a s"; cases "shop_act32 a s") (simp_all add: fold_opt_append assms(2) run)
  qed
qed

theorem shop_conservation_witness:
  "\<exists>s'. shop_act32 (Loader, 7) one_in_section = Some s' \<and>
     (balance s' = balance one_in_section \<or>
      (\<exists>d. 300 \<le> d \<and> d \<le> 500 \<and> balance s' = balance one_in_section + d))"
proof -
  let ?as = "[(Loader, 0), (Loader, 2), (Loader, 0)]"
  obtain s' where s: "shop_act (Loader, 7) one_in_section = Some s'"
    by (auto simp: one_in_section_def loading_def)
  have L: "loader_steps ?as \<le> 21474823" "loader_steps (?as @ [(Loader, 7)]) \<le> 21474823" by (simp_all add: loader_steps_def)
  have "fold_opt shop_act32 ?as (shop_main_start []) = Some one_in_section"
    using shop_runs_agree [OF L(1), of "[]"] one_in_section_run by simp
  note c = shop_conservation [OF L(1) this]
  have "shop_act32 (Loader, 7) one_in_section = Some s'" using c L(2) s by metis
  moreover have "case Loader of Customer k \<Rightarrow> cpc (customers one_in_section ! k) = CStart \<or> balance s' = balance one_in_section
     | Loader \<Rightarrow> balance s' = balance one_in_section \<or> (\<exists>d. 300 \<le> d \<and> d \<le> 500 \<and> balance s' = balance one_in_section + d)"
    using c calculation by blast
  ultimately show ?thesis by (intro exI conjI) simp_all
qed

text \<open>
  C7.  What \<open>main\<close> reports is right: whenever all four threads have ended, the counter
  is 3, every customer's need is met, every mutex is free, and the leftovers printed are
  the contents of the five stores, none of them negative.
\<close>

theorem shop_report_sound:
  assumes "shop_start s" "shop_step\<^sup>*\<^sup>* s s'" "shop_main_report s' = Some xs"
  shows "finished s' = 3 \<and> (\<forall>k<3. need (customers s' ! k) = 0) \<and>
    (\<forall>j<5. mutex s' ! j = None) \<and> map fst xs = [0..<5] \<and> map snd xs = store s' \<and> (\<forall>(j, n) \<in> set xs. 0 \<le> n)"
proof -
  have inv: "shape_inv s'" "lock_inv s'" "count_inv s'"
    using shop.reachable_inv [OF assms(1,2)] by (simp_all add: shop_inv_def)
  have l: "length (store s') = 5" "length (customers s') = 3" using inv(1) by (simp_all add: shape_inv_def)
  from assms(3) have ld: "loader s' = LDone" and dn: "\<forall>k<3. cpc (customers s' ! k) = CDone"
    and xs: "xs = zip [0..<5] (store s')"
    using l by (auto simp: shop_main_report_def split: if_splits)
  have "\<not> critical s' t j" for t j using ld dn by (cases t) auto
  then have "mutex s' ! j = None" if "j < 5" for j
    using lock_inv_owner [OF inv(2) that] by (cases "mutex s' ! j") auto
  moreover have "0 \<le> n" if "(j, n) \<in> set xs" for j n
    using that inv(1) l xs by (auto simp: shape_inv_def set_zip)
  ultimately show ?thesis using inv(3) ld dn xs l by (auto simp: count_inv_def)
qed

theorem shop_report_sound_witness:
  "shop_main_report (lost_update_state\<lparr>finished := 3, loader := LDone\<rparr>) = Some (zip [0..<5] [0, 0, 0, 0, 0]) \<and>
   need (customers (lost_update_state\<lparr>finished := 3, loader := LDone\<rparr>) ! 2) = 0"
proof -
  have r: "shop_main_report (lost_update_state\<lparr>finished := 3, loader := LDone\<rparr>) = Some (zip [0..<5] [0, 0, 0, 0, 0])"
    by (simp add: shop_main_report_def lost_update_state_def)
  show ?thesis
    using r shop_report_sound [OF shop_start.start shop_run_steps [OF good_run] r] by simp
qed

text \<open>
  The increment of the counter is not guarded by any mutex, and an update can be
  lost: a schedule of the threads leads to a state in which all three customers have
  ended with their needs met and the counter is 2; from there the loader never ends
  under any schedule, so \<open>main\<close> never reports.
\<close>

theorem shop_lost_update:
  "\<exists>s s'. shop_start s \<and> shop_step\<^sup>*\<^sup>* s s' \<and>
     (\<forall>k<3. cpc (customers s' ! k) = CDone \<and> need (customers s' ! k) = 0) \<and> finished s' = 2 \<and>
     (\<forall>t. shop_step\<^sup>*\<^sup>* s' t \<longrightarrow> loader t \<noteq> LDone \<and> shop_main_report t = None)"
proof -
  let ?s = "shop_main_start (replicate 5 200)"
  have st: "starved lost_update_state" by (auto simp: starved_def lost_update_state_def)
  have "loader t \<noteq> LDone \<and> shop_main_report t = None" if "shop_step\<^sup>*\<^sup>* lost_update_state t" for t
    using starved_steps [OF that st] by (simp add: starved_def shop_main_report_def)
  moreover have "\<forall>k<3. cpc (customers lost_update_state ! k) = CDone \<and> need (customers lost_update_state ! k) = 0"
    by (simp add: lost_update_state_def)
  moreover have "finished lost_update_state = 2" by (simp add: lost_update_state_def)
  ultimately show ?thesis
    using shop_start.start shop_run_steps [OF lost_update_run] by blast
qed

theorem shop_lost_update_witness: "\<exists>s. shop_start s \<and> (\<exists>s'. shop_step\<^sup>*\<^sup>* s s' \<and> finished s' = 2)"
  using shop_lost_update by blast

end
