(* ===== verification/ShopLiveness.thy ===== *)
theory ShopLiveness
  imports Shop
begin

text \<open>
  Progress in the shop of Shop: no reachable state is a deadlock, and from every reachable
  state all customers can still finish.  The proofs drive single threads: the owner of a
  mutex can always leave its section, the loader can always deliver to the first store,
  and a customer that finds goods there needs less afterwards.
\<close>

lemma inv_parts:
  assumes "shop_inv s"
  shows "length (store s) = 5" "length (mutex s) = 5" "length (customers s) = 3" "shape_inv s" "lock_inv s" "count_inv s"
  using assms by (simp_all add: shop_inv_def shape_inv_def)

lemma load_step: "loading r s = Some t \<Longrightarrow> shop_step s t"
  by (rule shop_step.act [of "(Loader, r)"]) simp

lemma buy_step: "k < 3 \<Longrightarrow> purchases k r s = Some t \<Longrightarrow> shop_step s t"
  by (rule shop_step.act [of "(Customer k, r)"]) simp

lemmas step_step = converse_rtranclp_into_rtranclp [OF _ r_into_rtranclp]

text \<open>The owner of a mutex, if there is one, leaves its section; nobody else moves.\<close>

lemma free_mutex:
  assumes "shop_inv s" "j < 5"
  shows "\<exists>t. shop_step\<^sup>*\<^sup>* s t \<and> mutex t ! j = None \<and> (loader_holds (loader s) \<noteq> Some j \<longrightarrow> loader t = loader s) \<and>
    (\<forall>k<3. customer_holds (cpc (customers s ! k)) \<noteq> Some j \<longrightarrow> customers t ! k = customers s ! k)"
proof (cases "mutex s ! j")
  case None
  then show ?thesis by blast
next
  case (Some u)
  note p = inv_parts [OF assms(1)]
  have c: "critical s u j" using lock_inv_owner [OF p(5) assms(2)] Some by blast
  show ?thesis
  proof (cases u)
    case Loader
    then consider "loader s = LAdd j" | "loader s = LUnlock j" using c by (cases "loader s") auto
    then show ?thesis
    proof cases
      case 1
      let ?s1 = "s\<lparr>store := (store s)[j := store s ! j + random_number 0 300 500], loader := LUnlock j\<rparr>"
      have "loading 0 s = Some ?s1" using 1 by (simp add: loading_def)
      moreover have "loading 0 ?s1 = Some ((unlock j ?s1)\<lparr>loader := LCheck\<rparr>)" by (simp add: loading_def)
      ultimately have "shop_step\<^sup>*\<^sup>* s ((unlock j ?s1)\<lparr>loader := LCheck\<rparr>)" by (blast intro: step_step load_step)
      then show ?thesis using 1 p(2) assms(2) by (intro exI conjI) (assumption | simp add: unlock_def)+
    next
      case 2
      then have "loading 0 s = Some ((unlock j s)\<lparr>loader := LCheck\<rparr>)" by (simp add: loading_def)
      then have "shop_step\<^sup>*\<^sup>* s ((unlock j s)\<lparr>loader := LCheck\<rparr>)" by (blast intro: load_step)
      then show ?thesis using 2 p(2) assms(2) by (intro exI conjI) (assumption | simp add: unlock_def)+
    qed
  next
    case (Customer i)
    then have i: "i < 3" "customer_holds (cpc (customers s ! i)) = Some j" using c by auto
    have leave: "\<exists>t. shop_step\<^sup>*\<^sup>* s1 t \<and> mutex t ! j = None \<and> loader t = loader s1 \<and>
        (\<forall>k<3. k \<noteq> i \<longrightarrow> customers t ! k = customers s1 ! k)"
      if "cpc (customers s1 ! i) = CUnlock j" "length (mutex s1) = 5" for s1
    proof -
      have "purchases i 0 s1 = Some (goto i CCheck (unlock j s1))" using that by (simp add: purchases_def Let_def)
      then have "shop_step\<^sup>*\<^sup>* s1 (goto i CCheck (unlock j s1))" using i by (blast intro: buy_step)
      then show ?thesis using that(2) assms(2)
        by (intro exI conjI) (assumption | simp add: goto_def set_customer_def unlock_def)+
    qed
    have "cpc (customers s ! i) = CBuy j \<or> cpc (customers s ! i) = CUnlock j"
      using i(2) by (cases "cpc (customers s ! i)") auto
    then obtain s1 where s1: "shop_step\<^sup>*\<^sup>* s s1" "cpc (customers s1 ! i) = CUnlock j" "length (mutex s1) = 5"
        "loader s1 = loader s" "\<forall>k<3. k \<noteq> i \<longrightarrow> customers s1 ! k = customers s ! k"
    proof
      assume b: "cpc (customers s ! i) = CBuy j"
      then obtain s1 where "purchases i 0 s = Some s1" "cpc (customers s1 ! i) = CUnlock j" "length (mutex s1) = 5"
          "loader s1 = loader s" "\<forall>k<3. k \<noteq> i \<longrightarrow> customers s1 ! k = customers s ! k"
        using p(2,3) i(1) by (auto simp: purchases_def Let_def set_customer_def)
      then show thesis using that i(1) by (blast intro: buy_step)
    qed (use p(2) in auto)
    from leave [OF s1(2,3)] obtain t where "shop_step\<^sup>*\<^sup>* s1 t" "mutex t ! j = None" "loader t = loader s1"
        "\<forall>k<3. k \<noteq> i \<longrightarrow> customers t ! k = customers s1 ! k" by blast
    with s1 show ?thesis using i by (metis rtranclp_trans)
  qed
qed

section \<open>The loader delivers\<close>

lemmas keep = shop.steps_keep

lemma random_index_0 [simp]: "random_index 0 = 0"
  by (simp add: random_index_def random_number_def)

text \<open>Inside the section the loader adds at least 300 and leaves.\<close>

lemma loader_adds:
  assumes "shop_inv s" "loader s = LAdd j" "j < 5"
  shows "\<exists>t. shop_step\<^sup>*\<^sup>* s t \<and> customers t = customers s \<and> loader t = LCheck \<and> mutex t ! j = None \<and> 0 < store t ! j"
proof -
  note p = inv_parts [OF assms(1)]
  let ?s1 = "s\<lparr>store := (store s)[j := store s ! j + random_number 0 300 500], loader := LUnlock j\<rparr>"
  let ?t = "(unlock j ?s1)\<lparr>loader := LCheck\<rparr>"
  have "loading 0 s = Some ?s1" using assms(2) by (simp add: loading_def)
  moreover have "loading 0 ?s1 = Some ?t" by (simp add: loading_def)
  ultimately have "shop_step\<^sup>*\<^sup>* s ?t" by (blast intro: step_step load_step)
  moreover have "0 \<le> store s ! j" using p(4) assms(3) by (simp add: shape_inv_def)
  ultimately show ?thesis
    using random_number_range [of 300 500 0] p(1,2) assms(3) by (intro exI [of _ ?t]) (simp add: unlock_def)
qed

lemma loader_locks:
  assumes "shop_inv s" "loader s = LLock j" "j < 5" "k < 3" "cpc (customers s ! k) = CPick"
  shows "\<exists>t. shop_step\<^sup>*\<^sup>* s t \<and> customers t ! k = customers s ! k \<and> loader t = LCheck \<and> mutex t ! j = None \<and> 0 < store t ! j"
proof -
  obtain u where u: "shop_step\<^sup>*\<^sup>* s u" "mutex u ! j = None" "loader u = LLock j" "customers u ! k = customers s ! k"
    using free_mutex [OF assms(1,3)] assms(2,4,5) by auto
  let ?v = "(u\<lparr>mutex := (mutex u)[j := Some Loader]\<rparr>)\<lparr>loader := LAdd j\<rparr>"
  have "loading 0 u = Some ?v" using u(2,3) by (simp add: loading_def lock_def)
  with u(1) have v: "shop_step\<^sup>*\<^sup>* s ?v" by (blast intro: rtranclp.rtrancl_into_rtrancl load_step)
  from loader_adds [OF keep [OF v assms(1)] _ assms(3)] obtain t where
    "shop_step\<^sup>*\<^sup>* ?v t" "customers t = customers u" "loader t = LCheck" "mutex t ! j = None" "0 < store t ! j" by auto
  with v u(4) show ?thesis by (metis rtranclp_trans)
qed

lemma not_all_done:
  assumes "k < 3" "cpc (customers s ! k) \<noteq> CDone"
  shows "done_count s \<le> 2"
proof -
  have "k = 0 \<or> k = 1 \<or> k = 2" using assms(1) by auto
  then show ?thesis using assms(2) by (auto simp: done_count_def eval_nat_numeral of_bool_def)
qed

lemma loader_picks:
  assumes "shop_inv s" "loader s = LCheck" "k < 3" "cpc (customers s ! k) = CPick"
  shows "\<exists>t. shop_step\<^sup>*\<^sup>* s t \<and> customers t = customers s \<and> loader t = LLock 0"
proof -
  have "done_count s \<le> 2" using not_all_done [OF assms(3)] assms(4) by simp
  then have "finished s < 3" using inv_parts(6) [OF assms(1)] by (simp add: count_inv_def)
  then have "loading 0 s = Some (s\<lparr>loader := LPick\<rparr>)" using assms(2) by (simp add: loading_def)
  moreover have "loading 0 (s\<lparr>loader := LPick\<rparr>) = Some (s\<lparr>loader := LLock 0\<rparr>)" by (simp add: loading_def)
  ultimately have "shop_step\<^sup>*\<^sup>* s (s\<lparr>loader := LLock 0\<rparr>)" by (blast intro: step_step load_step)
  then show ?thesis by (intro exI conjI) (assumption | simp)+
qed

lemma loader_checks:
  assumes "shop_inv s" "k < 3" "cpc (customers s ! k) = CPick"
  shows "\<exists>t. shop_step\<^sup>*\<^sup>* s t \<and> customers t ! k = customers s ! k \<and> loader t = LCheck"
proof (cases "loader s")
  case LCheck
  then show ?thesis by blast
next
  case LPick
  let ?u = "s\<lparr>loader := LLock 0\<rparr>"
  have "loading 0 s = Some ?u" using LPick by (simp add: loading_def)
  then have u: "shop_step\<^sup>*\<^sup>* s ?u" by (blast intro: load_step)
  from loader_locks [OF keep [OF u assms(1)], of 0 k] assms(2,3) obtain t where
    "shop_step\<^sup>*\<^sup>* ?u t" "customers t ! k = customers s ! k" "loader t = LCheck" by auto
  with u show ?thesis by (metis rtranclp_trans)
next
  case (LLock j)
  then have "j < 5" using inv_parts(4) [OF assms(1)] by (simp add: shape_inv_def)
  from loader_locks [OF assms(1) LLock this assms(2,3)] show ?thesis by blast
next
  case (LAdd j)
  then have "j < 5" using inv_parts(4) [OF assms(1)] by (simp add: shape_inv_def)
  from loader_adds [OF assms(1) LAdd this] show ?thesis by auto
next
  case (LUnlock j)
  then have "loading 0 s = Some ((unlock j s)\<lparr>loader := LCheck\<rparr>)" by (simp add: loading_def)
  then have "shop_step\<^sup>*\<^sup>* s ((unlock j s)\<lparr>loader := LCheck\<rparr>)" by (blast intro: load_step)
  then show ?thesis by (intro exI conjI) (assumption | simp add: unlock_def)+
next
  case LDone
  then have "done_count s = 3" using inv_parts(6) [OF assms(1)] by (simp add: count_inv_def)
  then show ?thesis using not_all_done [OF assms(2), of s] assms(3) by simp
qed

lemma loader_delivers:
  assumes "shop_inv s" "k < 3" "cpc (customers s ! k) = CPick"
  shows "\<exists>t. shop_step\<^sup>*\<^sup>* s t \<and> customers t ! k = customers s ! k \<and> mutex t ! 0 = None \<and> 0 < store t ! 0"
proof -
  obtain u where u: "shop_step\<^sup>*\<^sup>* s u" "customers u ! k = customers s ! k" "loader u = LCheck"
    using loader_checks [OF assms] by blast
  obtain v where v: "shop_step\<^sup>*\<^sup>* u v" "customers v = customers u" "loader v = LLock 0"
    using loader_picks [OF keep [OF u(1) assms(1)] u(3) assms(2)] u(2) assms(3) by auto
  have sv: "shop_step\<^sup>*\<^sup>* s v" using u(1) v(1) by simp
  obtain t where "shop_step\<^sup>*\<^sup>* v t" "customers t ! k = customers v ! k" "mutex t ! 0 = None" "0 < store t ! 0"
    using loader_locks [OF keep [OF sv assms(1)] v(3) _ assms(2)] u(2) v(2) assms(3) by auto
  with sv u(2) v(2) show ?thesis by (metis rtranclp_trans)
qed

section \<open>A customer finishes\<close>

lemma buy_steps:
  "k < 3 \<Longrightarrow> purchases k r s = Some t \<Longrightarrow> shop_step\<^sup>*\<^sup>* t u \<Longrightarrow> shop_step\<^sup>*\<^sup>* s u"
  by (blast intro: converse_rtranclp_into_rtranclp buy_step)

text \<open>With goods in the free first store, a round of the customer reduces its need.\<close>

lemma customer_buys:
  assumes "shop_inv s" "k < 3" "cpc (customers s ! k) = CPick" "mutex s ! 0 = None" "0 < store s ! 0" "0 < need (customers s ! k)"
  shows "\<exists>t. shop_step\<^sup>*\<^sup>* s t \<and> cpc (customers t ! k) = CCheck \<and> need (customers t ! k) < need (customers s ! k)"
proof -
  note p = inv_parts [OF assms(1)]
  have k: "k < length (customers s)" using p(3) assms(2) by simp
  let ?s1 = "goto k (CTest 0) s"
  let ?s2 = "goto k (CLock 0) ?s1"
  let ?s3 = "goto k (CBuy 0) (?s2\<lparr>mutex := (mutex s)[0 := Some (Customer k)]\<rparr>)"
  obtain s4 where s4: "purchases k 0 ?s3 = Some s4" "cpc (customers s4 ! k) = CUnlock 0"
      "need (customers s4 ! k) < need (customers s ! k)" "length (customers s4) = 3"
    using k p(3) assms(5,6) by (simp add: purchases_def Let_def goto_def set_customer_def)
  let ?s5 = "goto k CCheck (unlock 0 s4)"
  have 1: "purchases k 0 s = Some ?s1" using assms(3) by (simp add: purchases_def Let_def)
  have 2: "purchases k 0 ?s1 = Some ?s2"
    using k assms(5) by (simp add: purchases_def Let_def goto_def set_customer_def)
  have 3: "purchases k 0 ?s2 = Some ?s3"
    using k assms(4) by (simp add: purchases_def Let_def goto_def set_customer_def lock_def)
  have 5: "purchases k 0 s4 = Some ?s5" using s4(2) by (simp add: purchases_def Let_def)
  note b = buy_steps [OF assms(2)]
  have "shop_step\<^sup>*\<^sup>* s ?s5" by (rule b [OF 1 b [OF 2 b [OF 3 b [OF s4(1) b [OF 5]]]]]) simp
  then show ?thesis using s4(2-4) assms(2)
    by (intro exI conjI) (assumption | simp add: goto_def set_customer_def unlock_def)+
qed

lemma customer_leaves:
  assumes "shop_inv s" "k < 3" "cpc (customers s ! k) = CCheck" "need (customers s ! k) = 0"
  shows "\<exists>t. shop_step\<^sup>*\<^sup>* s t \<and> cpc (customers t ! k) = CDone"
proof -
  have k: "k < length (customers s)" using inv_parts(3) [OF assms(1)] assms(2) by simp
  let ?s1 = "goto k CRead s"
  let ?s2 = "goto k (CWrite (finished s)) ?s1"
  let ?s3 = "goto k CDone (?s2\<lparr>finished := finished s + 1\<rparr>)"
  have 1: "purchases k 0 s = Some ?s1" using assms(3,4) by (simp add: purchases_def Let_def)
  have 2: "purchases k 0 ?s1 = Some ?s2" using k by (simp add: purchases_def Let_def goto_def set_customer_def)
  have 3: "purchases k 0 ?s2 = Some ?s3" using k by (simp add: purchases_def Let_def goto_def set_customer_def)
  note b = buy_steps [OF assms(2)]
  have "shop_step\<^sup>*\<^sup>* s ?s3" by (rule b [OF 1 b [OF 2 b [OF 3]]]) simp
  then show ?thesis using k by (intro exI conjI) (assumption | simp add: goto_def set_customer_def)+
qed

lemma customer_shops:
  assumes "shop_inv s" "k < 3" "cpc (customers s ! k) = CCheck"
  shows "\<exists>t. shop_step\<^sup>*\<^sup>* s t \<and> cpc (customers t ! k) = CDone"
  using assms
proof (induction "nat (need (customers s ! k))" arbitrary: s rule: less_induct)
  case less
  show ?case
  proof (cases "need (customers s ! k) = 0")
    case True
    with less.prems show ?thesis by (rule customer_leaves)
  next
    case False
    then have n: "0 < need (customers s ! k)"
      using inv_parts(4) [OF less.prems(1)] less.prems(2) by (simp add: shape_inv_def) (metis order_le_imp_less_or_eq)
    let ?u = "goto k CPick s"
    have k: "k < length (customers s)" using inv_parts(3) [OF less.prems(1)] less.prems(2) by simp
    have "purchases k 0 s = Some ?u" using less.prems(3) False by (simp add: purchases_def Let_def)
    then have u: "shop_step\<^sup>*\<^sup>* s ?u" using less.prems(2) by (blast intro: buy_step)
    have cu: "cpc (customers ?u ! k) = CPick" "need (customers ?u ! k) = need (customers s ! k)"
      using k by (simp_all add: goto_def set_customer_def)
    obtain v where v: "shop_step\<^sup>*\<^sup>* ?u v" "customers v ! k = customers ?u ! k" "mutex v ! 0 = None" "0 < store v ! 0"
      using loader_delivers [OF keep [OF u less.prems(1)] less.prems(2) cu(1)] by blast
    have sv: "shop_step\<^sup>*\<^sup>* s v" using u v(1) by simp
    obtain w where w: "shop_step\<^sup>*\<^sup>* v w" "cpc (customers w ! k) = CCheck" "need (customers w ! k) < need (customers v ! k)"
      using customer_buys [OF keep [OF sv less.prems(1)] less.prems(2) _ v(3,4)] v(2) cu n by auto
    have sw: "shop_step\<^sup>*\<^sup>* s w" using sv w(1) by simp
    have "nat (need (customers w ! k)) < nat (need (customers s ! k))" using w(3) v(2) cu(2) n by simp
    from less.hyps [OF this keep [OF sw less.prems(1)] less.prems(2) w(2)] sw show ?thesis
      by (metis rtranclp_trans)
  qed
qed
lemma customer_reaches_check:
  assumes "shop_inv s" "k < 3"
  shows "\<exists>t. shop_step\<^sup>*\<^sup>* s t \<and> (cpc (customers t ! k) = CCheck \<or> cpc (customers t ! k) = CDone)"
proof -
  note b = buy_steps [OF assms(2)]
  note fields = goto_def set_customer_def unlock_def
  have unlock: "\<exists>t. shop_step\<^sup>*\<^sup>* u t \<and> cpc (customers t ! k) = CCheck"
    if "cpc (customers u ! k) = CUnlock j" "length (customers u) = 3" for u j
  proof -
    have "purchases k 0 u = Some (goto k CCheck (unlock j u))" using that(1) by (simp add: purchases_def Let_def)
    from b [OF this rtranclp.rtrancl_refl] show ?thesis
      using that(2) assms(2) by (intro exI conjI) (assumption | simp add: fields)+
  qed
  have buy: "\<exists>t. shop_step\<^sup>*\<^sup>* u t \<and> cpc (customers t ! k) = CCheck"
    if c: "cpc (customers u ! k) = CBuy j" "length (customers u) = 3" for u j
  proof -
    obtain v where v: "purchases k 0 u = Some v" "cpc (customers v ! k) = CUnlock j" "length (customers v) = 3"
      using c assms(2) by (auto simp: purchases_def Let_def set_customer_def)
    from unlock [OF v(2,3)] b [OF v(1)] show ?thesis by blast
  qed
  have lock: "\<exists>t. shop_step\<^sup>*\<^sup>* u t \<and> cpc (customers t ! k) = CCheck"
    if c: "cpc (customers u ! k) = CLock j" "shop_inv u" for u j
  proof -
    have "j < 5" using inv_parts(4) [OF c(2)] c(1) assms(2) by (simp add: shape_inv_def)
    moreover have "customer_holds (cpc (customers u ! k)) \<noteq> Some j" using c(1) by simp
    ultimately obtain v where
      v: "shop_step\<^sup>*\<^sup>* u v" "mutex v ! j = None" "customers v ! k = customers u ! k"
      using free_mutex [OF c(2)] assms(2) by blast
    have len: "length (customers v) = 3" using inv_parts(3) [OF keep [OF v(1) c(2)]] .
    let ?w = "goto k (CBuy j) (v\<lparr>mutex := (mutex v)[j := Some (Customer k)]\<rparr>)"
    have "purchases k 0 v = Some ?w" using v(2,3) c(1) by (simp add: purchases_def Let_def lock_def)
    moreover have "cpc (customers ?w ! k) = CBuy j" "length (customers ?w) = 3"
      using len assms(2) by (simp_all add: goto_def set_customer_def)
    ultimately show ?thesis using buy [of ?w j] b [of 0 v ?w] v(1) by (metis rtranclp_trans)
  qed
  have pick: "\<exists>t. shop_step\<^sup>*\<^sup>* u t \<and> cpc (customers t ! k) = CCheck"
    if u: "cpc (customers u ! k) = CPick" "shop_inv u" for u
  proof -
    obtain v where v: "shop_step\<^sup>*\<^sup>* u v" "customers v ! k = customers u ! k" "mutex v ! 0 = None" "0 < store v ! 0"
      using loader_delivers [OF u(2) assms(2) u(1)] by blast
    have i: "shop_inv v" by (rule keep [OF v(1) u(2)])
    have len: "length (customers v) = 3" by (rule inv_parts(3) [OF i])
    let ?w = "goto k (CLock 0) (goto k (CTest 0) v)"
    have 1: "purchases k 0 v = Some (goto k (CTest 0) v)" using v(2) u(1) by (simp add: purchases_def Let_def)
    have 2: "purchases k 0 (goto k (CTest 0) v) = Some ?w"
      using v(4) len assms(2) by (simp add: purchases_def Let_def goto_def set_customer_def)
    have w: "shop_step\<^sup>*\<^sup>* v ?w" by (rule b [OF 1 b [OF 2]]) simp
    have "cpc (customers ?w ! k) = CLock 0" using len assms(2) by (simp add: goto_def set_customer_def)
    from lock [OF this keep [OF w i]] v(1) w show ?thesis by (metis rtranclp_trans)
  qed
  have move: "\<exists>t. shop_step\<^sup>*\<^sup>* s t \<and> (cpc (customers t ! k) = CCheck \<or> cpc (customers t ! k) = CDone)"
    if "purchases k 0 s = Some u"
      "\<exists>t. shop_step\<^sup>*\<^sup>* u t \<and> (cpc (customers t ! k) = CCheck \<or> cpc (customers t ! k) = CDone)" for u
    using b [OF that(1)] that(2) by blast
  have inv: "shop_inv u" if "purchases k 0 s = Some u" for u
    using b [OF that rtranclp.rtrancl_refl] keep assms(1) by blast
  have k: "k < length (customers s)" using inv_parts(3) [OF assms(1)] assms(2) by simp
  have len: "length (customers s) = 3" by (rule inv_parts(3) [OF assms(1)])
  show ?thesis
  proof (cases "cpc (customers s ! k)")
    case CStart
    let ?u = "set_customer k \<lparr>cpc = CPick, need = random_number 0 3000 3500\<rparr> s"
    have u: "purchases k 0 s = Some ?u" using CStart by (simp add: purchases_def Let_def)
    have "cpc (customers ?u ! k) = CPick" using k by (simp add: set_customer_def)
    from pick [OF this inv [OF u]] show ?thesis by (intro move [OF u]) blast
  next
    case CPick
    from pick [OF this assms(1)] show ?thesis by blast
  next
    case (CTest j)
    let ?u = "goto k (if store s ! j = 0 then CPick else CLock j) s"
    have u: "purchases k 0 s = Some ?u" using CTest by (simp add: purchases_def Let_def)
    have "cpc (customers ?u ! k) = CPick \<or> cpc (customers ?u ! k) = CLock j" using k by (simp add: goto_def set_customer_def)
    with pick [OF _ inv [OF u]] lock [OF _ inv [OF u]] show ?thesis by (intro move [OF u]) blast
  next
    case (CLock j)
    from lock [OF this assms(1)] show ?thesis by blast
  next
    case (CBuy j)
    from buy [OF this len] show ?thesis by blast
  next
    case (CUnlock j)
    from unlock [OF this len] show ?thesis by blast
  next
    case CRead
    let ?u = "goto k (CWrite (finished s)) s"
    let ?v = "goto k CDone (?u\<lparr>finished := finished s + 1\<rparr>)"
    have 1: "purchases k 0 s = Some ?u" using CRead by (simp add: purchases_def Let_def)
    have 2: "purchases k 0 ?u = Some ?v" using k by (simp add: purchases_def Let_def goto_def set_customer_def)
    have "shop_step\<^sup>*\<^sup>* s ?v" by (rule b [OF 1 b [OF 2]]) simp
    then show ?thesis using k by (intro exI conjI) (assumption | simp add: goto_def set_customer_def)+
  next
    case (CWrite v)
    let ?v = "goto k CDone (s\<lparr>finished := v + 1\<rparr>)"
    have "purchases k 0 s = Some ?v" using CWrite by (simp add: purchases_def Let_def)
    from b [OF this rtranclp.rtrancl_refl] show ?thesis
      using k by (intro exI conjI) (assumption | simp add: goto_def set_customer_def)+
  qed blast+
qed

lemma customer_finishes:
  assumes "shop_inv s" "k < 3"
  shows "\<exists>t. shop_step\<^sup>*\<^sup>* s t \<and> cpc (customers t ! k) = CDone"
  using customer_reaches_check [OF assms] customer_shops [OF keep [OF _ assms(1)] assms(2)] rtranclp_trans by metis

text \<open>A customer that is done stays so.\<close>

lemma done_step:
  assumes "shop_step s t" "cpc (customers s ! k) = CDone" "k < length (customers s)"
  shows "cpc (customers t ! k) = CDone \<and> length (customers t) = length (customers s)"
proof -
  obtain a where "shop_act a s = Some t" using assms(1) by (auto elim: shop_stepE)
  moreover have "cpc (customers t ! k) = CDone \<and> length (customers t) = length (customers s)" if "loading r s = Some t" for r
    using that assms(2) by (auto simp: shop_ops split: loader_pc.splits if_splits)
  moreover have "cpc (customers t ! k) = CDone \<and> length (customers t) = length (customers s)" if p: "purchases i r s = Some t" for i r
  proof (cases "i = k")
    case True
    with p assms(2) show ?thesis by (simp add: purchases_def Let_def)
  next
    case False
    then show ?thesis using p assms(2)
      by (cases "cpc (customers s ! i)") (auto simp: shop_ops split: if_splits)
  qed
  ultimately show ?thesis by (cases a; cases "fst a") (auto split: if_splits)
qed

lemma done_steps:
  "shop_step\<^sup>*\<^sup>* s t \<Longrightarrow> cpc (customers s ! k) = CDone \<Longrightarrow> k < length (customers s) \<Longrightarrow>
   cpc (customers t ! k) = CDone \<and> k < length (customers t)"
  by (induction rule: rtranclp_induct) (use done_step in auto)

section \<open>Properties\<close>

text \<open>
  C8.  No deadlock, and everybody can finish: a reachable state in which \<open>main\<close> still waits
  has a next step, and from every reachable state the threads can be scheduled so that all
  three customers end with their needs met.
\<close>

theorem shop_progress:
  assumes "shop_start s" "shop_step\<^sup>*\<^sup>* s s'"
  shows "(shop_main_report s' = None \<longrightarrow> (\<exists>t. shop_step s' t)) \<and>
    (\<exists>t. shop_step\<^sup>*\<^sup>* s' t \<and> (\<forall>k<3. cpc (customers t ! k) = CDone \<and> need (customers t ! k) = 0))"
proof
  have inv: "shop_inv s'" by (rule shop.reachable_inv [OF assms])
  obtain t0 where t0: "shop_step\<^sup>*\<^sup>* s' t0" "cpc (customers t0 ! 0) = CDone" using customer_finishes [OF inv, of 0] by auto
  obtain t1 where t1: "shop_step\<^sup>*\<^sup>* t0 t1" "cpc (customers t1 ! 1) = CDone"
    using customer_finishes [OF keep [OF t0(1) inv], of 1] by auto
  have s1: "shop_step\<^sup>*\<^sup>* s' t1" using t0(1) t1(1) by simp
  obtain t2 where t2: "shop_step\<^sup>*\<^sup>* t1 t2" "cpc (customers t2 ! 2) = CDone"
    using customer_finishes [OF keep [OF s1 inv], of 2] by auto
  have s2: "shop_step\<^sup>*\<^sup>* s' t2" "shop_step\<^sup>*\<^sup>* t0 t2" using s1 t1(1) t2(1) by auto
  have i2: "shop_inv t2" by (rule keep [OF s2(1) inv])
  have "cpc (customers t2 ! 0) = CDone" using done_steps [OF s2(2) t0(2)] inv_parts(3) [OF keep [OF t0(1) inv]] by simp
  moreover have "cpc (customers t2 ! 1) = CDone" using done_steps [OF t2(1) t1(2)] inv_parts(3) [OF keep [OF s1 inv]] by simp
  ultimately have d: "cpc (customers t2 ! k) = CDone" if "k < 3" for k
    using t2(2) that unfolding less_3_iff by auto
  then have "need (customers t2 ! k) = 0" if "k < 3" for k using inv_parts(6) [OF i2] that by (simp add: count_inv_def)
  with s2(1) d show "\<exists>t. shop_step\<^sup>*\<^sup>* s' t \<and> (\<forall>k<3. cpc (customers t ! k) = CDone \<and> need (customers t ! k) = 0)" by blast
  show "shop_main_report s' = None \<longrightarrow> (\<exists>t. shop_step s' t)"
  proof
    assume r: "shop_main_report s' = None"
    show "\<exists>t. shop_step s' t"
    proof (cases "\<exists>k<3. cpc (customers s' ! k) \<noteq> CDone")
      case True
      then show ?thesis using customer_finishes [OF inv] by (metis converse_rtranclpE)
    next
      case False
      then have "\<forall>c \<in> set (customers s'). cpc c = CDone" using inv_parts(3) [OF inv] by (metis in_set_conv_nth)
      with r have l: "loader s' \<noteq> LDone" by (auto simp: shop_main_report_def)
      have "mutex s' ! j = None" if "loader s' = LLock j" for j
      proof -
        have j: "j < 5" using inv_parts(4) [OF inv] that by (simp add: shape_inv_def)
        have "\<not> critical s' u j" for u using False that by (cases u) auto
        then show ?thesis using lock_inv_owner [OF inv_parts(5) [OF inv] j] by (cases "mutex s' ! j") auto
      qed
      then have "\<exists>t. loading 0 s' = Some t" using l by (cases "loader s'") (auto simp: loading_def lock_def)
      then show ?thesis by (blast intro: load_step)
    qed
  qed
qed

theorem shop_progress_witness:
  "\<exists>t. shop_step\<^sup>*\<^sup>* one_in_section t \<and> cpc (customers t ! 2) = CDone \<and> need (customers t ! 2) = 0"
  using shop_progress [OF shop_start.start shop_run_steps [OF one_in_section_run]] by auto

end
