(* ===== verification/OneTimeInit.thy ===== *)
theory OneTimeInit
  imports Prelude
begin

text \<open>
  \<open>C/one_time_init\<close>: \<open>one_time_init(c, init)\<close> runs \<open>init\<close> once per control block.  A
  state holds the control block (\<open>indicator\<close> and the owner of \<open>mutex\<close>, a default,
  non-recursive mutex), the number of times \<open>init\<close> has been run, and for every thread
  the statement it executes next.  Any number of threads may call the function any
  number of times.  The branch that finds the indicator set returns 1 without unlocking.
\<close>

datatype once_pc =
  Outside                 \<comment> \<open>no call made yet\<close>
| AtLock                  \<comment> \<open>\<open>pthread_mutex_lock(&c -> mutex)\<close>\<close>
| AtTest                  \<comment> \<open>\<open>if (c -> indicator)\<close>\<close>
| AtInit                  \<comment> \<open>\<open>init()\<close>\<close>
| AtUnlock                \<comment> \<open>\<open>pthread_mutex_unlock(&c -> mutex)\<close>\<close>
| Returned int

record once_control =
  indicator :: bool
  once_mutex :: "nat option"

record once_state =
  control :: once_control
  init_runs :: nat
  pcs :: "nat \<Rightarrow> once_pc"

definition at_pc :: "nat \<Rightarrow> once_pc \<Rightarrow> once_state \<Rightarrow> once_state" where
  "at_pc t pc s = s\<lparr>pcs := (pcs s)(t := pc)\<rparr>"

inductive one_time_init :: "once_state \<Rightarrow> once_state \<Rightarrow> bool" where
  call: "pcs s t = Outside \<or> (\<exists>v. pcs s t = Returned v) \<Longrightarrow> one_time_init s (at_pc t AtLock s)"
| lock: "pcs s t = AtLock \<Longrightarrow> once_mutex (control s) = None \<Longrightarrow>
    one_time_init s (at_pc t AtTest (s\<lparr>control := (control s)\<lparr>once_mutex := Some t\<rparr>\<rparr>))"
| seen: "pcs s t = AtTest \<Longrightarrow> indicator (control s) \<Longrightarrow> one_time_init s (at_pc t (Returned 1) s)"
| mark: "pcs s t = AtTest \<Longrightarrow> \<not> indicator (control s) \<Longrightarrow>
    one_time_init s (at_pc t AtInit (s\<lparr>control := (control s)\<lparr>indicator := True\<rparr>\<rparr>))"
| run: "pcs s t = AtInit \<Longrightarrow> one_time_init s (at_pc t AtUnlock (s\<lparr>init_runs := Suc (init_runs s)\<rparr>))"
| unlock: "pcs s t = AtUnlock \<Longrightarrow>
    one_time_init s (at_pc t (Returned 0) (s\<lparr>control := (control s)\<lparr>once_mutex := None\<rparr>\<rparr>))"

inductive_cases one_time_initE: "one_time_init s t"

definition once_start :: once_state where
  "once_start = \<lparr>control = \<lparr>indicator = False, once_mutex = None\<rparr>, init_runs = 0, pcs = (\<lambda>_. Outside)\<rparr>"

definition inside :: "once_state \<Rightarrow> nat \<Rightarrow> unit \<Rightarrow> bool" where
  "inside s t _ \<longleftrightarrow> pcs s t = AtTest \<or> pcs s t = AtInit \<or> pcs s t = AtUnlock"

definition once_owner :: "once_state \<Rightarrow> unit \<Rightarrow> nat option" where
  "once_owner s _ = once_mutex (control s)"

definition once_inv :: "once_state \<Rightarrow> bool" where
  "once_inv s \<longleftrightarrow>
     (\<forall>t. inside s t () \<longrightarrow> once_mutex (control s) = Some t) \<and>
     (\<not> indicator (control s) \<longrightarrow> init_runs s = 0 \<and>
        (\<forall>t. pcs s t \<noteq> AtInit \<and> pcs s t \<noteq> AtUnlock \<and> (\<forall>v. pcs s t \<noteq> Returned v))) \<and>
     (indicator (control s) \<longrightarrow> init_runs s = (if \<exists>t. pcs s t = AtInit then 0 else 1)) \<and>
     (\<forall>t v. pcs s t = Returned v \<longrightarrow> v = 0 \<or> v = 1) \<and>
     ((\<exists>t. pcs s t = AtInit) \<longrightarrow> (\<forall>t v. pcs s t \<noteq> Returned v))"

lemma pcs_at_pc [simp]: "pcs (at_pc t pc s) u = (if u = t then pc else pcs s u)"
  "control (at_pc t pc s) = control s" "init_runs (at_pc t pc s) = init_runs s"
  by (simp_all add: at_pc_def)

lemma once_inv_start: "once_inv once_start"
  by (simp add: once_inv_def once_start_def inside_def)

lemma inside_unique: "once_inv s \<Longrightarrow> inside s t () \<Longrightarrow> inside s u () \<Longrightarrow> t = u"
  by (metis once_inv_def option.inject)

lemma once_inv_step:
  assumes "one_time_init s s'" "once_inv s"
  shows "once_inv s'"
  using assms
proof (induction rule: one_time_init.induct)
  case (call s t)
  then have "pcs s t \<noteq> AtInit" by auto
  then have "(\<exists>u. pcs (at_pc t AtLock s) u = AtInit) \<longleftrightarrow> (\<exists>u. pcs s u = AtInit)" by auto
  with call show ?case by (auto simp: once_inv_def inside_def split: if_splits)
next
  case (lock s t)
  then show ?case by (auto simp: once_inv_def inside_def)
next
  case (seen s t)
  then have "pcs s u \<noteq> AtInit" "pcs s u \<noteq> AtTest" "pcs s u \<noteq> AtUnlock" if "u \<noteq> t" for u
    using inside_unique [of s t u] that by (auto simp: inside_def)
  moreover from seen have "pcs s u \<noteq> AtInit" for u
    using inside_unique [of s t u] by (auto simp: inside_def)
  ultimately show ?case using seen by (auto simp: once_inv_def inside_def)
next
  case (mark s t)
  then have "pcs s u \<noteq> AtInit" "pcs s u \<noteq> AtTest" "pcs s u \<noteq> AtUnlock" if "u \<noteq> t" for u
    using inside_unique [of s t u] that by (auto simp: inside_def)
  with mark show ?case by (auto simp: once_inv_def inside_def)
next
  case (run s t)
  then have "pcs s u \<noteq> AtInit" "pcs s u \<noteq> AtTest" "pcs s u \<noteq> AtUnlock" if "u \<noteq> t" for u
    using inside_unique [of s t u] that by (auto simp: inside_def)
  with run show ?case by (auto simp: once_inv_def inside_def)
next
  case (unlock s t)
  then have "pcs s u \<noteq> AtInit" "pcs s u \<noteq> AtTest" "pcs s u \<noteq> AtUnlock" if "u \<noteq> t" for u
    using inside_unique [of s t u] that by (auto simp: inside_def)
  moreover from unlock have "pcs s u \<noteq> AtInit" for u
    using inside_unique [of s t u] by (auto simp: inside_def)
  ultimately show ?case using unlock by (auto simp: once_inv_def inside_def)
qed


interpretation once: locking "\<lambda>s. s = once_start" one_time_init once_inv inside once_owner
proof
  fix s :: once_state
  show "s = once_start \<Longrightarrow> once_inv s" by (simp add: once_inv_start)
next
  fix s t
  show "once_inv s \<Longrightarrow> one_time_init s t \<Longrightarrow> once_inv t" by (blast intro: once_inv_step)
next
  fix s t and m :: unit
  show "once_inv s \<Longrightarrow> inside s t m \<Longrightarrow> once_owner s m = Some t"
    by (cases m) (simp add: once_inv_def once_owner_def)
qed

section \<open>The path that keeps the mutex\<close>

text \<open>The mutex is owned by a thread that is no longer inside the function.\<close>

definition abandoned :: "once_state \<Rightarrow> nat \<Rightarrow> bool" where
  "abandoned s t \<longleftrightarrow> once_mutex (control s) = Some t \<and> \<not> inside s t ()"

lemma abandoned_step:
  assumes "one_time_init s s'" "once_inv s" "abandoned s t"
  shows "abandoned s' t \<and> (\<forall>u. pcs s u = AtLock \<longrightarrow> pcs s' u = AtLock)"
proof -
  have out: "\<not> inside s u ()" for u
  proof
    assume "inside s u ()"
    then have "once_mutex (control s) = Some u" using assms(2) by (simp add: once_inv_def)
    with assms(3) \<open>inside s u ()\<close> show False by (simp add: abandoned_def)
  qed
  with assms(1,3) show ?thesis
    by (cases rule: one_time_init.cases) (auto simp: abandoned_def inside_def split: if_splits)
qed

lemma abandoned_steps:
  assumes "one_time_init\<^sup>*\<^sup>* s s'" "once_inv s" "abandoned s t"
  shows "once_inv s' \<and> abandoned s' t \<and> (\<forall>u. pcs s u = AtLock \<longrightarrow> pcs s' u = AtLock)"
  using assms(1)
proof (induction rule: rtranclp_induct)
  case base
  with assms show ?case by simp
next
  case (step y z)
  then show ?case using abandoned_step [of y z t] once_inv_step [of y z] by blast
qed

lemma return_1_abandons: "one_time_init s s' \<Longrightarrow> once_inv s \<Longrightarrow> pcs s t \<noteq> Returned 1 \<Longrightarrow>
    pcs s' t = Returned 1 \<Longrightarrow> abandoned s' t"
  by (cases rule: one_time_init.cases, assumption)
     (auto simp: once_inv_def abandoned_def inside_def split: if_splits)

text \<open>A first call that returns 0, then a second call that returns 1, both by thread \<open>t\<close>.\<close>

definition after_first :: "nat \<Rightarrow> once_state" where
  "after_first t = \<lparr>control = \<lparr>indicator = True, once_mutex = None\<rparr>, init_runs = 1,
     pcs = (\<lambda>_. Outside)(t := Returned 0)\<rparr>"

definition after_second :: "nat \<Rightarrow> nat \<Rightarrow> once_state" where
  "after_second t u = \<lparr>control = \<lparr>indicator = True, once_mutex = Some u\<rparr>, init_runs = 1,
     pcs = (\<lambda>_. Outside)(t := Returned 0, u := Returned 1)\<rparr>"

lemma first_call: "one_time_init\<^sup>*\<^sup>* once_start (after_first t)"
proof -
  let ?s1 = "at_pc t AtLock once_start"
  let ?s2 = "at_pc t AtTest (?s1\<lparr>control := (control ?s1)\<lparr>once_mutex := Some t\<rparr>\<rparr>)"
  let ?s3 = "at_pc t AtInit (?s2\<lparr>control := (control ?s2)\<lparr>indicator := True\<rparr>\<rparr>)"
  let ?s4 = "at_pc t AtUnlock (?s3\<lparr>init_runs := Suc (init_runs ?s3)\<rparr>)"
  let ?s5 = "at_pc t (Returned 0) (?s4\<lparr>control := (control ?s4)\<lparr>once_mutex := None\<rparr>\<rparr>)"
  have "one_time_init once_start ?s1" by (rule one_time_init.call) (simp add: once_start_def)
  moreover have "one_time_init ?s1 ?s2" by (rule one_time_init.lock) (simp_all add: once_start_def)
  moreover have "one_time_init ?s2 ?s3" by (rule one_time_init.mark) (simp_all add: once_start_def)
  moreover have "one_time_init ?s3 ?s4" by (rule one_time_init.run) simp
  moreover have "one_time_init ?s4 ?s5" by (rule one_time_init.unlock) simp
  moreover have "?s5 = after_first t"
    by (simp add: at_pc_def after_first_def once_start_def fun_upd_def fun_eq_iff)
  ultimately show ?thesis by (metis (no_types, lifting) rtranclp.simps)
qed

definition second_test :: "nat \<Rightarrow> nat \<Rightarrow> once_state" where
  "second_test t u = (after_second t u)\<lparr>pcs := (pcs (after_second t u))(u := AtTest)\<rparr>"

lemma second_call:
  assumes "u \<noteq> t"
  shows "one_time_init\<^sup>*\<^sup>* (after_first t) (second_test t u)"
    and "one_time_init (second_test t u) (after_second t u)"
proof -
  let ?s1 = "at_pc u AtLock (after_first t)"
  let ?s2 = "at_pc u AtTest (?s1\<lparr>control := (control ?s1)\<lparr>once_mutex := Some u\<rparr>\<rparr>)"
  have "one_time_init (after_first t) ?s1"
    by (rule one_time_init.call) (simp add: after_first_def assms)
  moreover have "one_time_init ?s1 ?s2" by (rule one_time_init.lock) (simp_all add: after_first_def)
  moreover have "?s2 = second_test t u"
    using assms by (simp add: at_pc_def after_first_def after_second_def second_test_def fun_upd_def fun_eq_iff)
  ultimately show "one_time_init\<^sup>*\<^sup>* (after_first t) (second_test t u)"
    by (metis (no_types, lifting) rtranclp.simps)
  have "one_time_init (second_test t u) (at_pc u (Returned 1) (second_test t u))"
    by (rule one_time_init.seen) (simp_all add: second_test_def after_second_def)
  moreover have "at_pc u (Returned 1) (second_test t u) = after_second t u"
    by (simp add: at_pc_def after_second_def second_test_def)
  ultimately show "one_time_init (second_test t u) (after_second t u)" by simp
qed

lemma second_test_reached: "u \<noteq> t \<Longrightarrow> one_time_init\<^sup>*\<^sup>* once_start (second_test t u)"
  using first_call [of t] second_call(1) [of u t] by (rule rtranclp_trans)

section \<open>Properties\<close>

text \<open>
  C9.  \<open>one_time_init\<close> runs \<open>init\<close> at most once, whatever the threads do; no thread
  returns from it before \<open>init\<close> has run; at most one thread is between the lock and
  the end of the function.
\<close>

theorem one_time_init_once:
  assumes "one_time_init\<^sup>*\<^sup>* once_start s"
  shows "init_runs s \<le> 1 \<and> (\<forall>t v. pcs s t = Returned v \<longrightarrow> init_runs s = 1) \<and>
    (\<forall>t u. inside s t () \<longrightarrow> inside s u () \<longrightarrow> t = u)"
proof -
  have i: "once_inv s" using once.reachable_inv [OF refl assms] .
  then have "init_runs s \<le> 1 \<and> (\<forall>t v. pcs s t = Returned v \<longrightarrow> init_runs s = 1)"
    unfolding once_inv_def by (metis (full_types) le_refl zero_le)
  with inside_unique [OF i] show ?thesis by blast
qed

theorem one_time_init_once_witness: "init_runs (after_second 0 1) \<le> 1"
proof -
  have "one_time_init\<^sup>*\<^sup>* once_start (after_second 0 1)"
    using second_test_reached [of 1 0] second_call(2) [of 1 0] by (simp add: rtranclp.rtrancl_into_rtrancl)
  from one_time_init_once [OF this] show ?thesis by blast
qed

text \<open>
  The branch \<open>return 1\<close> leaves the mutex locked: from the moment a call returns 1,
  the mutex stays owned by that thread in every later state, and every thread waiting at
  the lock, then or later, waits forever.
\<close>

theorem one_time_init_leaves_locked:
  assumes "one_time_init\<^sup>*\<^sup>* once_start s" "one_time_init s s1" "pcs s t \<noteq> Returned 1" "pcs s1 t = Returned 1"
    and "one_time_init\<^sup>*\<^sup>* s1 s2" "one_time_init\<^sup>*\<^sup>* s2 s3"
  shows "once_mutex (control s2) = Some t \<and> (\<forall>u. pcs s2 u = AtLock \<longrightarrow> pcs s3 u = AtLock)"
proof -
  have i: "once_inv s" using once.reachable_inv [OF refl assms(1)] .
  have i1: "once_inv s1" using once_inv_step [OF assms(2) i] .
  have a1: "abandoned s1 t" using return_1_abandons [OF assms(2) i assms(3,4)] .
  have 2: "once_inv s2" "abandoned s2 t" using abandoned_steps [OF assms(5) i1 a1] by blast+
  then show ?thesis using abandoned_steps [OF assms(6) 2] by (auto simp: abandoned_def)
qed

theorem one_time_init_leaves_locked_witness:
  "once_mutex (control (at_pc 2 AtLock (after_second 0 1))) = Some 1 \<and>
   pcs (at_pc 3 AtLock (at_pc 2 AtLock (after_second 0 1))) 2 = AtLock"
proof -
  have w: "one_time_init\<^sup>*\<^sup>* (after_second 0 1) (at_pc 2 AtLock (after_second 0 1))"
    by (rule r_into_rtranclp, rule one_time_init.call) (simp add: after_second_def)
  have v: "one_time_init\<^sup>*\<^sup>* (at_pc 2 AtLock (after_second 0 1)) (at_pc 3 AtLock (at_pc 2 AtLock (after_second 0 1)))"
    by (rule r_into_rtranclp, rule one_time_init.call) (simp add: after_second_def)
  have p: "pcs (second_test 0 1) 1 \<noteq> Returned 1" "pcs (after_second 0 1) 1 = Returned 1"
    by (simp_all add: second_test_def after_second_def)
  have "pcs (at_pc 2 AtLock (after_second 0 1)) 2 = AtLock" by simp
  then show ?thesis
    using one_time_init_leaves_locked [OF second_test_reached [of 1 0] second_call(2) [of 1 0] p w v] by blast
qed

end
