(* ===== verification/Shell.thy ===== *)
theory Shell
  imports CString
begin

text \<open>
  The two command interpreters.  \<open>C/command interpreter\<close> reads a line and executes
  \<open>/bin/<line>\<close>; \<open>C/command interpreter 2 (pipe)\<close> splits the line at \<open>|\<close>, splits each
  stage at blanks and starts the stages with their standard streams redirected to one
  pipe.  One loop iteration of each \<open>main\<close> is a function of the buffer \<open>command\<close>, the
  rest of the standard input and the bytes the local arrays hold uninitialised; its
  result is the list of processes it starts.  A process is described by its argument
  vector, the pipe end it uses and the name an error message would blame.
\<close>

section \<open>command interpreter/main.c\<close>

record shell_state =
  command :: buffer
  input :: string

datatype shell_event =
  Exited
| Execv string "string option"   \<comment> \<open>\<open>argv[0]\<close>, and the message printed when it is not found\<close>

text \<open>\<open>if (command[i] == '\n') command[i] = '\0'\<close> at \<open>i = strlen(command) - 1\<close>.\<close>

definition chop_newline :: "buffer \<Rightarrow> buffer option" where
  "chop_newline b = do {
     n \<leftarrow> strlen b;
     (if n = 0 then None
      else do { c \<leftarrow> buf_get b (n - 1); (if c = NL then buf_set b (n - 1) NUL else Some b) })
   }"

text \<open>The block for \<open>path\<close> and one word: \<open>malloc\<close>, \<open>strcpy\<close>, \<open>strncat\<close>.\<close>

definition bin_path :: "(nat \<Rightarrow> char) \<Rightarrow> buffer \<Rightarrow> buffer \<Rightarrow> buffer option" where
  "bin_path g path word = do {
     n \<leftarrow> strlen path;
     m \<leftarrow> strlen word;
     block \<leftarrow> strcpy (fresh_block g (n + m + 1)) path;
     strncat block word m
   }"

text \<open>
  One iteration.  \<open>found p\<close> tells whether \<open>execv\<close> finds \<open>p\<close>; \<open>argv1_null\<close> whether the
  element after \<open>argv[0]\<close>, which the code never sets, happens to be a null pointer.
\<close>

definition shell_main :: "(string \<Rightarrow> bool) \<Rightarrow> (nat \<Rightarrow> char) \<Rightarrow> bool \<Rightarrow> shell_state \<Rightarrow> (shell_event \<times> shell_state) option" where
  "shell_main found g argv1_null \<sigma> = do {
     (b, inp) \<leftarrow> fgets (command \<sigma>) 50 (input \<sigma>);
     b \<leftarrow> chop_newline b;
     line \<leftarrow> cstr b;
     let \<sigma>' = \<sigma>\<lparr>command := b, input := inp\<rparr>;
     (if strcmp_str ''exit'' line = 0 then Some (Exited, \<sigma>')
      else do {
        argv0 \<leftarrow> bin_path g (''/bin/'' @ [NUL]) b;
        p \<leftarrow> cstr argv0;
        (if argv1_null then Some (Execv p (if found p then None else Some line), \<sigma>') else None)
      })
   }"

section \<open>command interpreter 2 (pipe)\<close>

abbreviation bar :: "char \<Rightarrow> bool" where "bar c \<equiv> c = CHR ''|''"
abbreviation blank :: "char \<Rightarrow> bool" where "blank c \<equiv> c = CHR 0x20"

text \<open>\<open>stk\<close> gives the initial contents of the local array \<open>buf\<close>, which \<open>strncpy\<close> with
  length \<open>strlen(s)\<close> leaves without a terminating zero.\<close>

definition command_count :: "(nat \<Rightarrow> char) \<Rightarrow> buffer \<Rightarrow> nat option" where
  "command_count stk s = do {
     n \<leftarrow> strlen s;
     buf \<leftarrow> strncpy (fresh_block stk 512) s n;
     (ptr, st) \<leftarrow> strtok bar (buf, 0);
     (count, st) \<leftarrow> while_tokens (strtok bar) (\<lambda>_ count. Some (Suc count)) ptr st 0;
     Some count
   }"

definition lexemes_count :: "(nat \<Rightarrow> char) \<Rightarrow> buffer \<Rightarrow> nat option" where
  "lexemes_count stk s = do {
     n \<leftarrow> strlen s;
     buf \<leftarrow> strncpy (fresh_block stk 50) s n;
     (ptr, st) \<leftarrow> strtok blank (buf, 0);
     (count, st) \<leftarrow> while_tokens (strtok blank) (\<lambda>_ count. Some (Suc count)) ptr st 0;
     Some count
   }"

text \<open>
  \<open>_command_(s, a, count)\<close> stores copies of the stages in \<open>a\<close>; it returns the array and
  the string \<open>s\<close> as \<open>strtok\<close> has left it.  The array of \<open>main\<close> has 10 elements.
\<close>

definition command_split :: "buffer \<Rightarrow> string option list \<Rightarrow> nat \<Rightarrow> (string option list \<times> buffer) option" where
  "command_split s a count = do {
     (ptr, st) \<leftarrow> strtok bar (s, 0);
     ((a, i), st) \<leftarrow> for_tokens (strtok bar)
        (\<lambda>w (a, i). do { a \<leftarrow> buf_set a i (Some w); Some (a, Suc i) }) count ptr st (a, 0);
     Some (a, fst st)
   }"

text \<open>
  \<open>param(a, s, path, count)\<close> fills the argument vector \<open>a\<close>: the path for the first word,
  copies of the others, then a null pointer.
\<close>

definition param :: "(nat \<Rightarrow> char) \<Rightarrow> string option list \<Rightarrow> buffer \<Rightarrow> buffer \<Rightarrow> nat \<Rightarrow> string option list option" where
  "param g a s path count = do {
     (ptr, st) \<leftarrow> strtok blank (s, 0);
     ((a, i), st) \<leftarrow> for_tokens (strtok blank)
        (\<lambda>w (a, i). do {
           v \<leftarrow> (if i = 0 then do { b \<leftarrow> bin_path g path (w @ [NUL]); cstr b } else Some w);
           a \<leftarrow> buf_set a i (Some v);
           Some (a, Suc i) }) count ptr st (a, 0);
     buf_set a count None
   }"

text \<open>What a descriptor of a process stands for.  \<open>pipe\<close> has returned 3 and 4 for its two ends.\<close>

datatype channel = Terminal | Read_end | Write_end

record process =
  argv :: "string list"
  files :: "nat \<rightharpoonup> channel"
  blamed :: string

definition with_pipe :: "nat \<rightharpoonup> channel" where
  "with_pipe = [0 \<mapsto> Terminal, 1 \<mapsto> Terminal, 2 \<mapsto> Terminal, 3 \<mapsto> Read_end, 4 \<mapsto> Write_end]"

definition dup2 :: "nat \<Rightarrow> nat \<Rightarrow> (nat \<rightharpoonup> channel) \<Rightarrow> (nat \<rightharpoonup> channel)" where
  "dup2 a b t = t(b := t a)"

definition close_file :: "nat \<Rightarrow> (nat \<rightharpoonup> channel) \<Rightarrow> (nat \<rightharpoonup> channel)" where
  "close_file a t = t(a := None)"

text \<open>The child of stage \<open>j\<close>, before \<open>execve\<close>.\<close>

definition child_files :: "nat \<Rightarrow> nat \<Rightarrow> (nat \<rightharpoonup> channel)" where
  "child_files j p_count =
     (if j mod 2 = 0 \<and> p_count > 1
      then close_file 4 (dup2 4 1 (close_file 3 with_pipe))
      else close_file 3 (dup2 3 0 (close_file 4 with_pipe)))"

text \<open>The vector \<open>execve\<close> sees: the elements before the first null pointer.\<close>

definition vector :: "string option list \<Rightarrow> string list option" where
  "vector a = (if None \<in> set a then Some (map the (takeWhile (\<lambda>x. x \<noteq> None) a)) else None)"

text \<open>The body of the loop over the stages, for stage \<open>j\<close> of \<open>p_count\<close>.\<close>

definition start_stage ::
  "(nat \<Rightarrow> nat \<Rightarrow> char) \<Rightarrow> (nat \<Rightarrow> char) \<Rightarrow> string \<Rightarrow> nat \<Rightarrow> nat \<Rightarrow> string option list \<Rightarrow> string option \<Rightarrow>
   (process \<times> string option list) option" where
  "start_stage stk g name p_count j args stage = do {
     w \<leftarrow> stage;
     l_count \<leftarrow> lexemes_count (stk j) (w @ [NUL]);
     args \<leftarrow> param g args (w @ [NUL]) (''/bin/'' @ [NUL]) l_count;
     v \<leftarrow> vector args;
     Some (\<lparr>argv = v, files = child_files j p_count, blamed = name\<rparr>, args)
   }"

fun start_stages ::
  "(nat \<Rightarrow> nat \<Rightarrow> char) \<Rightarrow> (nat \<Rightarrow> char) \<Rightarrow> string \<Rightarrow> nat \<Rightarrow> nat \<Rightarrow> string option list \<Rightarrow> string option list \<Rightarrow>
   process list option" where
  "start_stages stk g name p_count j args [] = Some []"
| "start_stages stk g name p_count j args (stage # stages) = do {
     (p, args) \<leftarrow> start_stage stk g name p_count j args stage;
     ps \<leftarrow> start_stages stk g name p_count (Suc j) args stages;
     Some (p # ps)
   }"

text \<open>
  One iteration of \<open>main\<close>; \<open>None\<close> in the first component is \<open>exit(0)\<close>.  \<open>stk0\<close> and
  \<open>stk\<close> are the uninitialised arrays of the counting functions, \<open>args\<close> the vector
  \<open>argv\<close> (256 elements) and \<open>paths\<close> the array \<open>command_path\<close> (10 elements) as found.
\<close>

definition pipe_main ::
  "(nat \<Rightarrow> char) \<Rightarrow> (nat \<Rightarrow> nat \<Rightarrow> char) \<Rightarrow> (nat \<Rightarrow> char) \<Rightarrow> string option list \<Rightarrow> string option list \<Rightarrow>
   shell_state \<Rightarrow> (process list option \<times> shell_state) option" where
  "pipe_main stk0 stk g args paths \<sigma> = do {
     (b, inp) \<leftarrow> fgets (command \<sigma>) 50 (input \<sigma>);
     b \<leftarrow> chop_newline b;
     line \<leftarrow> cstr b;
     (if strcmp_str ''exit'' line = 0 then Some (None, \<sigma>\<lparr>command := b, input := inp\<rparr>)
      else do {
        p_count \<leftarrow> command_count stk0 b;
        (paths, b) \<leftarrow> command_split b paths p_count;
        name \<leftarrow> cstr b;
        ps \<leftarrow> start_stages stk g name p_count 0 args (take p_count paths);
        Some (Some ps, \<sigma>\<lparr>command := b, input := inp\<rparr>)
      })
   }"

section \<open>Reference: what a command line asks for\<close>

definition stage_argv :: "string \<Rightarrow> string list" where
  "stage_argv w = (case tokens blank w of [] \<Rightarrow> [] | x # xs \<Rightarrow> (''/bin/'' @ x) # xs)"

definition pipeline :: "string \<Rightarrow> string list list" where
  "pipeline line = map stage_argv (tokens bar line)"

text \<open>Some of what process \<open>i\<close> writes can be read by process \<open>j\<close>.\<close>

definition feeds :: "process list \<Rightarrow> nat \<Rightarrow> nat \<Rightarrow> bool" where
  "feeds ps i j \<longleftrightarrow> Write_end \<in> ran (files (ps ! i)) \<and> Read_end \<in> ran (files (ps ! j))"

text \<open>What \<open>a | b | c\<close> means: every process writes to the next one only, the first reads and
  the last writes the terminal, and no process holds an end it does not use.\<close>

definition plumbed :: "process list \<Rightarrow> bool" where
  "plumbed ps \<longleftrightarrow> (\<forall>i < length ps. \<forall>j < length ps. feeds ps i j \<longleftrightarrow> j = Suc i) \<and>
     (ps \<noteq> [] \<longrightarrow> files (hd ps) 0 = Some Terminal \<and> files (last ps) 1 = Some Terminal) \<and>
     (\<forall>p \<in> set ps. dom (files p) = {0, 1, 2})"

section \<open>The parts\<close>

lemma bin_path_result:
  assumes "cstr path = Some p" "cstr word = Some w"
  shows "\<exists>b. bin_path g path word = Some b \<and> cstr b = Some (p @ w)"
proof -
  let ?f = "fresh_block g (length p + length w + 1)"
  have p0: "NUL \<notin> set p" "NUL \<notin> set w" using assms cstr_no_NUL by blast+
  have 1: "strcpy ?f path = Some (p @ NUL # drop (Suc (length p)) ?f)"
    using strcpy_Some [OF assms(1), of ?f] by simp
  let ?b = "p @ NUL # drop (Suc (length p)) ?f"
  have "strcat ?b word = Some (p @ w @ NUL # drop (Suc (length p + length w)) ?b)"
    using strcat_Some [of ?b p word w] assms(2) p0(1) by simp
  then show ?thesis
    using 1 assms p0 cstr_append [of "p @ w"]
    by (simp add: bin_path_def strlen_Some strncat_all)
qed

lemma count_words:
  assumes "cstr s = Some w" "length w < n" "g (length w) = NUL"
  shows "do { m \<leftarrow> strlen s;
              buf \<leftarrow> strncpy (fresh_block g n) s m;
              (ptr, st) \<leftarrow> strtok d (buf, 0);
              (count, st) \<leftarrow> while_tokens (strtok d) (\<lambda>_ count. Some (Suc count)) ptr st 0;
              Some count } = Some (length (tokens d w))"
  using strncpy_bare [OF assms(1), of "fresh_block g n"] assms cstr_no_NUL [OF assms(1)]
    token_count [OF fresh_tail [of w n g], of d]
  by (simp add: strlen_Some)

lemma command_count_result:
  "cstr s = Some w \<Longrightarrow> length w < 512 \<Longrightarrow> stk (length w) = NUL \<Longrightarrow>
   command_count stk s = Some (length (tokens bar w))"
  unfolding command_count_def by (rule count_words)

lemma lexemes_count_result:
  "cstr s = Some w \<Longrightarrow> length w < 50 \<Longrightarrow> stk (length w) = NUL \<Longrightarrow>
   lexemes_count stk s = Some (length (tokens blank w))"
  unfolding lexemes_count_def by (rule count_words)

lemma command_split_result:
  assumes "cstr s = Some w" "length (tokens bar w) \<le> length a"
  shows "\<exists>b. command_split s a (length (tokens bar w))
      = Some (map Some (tokens bar w) @ drop (length (tokens bar w)) a, b) \<and>
    length b = length s \<and> NUL \<in> set b"
proof -
  let ?ws = "tokens bar w"
  let ?body = "\<lambda>w (a, i). do { a \<leftarrow> buf_set a i (Some w); Some (a, Suc i) }"
  have "fold_opt ?body ?ws (a, 0) = Some (map Some ?ws @ drop (length ?ws) a, length ?ws)"
    using fold_fill [of ?ws "\<lambda>_. Some" "\<lambda>_ w. w" 0 a] assms(2)
    by (simp add: map_enumerate_snd)
  then have "map_option fst (do { (ptr, t') \<leftarrow> strtok bar (s, 0);
        for_tokens (strtok bar) ?body (length ?ws) ptr t' (a, 0) })
      = Some (map Some ?ws @ drop (length ?ws) a, length ?ws)"
    using strtok_for [OF assms(1), of "length ?ws" bar ?body "(a, 0)"] by simp
  then obtain ptr b p b' p' where 1: "strtok bar (s, 0) = Some (ptr, b, p)"
    and 2: "for_tokens (strtok bar) ?body (length ?ws) ptr (b, p) (a, 0)
      = Some ((map Some ?ws @ drop (length ?ws) a, length ?ws), b', p')"
    by (auto split: bind_splits)
  have "NUL \<in> set s" using assms(1) by (auto simp: cstr_def split: if_splits)
  then have "length b' = length s \<and> NUL \<in> set b'"
    using strtok_keeps_NUL [OF 1] for_tokens_keeps_NUL [OF 2] by simp
  with 1 2 show ?thesis by (simp add: command_split_def)
qed

lemma command_split_overflow:
  assumes "cstr s = Some w" "length a < length (tokens bar w)"
  shows "command_split s a (length (tokens bar w)) = None"
proof -
  let ?ws = "tokens bar w"
  let ?body = "\<lambda>w (a, i). do { a \<leftarrow> buf_set a i (Some w); Some (a, Suc i) }"
  have "fold_opt ?body ?ws (a, 0) = None"
    using fold_fill_overflow [of a 0 ?ws "\<lambda>_. Some" "\<lambda>_ w. w"] assms(2) by simp
  then show ?thesis
    using strtok_for [OF assms(1), of "length ?ws" bar ?body "(a, 0)"]
    by (auto simp: command_split_def split: bind_splits)
qed

lemma param_result:
  assumes "cstr s = Some w" "length (tokens blank w) < length a" "cstr path = Some p"
  shows "param g a s path (length (tokens blank w))
    = Some (map Some (case tokens blank w of [] \<Rightarrow> [] | x # xs \<Rightarrow> (p @ x) # xs) @
            None # drop (Suc (length (tokens blank w))) a)"
proof -
  let ?ws = "tokens blank w"
  let ?f = "\<lambda>i w. if i = 0 then do { b \<leftarrow> bin_path g path (w @ [NUL]); cstr b } else Some w"
  let ?h = "\<lambda>i w. if i = 0 then p @ w else w"
  let ?body = "\<lambda>w (a, i). do { v \<leftarrow> ?f i w; a \<leftarrow> buf_set a i (Some v); Some (a, Suc i) }"
  have "?f i v = Some (?h i v)" if "v \<in> set ?ws" for i v
  proof -
    have "NUL \<notin> set v" using tokens_subset [OF that] cstr_no_NUL [OF assms(1)] by blast
    then have "cstr (v @ [NUL]) = Some v" by simp
    from bin_path_result [OF assms(3) this, of g] show ?thesis by auto
  qed
  then have f: "\<forall>v \<in> set ?ws. \<forall>i. ?f i v = Some (?h i v)" by blast
  let ?r = "map (\<lambda>(i, v). Some (?h i v)) (enumerate 0 ?ws) @ drop (length ?ws) a"
  have "fold_opt ?body ?ws (a, 0) = Some (?r, length ?ws)"
    using fold_fill [OF f, of 0 a] assms(2) by simp
  then have "map_option fst (do { (ptr, t') \<leftarrow> strtok blank (s, 0);
        for_tokens (strtok blank) ?body (length ?ws) ptr t' (a, 0) }) = Some (?r, length ?ws)"
    using strtok_for [OF assms(1), of "length ?ws" blank ?body "(a, 0)"] by simp
  then have "param g a s path (length ?ws) = buf_set ?r (length ?ws) None"
    by (auto simp: param_def split: bind_splits)
  moreover have "map (\<lambda>(i, v). Some (?h i v)) (enumerate 0 ?ws)
      = map Some (case ?ws of [] \<Rightarrow> [] | x # xs \<Rightarrow> (p @ x) # xs)"
  proof (cases ?ws)
    case (Cons x xs)
    have "map (\<lambda>(i, v). Some (?h i v)) (enumerate (Suc 0) xs) = map Some xs"
      by (rule map_enumerate_tail) simp
    with Cons show ?thesis by simp
  qed simp
  moreover have "length (case ?ws of [] \<Rightarrow> [] | x # xs \<Rightarrow> (p @ x) # xs) = length ?ws"
    by (simp split: list.split)
  ultimately show ?thesis
    using assms(2) by (simp add: buf_set_def list_update_append Cons_nth_drop_Suc [symmetric])
qed

lemma vector_result: "vector (map Some ws @ None # r) = Some ws"
  by (induction ws) (auto simp: vector_def)

section \<open>Whole iterations\<close>

lemma chop_line:
  assumes "NUL \<notin> set l" "NL \<notin> set l"
  shows "chop_newline (l @ NL # NUL # r) = Some (l @ NUL # NUL # r)"
proof -
  have "cstr ((l @ [NL]) @ NUL # r) = Some (l @ [NL])" using assms(1) by (intro cstr_append) simp
  then show ?thesis
    by (simp add: chop_newline_def strlen_Some buf_get_def buf_set_def nth_append list_update_append)
qed

definition plain_line :: "string \<Rightarrow> bool" where
  "plain_line l \<longleftrightarrow> NUL \<notin> set l \<and> NL \<notin> set l \<and> length l \<le> 48"

lemma read_line:
  assumes "plain_line l" "50 \<le> length b"
  obtains b1 b2 where "fgets b 50 (l @ NL # rest) = Some (b1, rest)" "chop_newline b1 = Some b2"
    "cstr b2 = Some l" "length b2 = length b"
  using assms fgets_line [of l 50 b rest] chop_line [of l "drop (length l + 2) b"]
  by (auto simp: plain_line_def)

lemma start_stage_result:
  assumes "NUL \<notin> set w" "length w < 50" "stk j (length w) = NUL" "length args = 256"
  shows "\<exists>args'. start_stage stk g name n j args (Some w) =
    Some (\<lparr>argv = stage_argv w, files = child_files j n,
           blamed = name\<rparr>, args') \<and> length args' = 256"
proof -
  have w: "cstr (w @ [NUL]) = Some w" using assms(1) by simp
  have n: "length (tokens blank w) < length args" using length_tokens [of blank w] assms(2,4) by simp
  let ?a = "map Some (stage_argv w) @ None # drop (Suc (length (tokens blank w))) args"
  have "param g args (w @ [NUL]) (''/bin/'' @ [NUL]) (length (tokens blank w)) = Some ?a"
    using param_result [OF w n, of "''/bin/'' @ [NUL]" "''/bin/''" g] by (simp add: stage_argv_def cstr_Cons)
  moreover have "length (stage_argv w) = length (tokens blank w)"
    by (simp add: stage_argv_def split: list.split)
  ultimately show ?thesis
    using lexemes_count_result [OF w assms(2), of "stk j"] assms(3,4) n vector_result
    by (auto simp: start_stage_def)
qed

lemma start_stages_result:
  assumes "\<forall>w \<in> set ws. NUL \<notin> set w \<and> length w < 50"
    and "\<forall>k < length ws. stk (j + k) (length (ws ! k)) = NUL" "length args = 256"
  shows "start_stages stk g name n j args (map Some ws) =
    Some (map (\<lambda>(i, w). \<lparr>argv = stage_argv w, files = child_files i n, blamed = name\<rparr>)
           (enumerate j ws))"
  using assms
proof (induction ws arbitrary: j args)
  case (Cons w ws)
  have "stk j (length w) = NUL" using Cons.prems(2) by force
  with start_stage_result [of w stk j args g name n] Cons.prems obtain args' where
    1: "start_stage stk g name n j args (Some w) =
      Some (\<lparr>argv = stage_argv w, files = child_files j n, blamed = name\<rparr>, args')" "length args' = 256" by auto
  have "\<forall>k < length ws. stk (Suc j + k) (length (ws ! k)) = NUL" using Cons.prems(2) by force
  with Cons.IH [of "Suc j" args'] Cons.prems(1) 1(2) have
    "start_stages stk g name n (Suc j) args' (map Some ws) =
      Some (map (\<lambda>(i, w). \<lparr>argv = stage_argv w, files = child_files i n, blamed = name\<rparr>)
           (enumerate (Suc j) ws))" by simp
  with 1(1) show ?case by simp
qed simp

section \<open>Properties\<close>

text \<open>
  C10.  The simple interpreter: for every input line of at most 48 bytes, whatever the
  buffer held before, an iteration consumes exactly that line; it exits on \<open>exit\<close>, and
  otherwise builds the path \<open>/bin/<line>\<close> in a block of exactly the right size.  It executes
  that path with one argument, and names the line in the message when it is not found, if
  \<open>argv[1]\<close>, which is never set, happens to be a null pointer; if not, \<open>execv\<close> is given a
  vector without an end.
\<close>

theorem shell_main_line:
  assumes "plain_line l" "length (command \<sigma>) = 50" "input \<sigma> = l @ NL # rest"
  shows "\<exists>b. cstr b = Some l \<and> length b = 50 \<and>
    shell_main found g argv1_null \<sigma> =
      (if l = ''exit'' then Some (Exited, \<lparr>command = b, input = rest\<rparr>)
       else if argv1_null
         then Some (Execv (''/bin/'' @ l) (if found (''/bin/'' @ l) then None else Some l), \<lparr>command = b, input = rest\<rparr>)
         else None)"
proof -
  obtain b1 b2 where b: "fgets (command \<sigma>) 50 (input \<sigma>) = Some (b1, rest)" "chop_newline b1 = Some b2"
    "cstr b2 = Some l" "length b2 = 50"
    using read_line [OF assms(1), of "command \<sigma>" rest] assms(2,3) by auto
  have e: "strcmp_str ''exit'' l = 0 \<longleftrightarrow> l = ''exit''"
    using strcmp_str_eq_0 [of "''exit''" l] assms(1) by (auto simp: plain_line_def)
  obtain p where "bin_path g (''/bin/'' @ [NUL]) b2 = Some p" "cstr p = Some (''/bin/'' @ l)"
    using bin_path_result [of "''/bin/'' @ [NUL]" "''/bin/''" b2 l g] b(3) by (auto simp: cstr_Cons)
  with b e show ?thesis by (cases \<sigma>) (auto simp: shell_main_def Let_def)
qed

theorem shell_main_line_witness:
  "(\<exists>b. cstr b = Some ''ls'' \<and> shell_main (\<lambda>_. True) (\<lambda>_. CHR ''z'') True
     \<lparr>command = replicate 50 (CHR ''q''), input = ''ls'' @ NL # ''exit''\<rparr>
   = Some (Execv ''/bin/ls'' None, \<lparr>command = b, input = ''exit''\<rparr>)) \<and>
   shell_main (\<lambda>_. True) (\<lambda>_. CHR ''z'') False \<lparr>command = replicate 50 (CHR ''q''), input = ''ls'' @ NL # ''exit''\<rparr> = None"
  using shell_main_line [of "''ls''" "\<lparr>command = replicate 50 (CHR ''q''), input = ''ls'' @ NL # ''exit''\<rparr>"
    "''exit''" "\<lambda>_. True" "\<lambda>_. CHR ''z''" True]
    shell_main_line [of "''ls''" "\<lparr>command = replicate 50 (CHR ''q''), input = ''ls'' @ NL # ''exit''\<rparr>"
    "''exit''" "\<lambda>_. True" "\<lambda>_. CHR ''z''" False]
  by (auto simp: plain_line_def)

text \<open>
  At the end of the input the simple interpreter does not stop: \<open>fgets\<close> leaves the
  buffer alone, and every further iteration executes the last command again.
\<close>

theorem shell_main_repeats_at_eof:
  assumes "cstr (command \<sigma>) = Some l" "l \<noteq> []" "NL \<notin> set l" "l \<noteq> ''exit''" "input \<sigma> = []"
  shows "shell_main found g True \<sigma> =
    Some (Execv (''/bin/'' @ l) (if found (''/bin/'' @ l) then None else Some l), \<sigma>)"
proof -
  have "last l \<noteq> NL" using assms(2,3) last_in_set by metis
  moreover have "buf_get (command \<sigma>) (length l - 1) = Some (last l)"
    using assms(2) cstr_length [OF assms(1)] cstr_nth [OF assms(1), of "length l - 1"]
    by (auto simp: buf_get_def last_conv_nth)
  ultimately have c: "chop_newline (command \<sigma>) = Some (command \<sigma>)"
    using assms(1,2) by (simp add: chop_newline_def strlen_Some)
  have e: "strcmp_str ''exit'' l \<noteq> 0"
    using strcmp_str_eq_0 [of "''exit''" l] cstr_no_NUL [OF assms(1)] assms(4) by auto
  obtain p where "bin_path g (''/bin/'' @ [NUL]) (command \<sigma>) = Some p" "cstr p = Some (''/bin/'' @ l)"
    using bin_path_result [of "''/bin/'' @ [NUL]" "''/bin/''" "command \<sigma>" l g] assms(1) by (auto simp: cstr_Cons)
  then show ?thesis using c e assms(1,5)
    by (cases \<sigma>) (simp add: shell_main_def fgets_def)
qed

theorem shell_main_repeats_at_eof_witness:
  "shell_main (\<lambda>_. True) (\<lambda>_. NUL) True \<lparr>command = ''ls'' @ NUL # replicate 47 NUL, input = []\<rparr>
   = Some (Execv ''/bin/ls'' None, \<lparr>command = ''ls'' @ NUL # replicate 47 NUL, input = []\<rparr>)"
  by (subst shell_main_repeats_at_eof [of _ "''ls''"]) (simp_all add: cstr_Cons)

lemma child_files_simps:
  "child_files j n = (if even j \<and> 1 < n then [0 \<mapsto> Terminal, 1 \<mapsto> Write_end, 2 \<mapsto> Terminal]
     else [0 \<mapsto> Read_end, 1 \<mapsto> Terminal, 2 \<mapsto> Terminal])"
  by (auto simp: child_files_def close_file_def dup2_def with_pipe_def even_iff_mod_2_eq_zero)

lemma child_ends:
  "Write_end \<in> ran (child_files j n) \<longleftrightarrow> even j \<and> 1 < n"
  "Read_end \<in> ran (child_files j n) \<longleftrightarrow> \<not> (even j \<and> 1 < n)"
  "dom (child_files j n) = {0, 1, 2}"
  by (auto simp: child_files_simps ran_def split: if_splits)

lemma plumbed_iff:
  assumes "\<forall>k < length ps. files (ps ! k) = child_files k (length ps)"
  shows "plumbed ps \<longleftrightarrow> length ps = 0 \<or> length ps = 2"
proof -
  have feeds: "feeds ps i j \<longleftrightarrow> even i \<and> odd j \<and> 1 < length ps" if "i < length ps" "j < length ps" for i j
    using that assms by (auto simp: feeds_def child_ends)
  consider "length ps = 0" | "length ps = 1" | "length ps = 2" | "3 \<le> length ps" by linarith
  then show ?thesis
  proof cases
    case 1
    then show ?thesis by (simp add: plumbed_def)
  next
    case 2
    then have "hd ps = ps ! 0" by (intro hd_conv_nth) auto
    then have "files (hd ps) 0 = Some Read_end" using assms 2 by (simp add: child_files_simps)
    then show ?thesis using 2 by (auto simp: plumbed_def)
  next
    case 3
    have "feeds ps i j \<longleftrightarrow> j = Suc i" if "i < 2" "j < 2" for i j
      using feeds [of i j] 3 that by (auto simp: less_2_cases_iff)
    moreover have "ps \<noteq> []" using 3 by fastforce
    then have "hd ps = ps ! 0" "last ps = ps ! 1" using 3 hd_conv_nth [of ps] last_conv_nth [of ps] by simp_all
    then have "files (hd ps) 0 = Some Terminal" "files (last ps) 1 = Some Terminal"
      using assms 3 by (simp_all add: child_files_simps)
    moreover have "dom (files p) = {0, 1, 2}" if "p \<in> set ps" for p
      using assms that by (metis child_ends(3) in_set_conv_nth)
    ultimately show ?thesis using 3 by (auto simp: plumbed_def)
  next
    case 4
    then have "feeds ps 2 1" using feeds [of 2 1] by simp
    then have "\<not> plumbed ps" using 4 unfolding plumbed_def by fastforce
    moreover have "length ps \<noteq> 0" "length ps \<noteq> 2" using 4 by linarith+
    ultimately show ?thesis by blast
  qed
qed

lemma one_or_many:
  assumes "\<forall>k < length ps. files (ps ! k) = child_files k (length ps)"
  shows "length ps = 1 \<longrightarrow> files (ps ! 0) 0 = Some Read_end \<and> \<not> feeds ps 0 0"
    and "3 \<le> length ps \<longrightarrow> feeds ps 2 1"
proof -
  have f: "files (ps ! k) = child_files k (length ps)" if "k < length ps" for k using assms that by blast
  show "length ps = 1 \<longrightarrow> files (ps ! 0) 0 = Some Read_end \<and> \<not> feeds ps 0 0"
  proof
    assume l: "length ps = 1"
    then have "files (ps ! 0) = child_files 0 1" using f [of 0] by simp
    then show "files (ps ! 0) 0 = Some Read_end \<and> \<not> feeds ps 0 0"
      by (simp add: feeds_def child_ends) (simp add: child_files_simps)
  qed
  show "3 \<le> length ps \<longrightarrow> feeds ps 2 1"
  proof
    assume l: "3 \<le> length ps"
    then show "feeds ps 2 1" using f [of 1] f [of 2] by (simp add: feeds_def child_ends)
  qed
qed

text \<open>
  C11.  The pipe interpreter: for every line of at most 48 bytes other than \<open>exit\<close> with at
  most 10 stages, if the arrays of the counting functions are zero right after the copied
  text, an iteration starts exactly one process per stage, in order, whose argument vector
  is the stage's words with \<open>/bin/\<close> before the first.  The processes are connected as the
  line asks for exactly if there are two of them: a single one reads from a pipe nobody
  writes to, and with three or more all share one pipe, so that the second reads what the
  third writes.
\<close>

theorem pipe_main_line:
  assumes "plain_line l" "l \<noteq> ''exit''" "length (tokens bar l) \<le> 10"
    and "length (command \<sigma>) = 512" "input \<sigma> = l @ NL # rest" "length args = 256" "length paths = 10"
    and "stk0 (length l) = NUL"
    and "\<forall>k < length (tokens bar l). stk k (length (tokens bar l ! k)) = NUL"
  shows "\<exists>b ps. pipe_main stk0 stk g args paths \<sigma> = Some (Some ps, \<lparr>command = b, input = rest\<rparr>) \<and>
    length b = 512 \<and> map argv ps = pipeline l \<and> (ps \<noteq> [] \<longrightarrow> (plumbed ps \<longleftrightarrow> length ps = 2)) \<and>
    (length ps = 1 \<longrightarrow> files (ps ! 0) 0 = Some Read_end \<and> \<not> feeds ps 0 0) \<and>
    (3 \<le> length ps \<longrightarrow> feeds ps 2 1)"
proof -
  let ?ws = "tokens bar l"
  obtain b1 b2 where b: "fgets (command \<sigma>) 50 (input \<sigma>) = Some (b1, rest)" "chop_newline b1 = Some b2"
    "cstr b2 = Some l" "length b2 = 512"
    using read_line [OF assms(1), of "command \<sigma>" rest] assms(4,5) by auto
  have len: "length l < 512" and nul: "NUL \<notin> set l" using assms(1) by (simp_all add: plain_line_def)
  have e: "strcmp_str ''exit'' l \<noteq> 0" using strcmp_str_eq_0 [of "''exit''" l] nul assms(2) by auto
  obtain b3 where s: "command_split b2 paths (length ?ws) = Some (map Some ?ws @ drop (length ?ws) paths, b3)"
    "length b3 = 512" "NUL \<in> set b3"
    using command_split_result [OF b(3), of paths] assms(3,7) b(4) by auto
  from s(3) obtain name where name: "cstr b3 = Some name" by (auto simp: cstr_def)
  have "\<forall>w \<in> set ?ws. NUL \<notin> set w \<and> length w < 50"
    using tokens_subset [of _ bar l] nul assms(1) by (fastforce simp: plain_line_def)
  from start_stages_result [OF this, of stk 0 args g name "length ?ws"] assms(6,9)
  have st: "start_stages stk g name (length ?ws) 0 args (map Some ?ws) =
    Some (map (\<lambda>(i, w). \<lparr>argv = stage_argv w, files = child_files i (length ?ws), blamed = name\<rparr>)
      (enumerate 0 ?ws))" (is "_ = Some ?ps") by simp
  have "pipe_main stk0 stk g args paths \<sigma> = Some (Some ?ps, \<lparr>command = b3, input = rest\<rparr>)"
    using b e s name st command_count_result [of b2 l stk0] len assms(8)
    by (cases \<sigma>) (simp add: pipe_main_def)
  moreover have "map argv ?ps = pipeline l"
    using map_enumerate_fun [of stage_argv 0 ?ws] by (simp add: pipeline_def comp_def split_def)
  moreover have "\<forall>k < length ?ps. files (?ps ! k) = child_files k (length ?ps)" by (simp add: nth_enumerate_eq)
  note plumbed_iff [OF this] one_or_many [OF this]
  ultimately show ?thesis using s(2) by (intro exI [of _ b3] exI [of _ ?ps]) (simp only: length_0_conv, blast)
qed

text \<open>A line, zeroed local arrays, and the two arrays of \<open>main\<close>.\<close>

definition pipe_example :: "(process list option \<times> shell_state) option" where
  "pipe_example = pipe_main (\<lambda>_. NUL) (\<lambda>_ _. NUL) (\<lambda>_. NUL) (replicate 256 None) (replicate 10 None)
     \<lparr>command = replicate 512 NUL, input = ''ls -l|wc'' @ [NL]\<rparr>"

lemma tokens_example: "tokens bar ''ls -l|wc'' = [''ls -l'', ''wc'']" "tokens blank ''ls -l'' = [''ls'', ''-l'']"
  "tokens blank ''wc'' = [''wc'']"
  by code_simp+

theorem pipe_main_line_witness:
  "\<exists>b ps. pipe_example = Some (Some ps, \<lparr>command = b, input = []\<rparr>) \<and>
     map argv ps = [[''/bin/ls'', ''-l''], [''/bin/wc'']] \<and> plumbed ps"
proof -
  let ?s = "\<lparr>command = replicate 512 NUL, input = ''ls -l|wc'' @ [NL]\<rparr>"
  have 1: "plain_line ''ls -l|wc''" "''ls -l|wc'' \<noteq> ''exit''" "length (tokens bar ''ls -l|wc'') \<le> 10"
    "length (command ?s) = 512" "input ?s = ''ls -l|wc'' @ NL # []" "length (replicate 256 None) = 256"
    "length (replicate 10 None) = 10" "(\<lambda>_. NUL) (length ''ls -l|wc'') = NUL"
    "\<forall>k < length (tokens bar ''ls -l|wc''). (\<lambda>_ _. NUL) k (length (tokens bar ''ls -l|wc'' ! k)) = NUL"
    by (simp_all add: plain_line_def tokens_example)
  obtain b ps where "pipe_example = Some (Some ps, \<lparr>command = b, input = []\<rparr>)"
    and m: "map argv ps = pipeline ''ls -l|wc''" and r: "ps \<noteq> [] \<longrightarrow> (plumbed ps \<longleftrightarrow> length ps = 2)"
    using pipe_main_line [OF 1] unfolding pipe_example_def by blast
  moreover from m have "map argv ps = [[''/bin/ls'', ''-l''], [''/bin/wc'']]"
    by (simp add: pipeline_def stage_argv_def tokens_example)
  moreover from this have l: "length ps = 2" by (metis length_map length_Cons list.size(3) numeral_2_eq_2)
  then have "plumbed ps" using r by auto
  ultimately show ?thesis by (intro exI [of _ b] exI [of _ ps] conjI)
qed

text \<open>
  The array \<open>command_path\<close> holds 10 stages and nothing checks the count: a line
  with more than 10 stages makes \<open>_command_\<close> write past it.
\<close>

theorem pipe_main_overflow:
  assumes "plain_line l" "10 < length (tokens bar l)"
    and "length (command \<sigma>) = 512" "input \<sigma> = l @ NL # rest" "length paths = 10" "stk0 (length l) = NUL"
  shows "pipe_main stk0 stk g args paths \<sigma> = None"
proof -
  obtain b1 b2 where b: "fgets (command \<sigma>) 50 (input \<sigma>) = Some (b1, rest)" "chop_newline b1 = Some b2"
    "cstr b2 = Some l" "length b2 = 512"
    using read_line [OF assms(1), of "command \<sigma>" rest] assms(3,4) by auto
  have "l \<noteq> ''exit''"
  proof
    assume "l = ''exit''"
    then have "length (tokens bar l) \<le> 4" using length_tokens [of bar l] by simp
    with assms(2) show False by simp
  qed
  then have "strcmp_str ''exit'' l \<noteq> 0"
    using strcmp_str_eq_0 [of "''exit''" l] assms(1) by (auto simp: plain_line_def)
  moreover have "length l < 512" using assms(1) by (simp add: plain_line_def)
  ultimately show ?thesis
    using b command_count_result [of b2 l stk0] command_split_overflow [of b2 l paths] assms(2,5,6)
    by (simp add: pipe_main_def)
qed

lemma tokens_long_example: "length (tokens bar ''a|a|a|a|a|a|a|a|a|a|a'') = 11"
  by code_simp

theorem pipe_main_overflow_witness:
  "pipe_main (\<lambda>_. NUL) (\<lambda>_ _. NUL) (\<lambda>_. NUL) [] (replicate 10 None)
     \<lparr>command = replicate 512 NUL, input = ''a|a|a|a|a|a|a|a|a|a|a'' @ [NL]\<rparr> = None"
  by (rule pipe_main_overflow [of "''a|a|a|a|a|a|a|a|a|a|a''" _ "[]"])
     (simp_all add: plain_line_def tokens_long_example)

end
