(* ===== verification/Stdio.thy ===== *)
theory Stdio
  imports CString
begin

text \<open>
  Formatted input and output as the programs use it.  Standard input is a string of
  unread bytes.  \<open>scan_word\<close> is \<open>%s\<close>, \<open>scan_int\<close> is \<open>%d\<close>: both skip white space first;
  a failed \<open>%d\<close> stores nothing and leaves the offending byte unread.  \<open>show_int\<close> is what
  \<open>printf("%d")\<close> prints.  Reading back a printed number yields the number
  (\<open>scan_show_int\<close>).
\<close>

section \<open>Scanning\<close>

definition is_space :: "char \<Rightarrow> bool" where
  "is_space c \<longleftrightarrow> c = CHR 0x20 \<or> (9 \<le> byte_of c \<and> byte_of c \<le> 13)"

definition is_digit :: "char \<Rightarrow> bool" where
  "is_digit c \<longleftrightarrow> 48 \<le> byte_of c \<and> byte_of c \<le> 57"

definition scan_word :: "string \<Rightarrow> string \<times> string" where
  "scan_word inp = (let t = dropWhile is_space inp in
     (takeWhile (\<lambda>c. \<not> is_space c) t, dropWhile (\<lambda>c. \<not> is_space c) t))"

text \<open>\<open>scanf("%s", dst)\<close>: at the end of the input \<open>dst\<close> is left alone; a word that does
  not fit writes past it.\<close>

definition scanf_s :: "buffer \<Rightarrow> string \<Rightarrow> (buffer \<times> string) option" where
  "scanf_s dst inp = (case scan_word inp of
     ([], rest) \<Rightarrow> Some (dst, rest)
   | (w, rest) \<Rightarrow> do { dst' \<leftarrow> put_bytes dst 0 (w @ [NUL]); Some (dst', rest) })"

definition digits_value :: "string \<Rightarrow> int" where
  "digits_value ds = foldl (\<lambda>v c. 10 * v + (int (byte_of c) - 48)) 0 ds"

definition scan_sign :: "string \<Rightarrow> int \<times> string" where
  "scan_sign t = (case t of
     [] \<Rightarrow> (1, [])
   | c # r \<Rightarrow> if c = CHR ''-'' then (-1, r) else if c = CHR ''+'' then (1, r) else (1, t))"

definition scan_int :: "string \<Rightarrow> int option \<times> string" where
  "scan_int inp = (let (sg, t) = scan_sign (dropWhile is_space inp); ds = takeWhile is_digit t in
     (if ds = [] then (None, t) else (Some (sg * digits_value ds), dropWhile is_digit t)))"

text \<open>\<open>scanf("%d", &x)\<close> into a 32-bit \<open>int\<close>: a number outside its range is undefined.\<close>

definition scanf_d :: "string \<Rightarrow> (int option \<times> string) option" where
  "scanf_d inp = (case scan_int inp of
     (None, rest) \<Rightarrow> Some (None, rest)
   | (Some i, rest) \<Rightarrow> (if - (2 ^ 31) \<le> i \<and> i < 2 ^ 31 then Some (Some i, rest) else None))"

text \<open>\<open>wgetstr(win, b)\<close> of curses stores the typed line and a zero byte.\<close>

definition wgetstr :: "buffer \<Rightarrow> string \<Rightarrow> buffer option" where
  "wgetstr b line = put_bytes b 0 (line @ [NUL])"

section \<open>Printing\<close>

definition digit_char :: "nat \<Rightarrow> char" where
  "digit_char d = char_of (48 + d)"

fun show_nat :: "nat \<Rightarrow> string" where
  "show_nat n = (if n < 10 then [digit_char n] else show_nat (n div 10) @ [digit_char (n mod 10)])"

declare show_nat.simps [simp del]

definition show_int :: "int \<Rightarrow> string" where
  "show_int i = (if i < 0 then CHR ''-'' # show_nat (nat (- i)) else show_nat (nat i))"

section \<open>Reading back what was printed\<close>

lemma byte_of_digit_char [simp]: "d < 10 \<Longrightarrow> byte_of (digit_char d) = 48 + d"
  by (simp add: digit_char_def)

lemma digit_char_is_digit [simp]: "d < 10 \<Longrightarrow> is_digit (digit_char d)"
  by (simp add: is_digit_def)

lemma digit_not_special: "is_digit c \<Longrightarrow> \<not> is_space c \<and> c \<noteq> CHR ''-'' \<and> c \<noteq> CHR ''+'' \<and> c \<noteq> NUL"
  by (auto simp: is_digit_def is_space_def)

lemma show_nat_digits: "list_all is_digit (show_nat n) \<and> show_nat n \<noteq> []"
proof (induction n rule: show_nat.induct)
  case (1 n)
  then show ?case by (cases "n < 10") (simp_all add: show_nat.simps [of n])
qed

lemma digits_value_show: "digits_value (show_nat n) = int n"
proof (induction n rule: show_nat.induct)
  case (1 n)
  show ?case
  proof (cases "n < 10")
    case True
    then show ?thesis by (simp add: show_nat.simps [of n] digits_value_def)
  next
    case False
    have "digits_value (show_nat n) = 10 * digits_value (show_nat (n div 10)) + int (n mod 10)"
      using False by (subst show_nat.simps) (simp add: digits_value_def)
    then show ?thesis using 1 [OF False] by presburger
  qed
qed

lemma scan_digits:
  assumes "list_all is_digit ds" "ds \<noteq> []" "rest = [] \<or> \<not> is_digit (hd rest)"
  shows "takeWhile is_digit (ds @ rest) = ds \<and> dropWhile is_digit (ds @ rest) = rest"
proof -
  have t: "takeWhile is_digit rest = []" "dropWhile is_digit rest = rest"
    using assms(3) by (cases rest; simp)+
  have "\<forall>c \<in> set ds. is_digit c" using assms(1) by (simp add: list_all_iff)
  with t show ?thesis by (simp add: takeWhile_append2 dropWhile_append2)
qed

lemma scan_show_int:
  assumes "rest = [] \<or> \<not> is_digit (hd rest)"
  shows "scan_int (show_int i @ rest) = (Some i, rest)"
proof -
  let ?n = "show_nat (nat \<bar>i\<bar>)"
  obtain c cs where c: "?n = c # cs" "is_digit c"
    using show_nat_digits [of "nat \<bar>i\<bar>"] by (cases ?n) auto
  note d = digit_not_special [OF c(2)]
  have s: "takeWhile is_digit (?n @ rest) = ?n" "dropWhile is_digit (?n @ rest) = rest"
    using scan_digits [OF _ _ assms, of ?n] show_nat_digits [of "nat \<bar>i\<bar>"] by auto
  have m: "\<not> is_space (CHR ''-'')" by (simp add: is_space_def)
  show ?thesis
  proof (cases "i < 0")
    case True
    then have "dropWhile is_space (show_int i @ rest) = CHR ''-'' # ?n @ rest"
      using m by (simp add: show_int_def)
    then have "scan_int (show_int i @ rest) = (Some (- digits_value ?n), rest)"
      using s c(1) by (simp add: scan_int_def scan_sign_def)
    with True show ?thesis by (simp add: digits_value_show)
  next
    case False
    then have "dropWhile is_space (show_int i @ rest) = ?n @ rest" using c(1) d by (simp add: show_int_def)
    moreover have "scan_sign (?n @ rest) = (1, ?n @ rest)" using c(1) d by (simp add: scan_sign_def)
    ultimately have "scan_int (show_int i @ rest) = (Some (digits_value ?n), rest)"
      using s c(1) by (simp add: scan_int_def)
    with False show ?thesis by (simp add: digits_value_show)
  qed
qed

lemma scanf_d_show:
  assumes "- (2 ^ 31) \<le> i" "i < 2 ^ 31" "rest = [] \<or> \<not> is_digit (hd rest)"
  shows "scanf_d (show_int i @ rest) = Some (Some i, rest)"
  using assms by (simp add: scanf_d_def scan_show_int)

lemma scan_int_space [simp]: "is_space c \<Longrightarrow> scan_int (c # s) = scan_int s"
  by (simp add: scan_int_def)

lemma scanf_d_space [simp]: "is_space c \<Longrightarrow> scanf_d (c # s) = scanf_d s"
  by (simp add: scanf_d_def)

lemma scanf_s_space [simp]: "is_space c \<Longrightarrow> scanf_s dst (c # s) = scanf_s dst s"
  by (simp add: scanf_s_def scan_word_def)

lemma scanf_s_scan:
  assumes "scan_word inp = (w, rest)" "w \<noteq> []" "length w < length dst"
  shows "scanf_s dst inp = Some (w @ NUL # drop (Suc (length w)) dst, rest)"
proof -
  obtain x xs where "w = x # xs" using assms(2) by (cases w) auto
  with assms show ?thesis by (simp add: scanf_s_def put_bytes_def)
qed

lemma scan_word_word:
  assumes "w \<noteq> []" "\<forall>c \<in> set w. \<not> is_space c" "is_space c"
  shows "scan_word (w @ c # rest) = (w, c # rest)"
proof -
  obtain x xs where "w = x # xs" "\<not> is_space x" using assms(1,2) by (cases w) auto
  then have "dropWhile is_space (w @ c # rest) = w @ c # rest" by simp
  then show ?thesis using assms(2,3) by (simp add: scan_word_def takeWhile_append2 dropWhile_append2)
qed

lemma scan_word_space [simp]: "is_space c \<Longrightarrow> scan_word (c # s) = scan_word s"
  by (simp add: scan_word_def)

lemma scanf_s_overflow:
  "fst (scan_word inp) = w \<Longrightarrow> length dst \<le> length w \<Longrightarrow> w \<noteq> [] \<Longrightarrow> scanf_s dst inp = None"
  by (cases "scan_word inp") (auto simp: scanf_s_def put_bytes_def split: list.splits)

lemma scanf_s_length: "scanf_s dst inp = Some (dst', rest) \<Longrightarrow> length dst' = length dst"
  by (auto simp: scanf_s_def dest: put_bytes_length split: prod.splits list.splits bind_splits)

end
