(* ===== verification/Phonebook.thy ===== *)
theory Phonebook
  imports Stdio
begin

text \<open>
  The phone book of \<open>structure/struct_home.c\<close>: an array of records grown by
  \<open>realloc\<close>, three text fields of fixed size filled by \<open>scanf("%s")\<close>, and a menu loop.
  The global variables \<open>subs\<close> and \<open>amt\<close>, the unread standard input and the number of
  blocks allocated so far are the state; \<open>g k\<close> is what the \<open>k\<close>-th allocated block holds
  before it is written.  What is printed is returned as a list of messages.
\<close>

section \<open>Data\<close>

record entry =
  eid :: int
  name :: buffer
  surname :: buffer
  number :: buffer

record book =
  subs :: "entry list"
  amt :: nat
  allocs :: nat
  input :: string

datatype msg = Added | Removed | NoEntries | NoSuchEntry | BadItem | Quit
  | Listed int string string string
  | Found string string string

type_synonym blocks = "nat \<Rightarrow> nat \<Rightarrow> char"

text \<open>Record \<open>i\<close> of an uninitialised array: 64 bytes each, the fields at 4, 25 and 46.\<close>

definition fresh_entry :: "(nat \<Rightarrow> char) \<Rightarrow> nat \<Rightarrow> entry" where
  "fresh_entry h i = \<lparr> eid = foldr (\<lambda>j v. 256 * v + int (byte_of (h (64 * i + j)))) [0..<4] 0,
     name = fresh_block (\<lambda>j. h (64 * i + 4 + j)) 21,
     surname = fresh_block (\<lambda>j. h (64 * i + 25 + j)) 21,
     number = fresh_block (\<lambda>j. h (64 * i + 46 + j)) 16 \<rparr>"

section \<open>Operations\<close>

definition add_sub :: "blocks \<Rightarrow> book \<Rightarrow> (msg list \<times> book) option" where
  "add_sub g b = do {
     let arr = (if amt b = 0 then [fresh_entry (g (allocs b)) 0]
                else take (amt b) (subs b) @ [fresh_entry (g (allocs b)) (amt b)]);
     e \<leftarrow> buf_get arr (amt b);
     (nm, in1) \<leftarrow> scanf_s (name e) (input b);
     (sn, in2) \<leftarrow> scanf_s (surname e) in1;
     (nr, in3) \<leftarrow> scanf_s (number e) in2;
     arr' \<leftarrow> buf_set arr (amt b) \<lparr> eid = int (amt b), name = nm, surname = sn, number = nr \<rparr>;
     Some ([Added], b \<lparr> subs := arr', amt := Suc (amt b), allocs := Suc (allocs b), input := in3 \<rparr>)
   }"

text \<open>One round of the copying loop.  Both branches take the number of the next record.\<close>

definition copy_entry :: "int \<Rightarrow> entry list \<Rightarrow> nat \<Rightarrow> entry list \<Rightarrow> entry list option" where
  "copy_entry id_r old i new = do {
     e \<leftarrow> buf_get new i;
     (if int i \<ge> id_r then do {
        s \<leftarrow> buf_get old (i + 1);
        nm \<leftarrow> strcpy (name e) (name s);
        sn \<leftarrow> strcpy (surname e) (surname s);
        nr \<leftarrow> strcpy (number e) (number s);
        buf_set new i \<lparr> eid = int i, name = nm, surname = sn, number = nr \<rparr>
      } else do {
        s \<leftarrow> buf_get old i;
        s1 \<leftarrow> buf_get old (i + 1);
        nm \<leftarrow> strcpy (name e) (name s);
        sn \<leftarrow> strcpy (surname e) (surname s);
        nr \<leftarrow> strcpy (number e) (number s1);
        buf_set new i \<lparr> eid = int i, name = nm, surname = sn, number = nr \<rparr>
      })
   }"

text \<open>A failed \<open>%d\<close> leaves \<open>id_r\<close> uninitialised.\<close>

definition remove_sub :: "blocks \<Rightarrow> book \<Rightarrow> (msg list \<times> book) option" where
  "remove_sub g b =
     (if amt b = 0 then Some ([NoEntries], b)
      else do {
        (r, in1) \<leftarrow> scanf_d (input b);
        id_r \<leftarrow> r;
        (if id_r > int (amt b) - 1 then Some ([NoSuchEntry], b \<lparr> input := in1 \<rparr>)
         else do {
           let new = map (fresh_entry (g (allocs b))) [0..<amt b - 1];
           new' \<leftarrow> fold_opt (copy_entry id_r (subs b)) [0..<amt b - 1] new;
           Some ([Removed], b \<lparr> subs := new', amt := amt b - 1, allocs := Suc (allocs b), input := in1 \<rparr>)
         })
      })"

text \<open>\<open>sub_search\<close> reads the sought number into a 16-byte array on the stack, whose
  contents before are those of block \<open>allocs b\<close>.\<close>

definition search_entry :: "string \<Rightarrow> entry \<Rightarrow> msg list \<Rightarrow> msg list option" where
  "search_entry sought e out = do {
     d \<leftarrow> strcmp (number e) sought;
     (if d = 0 then do {
        sn \<leftarrow> cstr (surname e); nm \<leftarrow> cstr (name e); nr \<leftarrow> cstr (number e);
        Some (out @ [Found sn nm nr])
      } else Some out)
   }"

definition sub_search :: "blocks \<Rightarrow> book \<Rightarrow> (msg list \<times> book) option" where
  "sub_search g b =
     (if amt b = 0 then Some ([NoEntries], b)
      else do {
        (buf, in1) \<leftarrow> scanf_s (fresh_block (g (allocs b)) 16) (input b);
        sought \<leftarrow> cstr buf;
        out \<leftarrow> fold_opt (\<lambda>i out. do { e \<leftarrow> buf_get (subs b) i; search_entry sought e out }) [0..<amt b] [];
        Some (out, b \<lparr> allocs := Suc (allocs b), input := in1 \<rparr>)
      })"

definition list_entry :: "entry \<Rightarrow> msg list \<Rightarrow> msg list option" where
  "list_entry e out = do {
     sn \<leftarrow> cstr (surname e); nm \<leftarrow> cstr (name e); nr \<leftarrow> cstr (number e);
     Some (out @ [Listed (eid e) sn nm nr])
   }"

definition show_phonebook :: "book \<Rightarrow> (msg list \<times> book) option" where
  "show_phonebook b =
     (if amt b = 0 then Some ([NoEntries], b)
      else do {
        out \<leftarrow> fold_opt (\<lambda>i out. do { e \<leftarrow> buf_get (subs b) i; list_entry e out }) [0..<amt b] [];
        Some (out, b)
      })"

text \<open>One round of the menu loop.  \<open>item\<close> keeps its value when \<open>%d\<close> fails, and is
  uninitialised (\<open>None\<close>) before the first number.\<close>

type_synonym menu_state = "int option \<times> book"

definition menu_step :: "blocks \<Rightarrow> menu_state \<Rightarrow> (msg list \<times> menu_state) option" where
  "menu_step g = (\<lambda>(item, b). do {
     (r, in1) \<leftarrow> scanf_d (input b);
     let item' = (case r of None \<Rightarrow> item | Some i \<Rightarrow> Some i);
     let b = b \<lparr> input := in1 \<rparr>;
     i \<leftarrow> item';
     (out, b') \<leftarrow> (if i = 1 then add_sub g b
        else if i = 2 then remove_sub g b
        else if i = 3 then sub_search g b
        else if i = 4 then show_phonebook b
        else if i = 0 then Some ([Quit], b)
        else Some ([BadItem], b));
     Some (out, item', b')
   })"

definition quits :: "msg list \<Rightarrow> bool" where "quits out \<longleftrightarrow> out = [Quit]"

definition start_book :: "string \<Rightarrow> book" where
  "start_book inp = \<lparr> subs = [], amt = 0, allocs = 0, input = inp \<rparr>"

section \<open>Well-formed books and their contents\<close>

definition wf_entry :: "nat \<Rightarrow> entry \<Rightarrow> bool" where
  "wf_entry i e \<longleftrightarrow> eid e = int i \<and> length (name e) = 21 \<and> length (surname e) = 21 \<and> length (number e) = 16"

definition wf_book :: "book \<Rightarrow> bool" where
  "wf_book b \<longleftrightarrow> length (subs b) = amt b \<and> (\<forall>i < amt b. wf_entry i (subs b ! i))"

definition terminated :: "entry \<Rightarrow> bool" where
  "terminated e \<longleftrightarrow> cstr (name e) \<noteq> None \<and> cstr (surname e) \<noteq> None \<and> cstr (number e) \<noteq> None"

definition readable :: "book \<Rightarrow> bool" where
  "readable b \<longleftrightarrow> (\<forall>e \<in> set (subs b). terminated e)"

text \<open>The abstract book: names, surnames and numbers in the order of the records.\<close>

type_synonym person = "string \<times> string \<times> string"

definition person_of :: "entry \<Rightarrow> person" where
  "person_of e = (the (cstr (name e)), the (cstr (surname e)), the (cstr (number e)))"

definition people :: "book \<Rightarrow> person list" where
  "people b = map person_of (subs b)"

definition remove_nth :: "nat \<Rightarrow> 'a list \<Rightarrow> 'a list" where
  "remove_nth i xs = take i xs @ drop (Suc i) xs"

lemma wf_start [simp]: "wf_book (start_book inp)" "readable (start_book inp)" "people (start_book inp) = []"
  by (simp_all add: start_book_def wf_book_def readable_def people_def)

lemma fresh_entry_sizes [simp]:
  "length (name (fresh_entry h i)) = 21" "length (surname (fresh_entry h i)) = 21"
  "length (number (fresh_entry h i)) = 16"
  by (simp_all add: fresh_entry_def)


lemma buf_update_wf:
  "length xs = n \<Longrightarrow> i < n \<Longrightarrow> buf_set xs i x = Some (xs[i := x])"
  by (simp add: buffer_simps)

section \<open>Adding\<close>

text \<open>
  C12.  Adding a record reads three words, appends the person to the book and keeps it
  well formed; it is defined exactly when the words fit the fields, and a name or
  surname of more than 20 or a number of more than 15 bytes writes past its field.
\<close>

theorem phonebook_add:
  assumes wf: "wf_book b"
    and words: "scan_word (input b) = (w1, in1)" "scan_word in1 = (w2, in2)" "scan_word in2 = (w3, in3)"
    and ne: "w1 \<noteq> []" "w2 \<noteq> []" "w3 \<noteq> []" and nn: "NUL \<notin> set w1" "NUL \<notin> set w2" "NUL \<notin> set w3"
  shows "(length w1 \<le> 20 \<and> length w2 \<le> 20 \<and> length w3 \<le> 15 \<longrightarrow>
     (\<exists>b'. add_sub g b = Some ([Added], b') \<and> wf_book b' \<and> (readable b \<longrightarrow> readable b') \<and>
        people b' = people b @ [(w1, w2, w3)] \<and> input b' = in3)) \<and>
   (\<not> (length w1 \<le> 20 \<and> length w2 \<le> 20 \<and> length w3 \<le> 15) \<longrightarrow> add_sub g b = None)"
proof -
  let ?f = "fresh_entry (g (allocs b)) (amt b)"
  have len: "length (subs b) = amt b" using wf by (simp add: wf_book_def)
  then have arr: "(if amt b = 0 then [fresh_entry (g (allocs b)) 0] else take (amt b) (subs b) @ [?f]) = subs b @ [?f]"
    by auto
  have get: "buf_get (subs b @ [?f]) (amt b) = Some ?f" using len by (simp add: buffer_simps nth_append)
  let ?e = "\<lambda>nm sn nr. \<lparr> eid = int (amt b), name = nm, surname = sn, number = nr \<rparr>"
  have set: "buf_set (subs b @ [?f]) (amt b) e = Some (subs b @ [e])" for e
    using len by (simp add: buffer_simps list_update_append)
  note run = add_sub_def Let_def arr get set
  show ?thesis
  proof (intro conjI impI)
    assume fit: "length w1 \<le> 20 \<and> length w2 \<le> 20 \<and> length w3 \<le> 15"
    let ?x = "?e (w1 @ NUL # drop (Suc (length w1)) (name ?f)) (w2 @ NUL # drop (Suc (length w2)) (surname ?f))
      (w3 @ NUL # drop (Suc (length w3)) (number ?f))"
    let ?b = "b \<lparr> subs := subs b @ [?x], amt := Suc (amt b), allocs := Suc (allocs b), input := in3 \<rparr>"
    have "add_sub g b = Some ([Added], ?b)"
      using fit words ne by (simp add: run scanf_s_scan)
    moreover have "wf_book ?b" using wf fit by (auto simp: wf_book_def nth_append wf_entry_def less_Suc_eq)
    moreover have "readable b \<longrightarrow> readable ?b" using nn by (simp add: readable_def terminated_def)
    moreover have "people ?b = people b @ [(w1, w2, w3)]" using nn by (simp add: people_def person_of_def)
    ultimately show "\<exists>b'. add_sub g b = Some ([Added], b') \<and> wf_book b' \<and> (readable b \<longrightarrow> readable b') \<and>
        people b' = people b @ [(w1, w2, w3)] \<and> input b' = in3" by (intro exI [of _ ?b]) simp
  next
    assume "\<not> (length w1 \<le> 20 \<and> length w2 \<le> 20 \<and> length w3 \<le> 15)"
    then consider "20 < length w1" | "length w1 \<le> 20" "20 < length w2"
      | "length w1 \<le> 20" "length w2 \<le> 20" "15 < length w3" by linarith
    then show "add_sub g b = None"
      using words ne by cases (simp_all add: run scanf_s_scan scanf_s_overflow)
  qed
qed

section \<open>Removing\<close>

definition copied :: "int \<Rightarrow> entry list \<Rightarrow> nat \<Rightarrow> entry \<Rightarrow> entry" where
  "copied r old i e =
     (let s = (if int i \<ge> r then old ! (i + 1) else old ! i); wr = (\<lambda>d f. f @ NUL # drop (Suc (length f)) d) in
      \<lparr> eid = int i, name = wr (name e) (the (cstr (name s))),
        surname = wr (surname e) (the (cstr (surname s))),
        number = wr (number e) (the (cstr (number (old ! (i + 1))))) \<rparr>)"

definition sized :: "entry \<Rightarrow> bool" where
  "sized e \<longleftrightarrow> length (name e) = 21 \<and> length (surname e) = 21 \<and> length (number e) = 16"

lemma wf_sized: "wf_book b \<Longrightarrow> i < amt b \<Longrightarrow> sized (subs b ! i)"
  by (simp add: wf_book_def wf_entry_def sized_def)

lemma readable_nth: "readable b \<Longrightarrow> wf_book b \<Longrightarrow> i < amt b \<Longrightarrow> terminated (subs b ! i)"
  by (simp add: readable_def wf_book_def)

lemma field_fits: "cstr f = Some s \<Longrightarrow> length f = n \<Longrightarrow> length s < n"
  using cstr_length by auto

lemma copy_entry_copied:
  assumes "i < n" "length new = n" "sized (new ! i)" "length old = Suc n"
    and old: "\<forall>j < Suc n. sized (old ! j) \<and> terminated (old ! j)"
  shows "copy_entry r old i new = Some (new[i := copied r old i (new ! i)])"
proof -
  have j: "sized (old ! j)" "terminated (old ! j)" if "j < Suc n" for j using old that by auto
  have cp: "strcpy (fl (new ! i)) (fl (old ! j)) =
      Some (the (cstr (fl (old ! j))) @ NUL # drop (Suc (length (the (cstr (fl (old ! j)))))) (fl (new ! i)))"
    if jn: "j < Suc n" and m: "fl \<in> {name, surname, number}" for j fl
  proof -
    obtain s where s: "cstr (fl (old ! j)) = Some s" using j(2) [OF jn] m by (auto simp: terminated_def)
    moreover have "length (fl (old ! j)) = length (fl (new ! i))"
      using j(1) [OF jn] assms(3) m by (auto simp: sized_def)
    ultimately show ?thesis using field_fits [OF s] by (simp add: strcpy_Some)
  qed
  show ?thesis
    using assms(1,2,4) cp [of "Suc i"] cp [of i]
    by (simp add: copy_entry_def copied_def buffer_simps Let_def)
qed

lemma copied_entry:
  assumes "sized e" "\<forall>j < Suc n. sized (old ! j) \<and> terminated (old ! j)" "i < n"
  shows "wf_entry i (copied r old i e) \<and> terminated (copied r old i e) \<and>
    person_of (copied r old i e) =
      (let s = person_of (old ! (if int i \<ge> r then i + 1 else i)) in
       (fst s, fst (snd s), snd (snd (person_of (old ! (i + 1))))))"
proof -
  have fl: "\<exists>s. cstr (fl (old ! j)) = Some s \<and> NUL \<notin> set s \<and> length s < length (fl e)"
    if jn: "j < Suc n" and m: "fl \<in> {name, surname, number}" for j fl
  proof -
    obtain s where s: "cstr (fl (old ! j)) = Some s" using assms(2) jn m by (fastforce simp: terminated_def)
    moreover have "length (fl (old ! j)) = length (fl e)" using assms(1,2) jn m by (fastforce simp: sized_def)
    ultimately show ?thesis using field_fits [OF s] cstr_no_NUL [OF s] by simp
  qed
  let ?k = "if int i \<ge> r then i + 1 else i"
  have k: "?k < Suc n" "i + 1 < Suc n" using assms(3) by auto
  obtain nm sn nr where f: "cstr (name (old ! ?k)) = Some nm" "NUL \<notin> set nm" "length nm < length (name e)"
      "cstr (surname (old ! ?k)) = Some sn" "NUL \<notin> set sn" "length sn < length (surname e)"
      "cstr (number (old ! (i + 1))) = Some nr" "NUL \<notin> set nr" "length nr < length (number e)"
    using fl [OF k(1), of name] fl [OF k(1), of surname] fl [OF k(2), of number] by auto
  have "copied r old i e = \<lparr> eid = int i, name = nm @ NUL # drop (Suc (length nm)) (name e),
      surname = sn @ NUL # drop (Suc (length sn)) (surname e), number = nr @ NUL # drop (Suc (length nr)) (number e) \<rparr>"
    using f by (auto simp: copied_def Let_def split: if_splits)
  then show ?thesis
    using f assms(1) by (auto simp: wf_entry_def terminated_def person_of_def sized_def Let_def split: if_splits)
qed

lemma remove_nth_nth:
  "i \<le> n \<Longrightarrow> length xs = Suc n \<Longrightarrow> remove_nth i xs = map (\<lambda>j. xs ! (if i \<le> j then j + 1 else j)) [0..<n]"
  by (rule nth_equalityI) (auto simp: remove_nth_def nth_append)

lemma remove_loop:
  assumes wf: "wf_book b" "readable b" "amt b = Suc n" "int n \<ge> r"
  shows "\<exists>es. fold_opt (copy_entry r (subs b)) [0..<n] (map (fresh_entry h) [0..<n]) = Some es \<and>
    length es = n \<and> (\<forall>i < n. wf_entry i (es ! i) \<and> terminated (es ! i)) \<and>
    map (\<lambda>(x, y, z). (x, y)) (map person_of es) = remove_nth (nat r) (map (\<lambda>(x, y, z). (x, y)) (people b)) \<and>
    map (\<lambda>(x, y, z). z) (map person_of es) = tl (map (\<lambda>(x, y, z). z) (people b))"
proof -
  let ?new = "map (fresh_entry h) [0..<n]" and ?old = "subs b"
  let ?es = "map (\<lambda>i. copied r ?old i (?new ! i)) [0..<n]"
  have len: "length ?old = Suc n" using wf by (simp add: wf_book_def)
  have old: "\<forall>j < Suc n. sized (?old ! j) \<and> terminated (?old ! j)"
    using wf_sized [OF wf(1)] readable_nth [OF wf(2,1)] wf(3) by simp
  have fresh: "sized (fresh_entry h i)" for i by (simp add: sized_def)
  have "fold_opt (copy_entry r ?old) [0..<n] ?new = Some ?es"
    by (rule fold_opt_update [where ok = sized]) (auto simp: fresh intro!: copy_entry_copied [OF _ _ _ len old])
  moreover have one: "wf_entry i (?es ! i) \<and> terminated (?es ! i) \<and> person_of (?es ! i) =
      (let s = person_of (?old ! (if int i \<ge> r then i + 1 else i)) in
       (fst s, fst (snd s), snd (snd (person_of (?old ! (i + 1))))))" if "i < n" for i
    using copied_entry [OF fresh old that] that by simp
  moreover have "map (\<lambda>(x, y, z). (x, y)) (map person_of ?es) = remove_nth (nat r) (map (\<lambda>(x, y, z). (x, y)) (people b))"
  proof -
    have "nat r \<le> n" using wf(4) by simp
    moreover have "length (map (\<lambda>(x, y, z). (x, y)) (people b)) = Suc n" using len by (simp add: people_def)
    ultimately show ?thesis
      using len one by (intro nth_equalityI)
        (simp_all add: remove_nth_nth people_def Let_def split_beta nat_le_iff)
  qed
  moreover have "map (\<lambda>(x, y, z). z) (map person_of ?es) = tl (map (\<lambda>(x, y, z). z) (people b))"
    using len one by (intro nth_equalityI) (simp_all add: people_def nth_tl Let_def split_beta del: map_map)
  ultimately show ?thesis by (intro exI [of _ ?es]) simp
qed

definition numbers :: "book \<Rightarrow> string list" where
  "numbers b = map (\<lambda>(x, y, z). z) (people b)"

lemma pairs_eq_iff:
  "xs = ys \<longleftrightarrow> map (\<lambda>(x, y, z). (x, y)) xs = map (\<lambda>(x, y, z). (x, y)) ys \<and>
     map (\<lambda>(x, y, z). z) xs = map (\<lambda>(x, y, z). z) ys"
proof (induction xs arbitrary: ys)
  case (Cons x xs)
  then show ?case by (cases ys) (auto simp: split_beta prod_eq_iff)
qed auto

lemma remove_nth_map: "map f (remove_nth i xs) = remove_nth i (map f xs)"
  by (simp add: remove_nth_def take_map drop_map)

lemma remove_nth_tl:
  assumes "i < length xs"
  shows "remove_nth i xs = tl xs \<longleftrightarrow> (\<forall>j < i. xs ! j = xs ! Suc j)"
proof -
  obtain n where n: "length xs = Suc n" "i \<le> n" using assms by (cases "length xs") auto
  have "tl xs = map (\<lambda>j. xs ! Suc j) [0..<n]" using n by (intro nth_equalityI) (simp_all add: nth_tl)
  with n show ?thesis by (auto simp: remove_nth_nth)
qed

text \<open>
  C13.  Removing record \<open>r\<close> drops the right name and surname and renumbers the records,
  but shifts the telephone numbers of all the records before it: the book after it has
  the numbers of all records but the first.  It is the book without record \<open>r\<close> only
  when the numbers up to it are all the same (always so for the first record).  An id
  past the end changes nothing, a negative one removes the first record.
\<close>

theorem phonebook_remove:
  assumes "wf_book b" "readable b" "0 < amt b" and inp: "scanf_d (input b) = Some (Some r, in1)"
  shows "(int (amt b) \<le> r \<longrightarrow> remove_sub g b = Some ([NoSuchEntry], b \<lparr> input := in1 \<rparr>)) \<and>
    (r < int (amt b) \<longrightarrow> (\<exists>b'. remove_sub g b = Some ([Removed], b') \<and> wf_book b' \<and> readable b' \<and>
       map (\<lambda>(x, y, z). (x, y)) (people b') = remove_nth (nat r) (map (\<lambda>(x, y, z). (x, y)) (people b)) \<and>
       numbers b' = tl (numbers b) \<and> input b' = in1 \<and>
       (people b' = remove_nth (nat r) (people b) \<longleftrightarrow> (\<forall>j < nat r. numbers b ! j = numbers b ! Suc j))))"
proof (intro conjI impI)
  assume "int (amt b) \<le> r"
  then show "remove_sub g b = Some ([NoSuchEntry], b \<lparr> input := in1 \<rparr>)"
    using assms(3) inp by (simp add: remove_sub_def)
next
  assume r: "r < int (amt b)"
  obtain n where n: "amt b = Suc n" using assms(3) by (cases "amt b") auto
  then obtain es where es: "fold_opt (copy_entry r (subs b)) [0..<n] (map (fresh_entry (g (allocs b))) [0..<n]) = Some es"
      "length es = n" "\<forall>i < n. wf_entry i (es ! i) \<and> terminated (es ! i)"
      "map (\<lambda>(x, y, z). (x, y)) (map person_of es) = remove_nth (nat r) (map (\<lambda>(x, y, z). (x, y)) (people b))"
      "map (\<lambda>(x, y, z). z) (map person_of es) = tl (numbers b)"
    using remove_loop [OF assms(1,2) n, of r "g (allocs b)"] r unfolding numbers_def by auto
  let ?b = "b \<lparr> subs := es, amt := n, allocs := Suc (allocs b), input := in1 \<rparr>"
  have p: "people ?b = map person_of es" by (simp add: people_def)
  have len: "length (numbers b) = Suc n" using assms(1) n by (simp add: numbers_def people_def wf_book_def)
  have "people ?b = remove_nth (nat r) (people b) \<longleftrightarrow> tl (numbers b) = remove_nth (nat r) (numbers b)"
    unfolding pairs_eq_iff [of "people ?b"] by (simp only: p es(4,5) remove_nth_map numbers_def simp_thms)
  then have "people ?b = remove_nth (nat r) (people b) \<longleftrightarrow> (\<forall>j < nat r. numbers b ! j = numbers b ! Suc j)"
    using remove_nth_tl [of "nat r" "numbers b"] len r n by (auto simp: eq_commute)
  moreover have "remove_sub g b = Some ([Removed], ?b)"
    using n inp r es(1) by (simp add: remove_sub_def Let_def)
  moreover have "wf_book ?b" "readable ?b" using es(2,3) by (auto simp: wf_book_def readable_def in_set_conv_nth)
  ultimately show "\<exists>b'. remove_sub g b = Some ([Removed], b') \<and> wf_book b' \<and> readable b' \<and>
       map (\<lambda>(x, y, z). (x, y)) (people b') = remove_nth (nat r) (map (\<lambda>(x, y, z). (x, y)) (people b)) \<and>
       numbers b' = tl (numbers b) \<and> input b' = in1 \<and>
       (people b' = remove_nth (nat r) (people b) \<longleftrightarrow> (\<forall>j < nat r. numbers b ! j = numbers b ! Suc j))"
    using es(4,5) p by (intro exI [of _ ?b]) (simp add: numbers_def)
qed

section \<open>Searching and listing\<close>

lemma search_entry_Some:
  assumes "terminated e" "NUL \<notin> set w"
  shows "search_entry w e out = Some (out @
    (let (nm, sn, nr) = person_of e in if nr = w then [Found sn nm nr] else []))"
proof -
  obtain nm sn nr where c: "cstr (name e) = Some nm" "cstr (surname e) = Some sn" "cstr (number e) = Some nr"
    using assms(1) by (auto simp: terminated_def)
  then show ?thesis
    using strcmp_str_eq_0 [OF cstr_no_NUL [OF c(3)] assms(2)]
    by (simp add: search_entry_def strcmp_Some person_of_def)
qed

text \<open>
  A search prints exactly the records with the sought number, in their order, and
  changes nothing; a sought number of more than 15 bytes writes past the local array.
\<close>

theorem phonebook_search:
  assumes "wf_book b" "readable b" "0 < amt b"
    and w: "scan_word (input b) = (w, in1)" "w \<noteq> []" "NUL \<notin> set w"
  shows "(length w \<le> 15 \<longrightarrow> sub_search g b =
      Some ([Found sn nm nr. (nm, sn, nr) \<leftarrow> people b, nr = w], b \<lparr> allocs := Suc (allocs b), input := in1 \<rparr>)) \<and>
    (15 < length w \<longrightarrow> sub_search g b = None)"
proof (intro conjI impI)
  let ?h = "\<lambda>e. let (nm, sn, nr) = person_of e in if nr = w then [Found sn nm nr] else []"
  assume fit: "length w \<le> 15"
  have n: "amt b = length (subs b)" using assms(1) by (simp add: wf_book_def)
  have "fold_opt (\<lambda>i out. do { e \<leftarrow> buf_get (subs b) i; search_entry w e out }) [0..<amt b] [] =
      Some ([] @ concat (map ?h (subs b)))"
    unfolding fold_opt_indices [OF n, of "search_entry w" "[]"]
    using assms(2) w(3) by (intro fold_opt_appends search_entry_Some) (auto simp: readable_def)
  moreover have "concat (map ?h (subs b)) = [Found sn nm nr. (nm, sn, nr) \<leftarrow> people b, nr = w]"
    by (simp add: people_def comp_def split_beta Let_def)
  moreover have "scanf_s (fresh_block (g (allocs b)) 16) (input b) =
      Some (w @ NUL # drop (Suc (length w)) (fresh_block (g (allocs b)) 16), in1)"
    using scanf_s_scan [OF w(1,2)] fit by simp
  ultimately show "sub_search g b =
      Some ([Found sn nm nr. (nm, sn, nr) \<leftarrow> people b, nr = w], b \<lparr> allocs := Suc (allocs b), input := in1 \<rparr>)"
    using assms(3) w(3) by (simp add: sub_search_def)
next
  assume "15 < length w"
  then have "scanf_s (fresh_block (g (allocs b)) 16) (input b) = None"
    using w by (intro scanf_s_overflow [of _ w]) simp_all
  then show "sub_search g b = None" using assms(3) by (simp add: sub_search_def)
qed

lemma show_phonebook_all:
  assumes "wf_book b" "readable b" "0 < amt b"
  shows "show_phonebook b =
    Some (map (\<lambda>e. case person_of e of (nm, sn, nr) \<Rightarrow> Listed (eid e) sn nm nr) (subs b), b)"
proof -
  have n: "amt b = length (subs b)" using assms(1) by (simp add: wf_book_def)
  have "fold_opt (\<lambda>i out. do { e \<leftarrow> buf_get (subs b) i; list_entry e out }) [0..<amt b] [] =
      Some ([] @ concat (map (\<lambda>e. [case person_of e of (nm, sn, nr) \<Rightarrow> Listed (eid e) sn nm nr]) (subs b)))"
    unfolding fold_opt_indices [OF n, of list_entry "[]"] using assms(2)
    by (intro fold_opt_appends) (auto simp: readable_def terminated_def list_entry_def person_of_def)
  then show ?thesis using assms(3) by (simp add: show_phonebook_def)
qed

section \<open>The menu loop\<close>

lemma add_sub_wf: "wf_book b \<Longrightarrow> add_sub g b = Some (out, b') \<Longrightarrow> wf_book b'"
  by (auto simp: add_sub_def Let_def wf_book_def buf_set_def buf_get_def nth_append wf_entry_def less_Suc_eq
      dest!: scanf_s_length split: bind_splits if_splits)

lemma strcpy_length: "strcpy dst src = Some dst' \<Longrightarrow> length dst' = length dst"
  using strcpy_result by blast

lemma copy_entry_wf:
  assumes "copy_entry r old i new = Some new'" "sized (new ! i)"
  shows "\<exists>e. new' = new[i := e] \<and> wf_entry i e"
  using assms
  by (auto simp: copy_entry_def buf_get_def buf_set_def sized_def wf_entry_def
      dest!: strcpy_length split: bind_splits if_splits)

lemma copy_loop_wf:
  assumes "fold_opt (copy_entry r old) [0..<m] new = Some es" "\<forall>e \<in> set new. sized e" "m \<le> length new"
  shows "length es = length new \<and> (\<forall>i < m. wf_entry i (es ! i)) \<and> (\<forall>i. m \<le> i \<longrightarrow> es ! i = new ! i)"
  using assms(1,3)
proof (induction m arbitrary: es)
  case (Suc m)
  then obtain mid where mid: "fold_opt (copy_entry r old) [0..<m] new = Some mid" "copy_entry r old m mid = Some es"
    by (auto simp: fold_opt_append split: bind_splits)
  note IH = Suc.IH [OF mid(1)]
  have "sized (mid ! m)" using IH assms(2) Suc.prems by simp
  from copy_entry_wf [OF mid(2) this] obtain e where "es = mid[m := e]" "wf_entry m e" by blast
  then show ?case using IH Suc.prems by (auto simp: less_Suc_eq nth_list_update)
qed simp

lemma remove_sub_wf:
  assumes "wf_book b" "remove_sub g b = Some (out, b')"
  shows "wf_book b'"
proof -
  have fresh: "\<forall>e \<in> set (map (fresh_entry h) [0..<n]). sized e" for h n by (auto simp: sized_def)
  show ?thesis
    using assms copy_loop_wf [OF _ fresh]
    by (fastforce simp: remove_sub_def wf_book_def Let_def split: bind_splits if_splits)
qed

lemma menu_step_wf:
  assumes "wf_book (snd s)" "menu_step g s = Some (out, s')"
  shows "wf_book (snd s')"
proof -
  have inp: "wf_book (b \<lparr> input := i \<rparr>)" if "wf_book b" for b i using that by (simp add: wf_book_def)
  have search: "wf_book b'" if "wf_book b" "sub_search g b = Some (x, b')" for b b' x
    using that by (auto simp: sub_search_def wf_book_def split: bind_splits if_splits)
  have list: "wf_book b'" if "wf_book b" "show_phonebook b = Some (x, b')" for b b' x
    using that by (auto simp: show_phonebook_def split: bind_splits if_splits)
  show ?thesis
    using assms inp [of "snd s"]
    by (auto simp: menu_step_def Let_def split: bind_splits if_splits prod.splits
        dest: add_sub_wf [rotated] remove_sub_wf [rotated] search [rotated] list [rotated])
qed

interpretation menu: main_loop quits "menu_step g" "\<lambda>s. wf_book (snd s)" for g
  by unfold_locales (rule menu_step_wf)

text \<open>
  C14.  In every session, whatever is typed, the book stays well formed after any number of
  rounds of the menu loop: \<open>amt\<close> is the number of records, record \<open>i\<close> has id \<open>i\<close>.
\<close>

theorem phonebook_always_wf:
  assumes "iterate quits (menu_step g) n (None, start_book inp) = Some (outs, (item, b))"
  shows "length (subs b) = amt b \<and> map eid (subs b) = map int [0..<amt b] \<and> length outs \<le> n"
proof -
  have "wf_book (snd (item, b))" using assms by (rule menu.iterate_inv [rotated]) simp
  then have "wf_book b" by simp
  then show ?thesis using menu.iterate_length [OF assms]
    by (auto simp: wf_book_def wf_entry_def intro!: nth_equalityI)
qed

text \<open>
  Input that is not a number blocks the menu: \<open>%d\<close> never consumes it, so the last
  chosen item is carried out again for ever.  After a listing (item 4) the program lists
  the book in every further round and no round asks for anything else.
\<close>

theorem phonebook_menu_stuck:
  assumes "scan_int (input b) = (None, input b)" "wf_book b" "readable b" "0 < amt b"
  shows "iterate quits (menu_step g) n (Some 4, b) =
    Some (replicate n (map (\<lambda>e. case person_of e of (nm, sn, nr) \<Rightarrow> Listed (eid e) sn nm nr) (subs b)), (Some 4, b))"
proof -
  let ?out = "map (\<lambda>e. case person_of e of (nm, sn, nr) \<Rightarrow> Listed (eid e) sn nm nr) (subs b)"
  have step: "menu_step g (Some 4, b) = Some (?out, (Some 4, b))"
    using assms show_phonebook_all [OF assms(2-4)] by (simp add: menu_step_def scanf_d_def)
  have "\<not> quits ?out" by (auto simp: quits_def Cons_eq_map_conv map_eq_Cons_conv split: prod.splits)
  with step show ?thesis by (induction n) simp_all
qed

section \<open>Concrete sessions\<close>

definition demo :: "string \<Rightarrow> book" where
  "demo inp = (case add_sub (\<lambda>_ _. NUL) (start_book (''Ann Lee 11 '')) of
     Some (_, b) \<Rightarrow> (case add_sub (\<lambda>_ _. NUL) (b \<lparr> input := ''Bob Ray 22 '' \<rparr>) of
       Some (_, b') \<Rightarrow> b' \<lparr> input := inp \<rparr> | None \<Rightarrow> b) | None \<Rightarrow> start_book [])"

lemma demo_facts:
  "wf_book (demo inp)" "readable (demo inp)" "amt (demo inp) = 2" "input (demo inp) = inp"
  "people (demo inp) = [(''Ann'', ''Lee'', ''11''), (''Bob'', ''Ray'', ''22'')]"
proof -
  show "wf_book (demo inp)" "readable (demo inp)" "amt (demo inp) = 2" "input (demo inp) = inp"
    "people (demo inp) = [(''Ann'', ''Lee'', ''11''), (''Bob'', ''Ray'', ''22'')]"
    by (code_simp)+
qed

lemma phonebook_add_witness:
  "\<exists>b'. add_sub (\<lambda>_ _. NUL) (demo ''Cy Fox 33 '') = Some ([Added], b') \<and>
     people b' = people (demo ''Cy Fox 33 '') @ [(''Cy'', ''Fox'', ''33'')]"
proof -
  have w: "scan_word (input (demo ''Cy Fox 33 '')) = (''Cy'', '' Fox 33 '')" "scan_word '' Fox 33 '' = (''Fox'', '' 33 '')"
    "scan_word '' 33 '' = (''33'', '' '')" by code_simp+
  show ?thesis using phonebook_add [OF demo_facts(1) w, of "\<lambda>_ _. NUL"] by auto
qed

lemma phonebook_remove_witness:
  "\<exists>b'. remove_sub (\<lambda>_ _. NUL) (demo ''1 '') = Some ([Removed], b') \<and>
     people b' = [(''Ann'', ''Lee'', ''22'')]"
proof -
  have i: "scanf_d (input (demo ''1 '')) = Some (Some 1, '' '')" by code_simp
  have s: "map (\<lambda>(x, y, z). z) (people (demo ''1 '')) = [''11'', ''22'']" by (simp add: demo_facts)
  obtain b' where b': "remove_sub (\<lambda>_ _. NUL) (demo ''1 '') = Some ([Removed], b')"
      "map (\<lambda>(x, y, z). (x, y)) (people b') = remove_nth 1 (map (\<lambda>(x, y, z). (x, y)) (people (demo ''1 '')))"
      "numbers b' = tl (numbers (demo ''1 ''))"
    using phonebook_remove [OF demo_facts(1,2) _ i, of "\<lambda>_ _. NUL"] by (auto simp: demo_facts)
  then have "people b' = [(''Ann'', ''Lee'', ''22'')]"
    unfolding pairs_eq_iff [of "people b'"] by (simp add: numbers_def s demo_facts remove_nth_def)
  with b'(1) show ?thesis by blast
qed

lemma phonebook_search_witness:
  "sub_search (\<lambda>_ _. NUL) (demo ''22 '') =
     Some ([Found ''Ray'' ''Bob'' ''22''], demo ''22 '' \<lparr> allocs := Suc (allocs (demo ''22 '')), input := '' '' \<rparr>)"
proof -
  have w: "scan_word (input (demo ''22 '')) = (''22'', '' '')" by code_simp
  show ?thesis using phonebook_search [OF demo_facts(1,2) _ w, of "\<lambda>_ _. NUL"] by (simp add: demo_facts)
qed

lemma phonebook_always_wf_witness:
  "\<exists>outs item b. iterate quits (menu_step (\<lambda>_ _. NUL)) 3 (None, start_book ''1 A B 5 2 0 0 '') = Some (outs, (item, b)) \<and>
     length (subs b) = amt b \<and> map eid (subs b) = map int [0..<amt b] \<and> length outs \<le> 3"
proof -
  let ?r = "iterate quits (menu_step (\<lambda>_ _. NUL)) 3 (None, start_book ''1 A B 5 2 0 0 '')"
  have "\<not> Option.is_none ?r" by code_simp
  then obtain outs item b where r: "?r = Some (outs, (item, b))" by (cases ?r) auto
  from phonebook_always_wf [OF r] r show ?thesis by blast
qed

lemma phonebook_menu_stuck_witness:
  "iterate quits (menu_step (\<lambda>_ _. NUL)) 5 (Some 4, demo ''x'') =
     Some (replicate 5 [Listed 0 ''Lee'' ''Ann'' ''11'', Listed 1 ''Ray'' ''Bob'' ''22''], (Some 4, demo ''x''))"
proof -
  have s: "scan_int (input (demo ''x'')) = (None, input (demo ''x''))" by code_simp
  have "map (\<lambda>e. case person_of e of (nm, sn, nr) \<Rightarrow> Listed (eid e) sn nm nr) (subs (demo ''x'')) =
    [Listed 0 ''Lee'' ''Ann'' ''11'', Listed 1 ''Ray'' ''Bob'' ''22'']" by code_simp
  then show ?thesis
    using phonebook_menu_stuck [OF s demo_facts(1,2), of "\<lambda>_ _. NUL" 5] by (simp add: demo_facts)
qed

end
