(* ===== verification/NameList.thy ===== *)
theory NameList
  imports CString
begin

text \<open>
  What the two chats share: the list of users is one string, every name followed by a
  newline, and a name is deleted by copying all other names to a second buffer.
  \<open>names_cut\<close> says that this loop is a filter on the list of names; it is proved on top
  of the tokeniser contract of CString.
\<close>

definition unlines :: "string list \<Rightarrow> string" where
  "unlines ws = concat (map (\<lambda>w. w @ [NL]) ws)"

definition nick :: "string \<Rightarrow> bool" where
  "nick w \<longleftrightarrow> w \<noteq> [] \<and> NL \<notin> set w \<and> NUL \<notin> set w"

definition is_NL :: "char \<Rightarrow> bool" where "is_NL c \<longleftrightarrow> c = NL"

text \<open>The body of the loop of both \<open>delete_name\<close> functions.\<close>

definition keep_other :: "buffer \<Rightarrow> string \<Rightarrow> buffer \<Rightarrow> buffer option" where
  "keep_other name ptr name_list = do {
     d \<leftarrow> strcmp name ptr;
     (if d \<noteq> 0 then do {
        l \<leftarrow> strncat name_list (ptr @ [NUL]) (length ptr);
        strcat l [NL, NUL]
      } else Some name_list)
   }"

definition copy_others :: "buffer \<Rightarrow> buffer \<Rightarrow> buffer \<Rightarrow> buffer option" where
  "copy_others name buf name_list = do {
     (ptr, st) \<leftarrow> strtok is_NL (buf, 0);
     (l, st) \<leftarrow> while_tokens (strtok is_NL) (keep_other name) ptr st name_list;
     Some l
   }"

section \<open>Facts\<close>

lemma unlines_simps [simp]:
  "unlines [] = []" "unlines (w # ws) = w @ NL # unlines ws" "unlines (xs @ ys) = unlines xs @ unlines ys"
  by (simp_all add: unlines_def)

lemma unlines_no_NUL: "list_all nick ws \<Longrightarrow> NUL \<notin> set (unlines ws)"
  by (induction ws) (auto simp: nick_def)

lemma unlines_count: "list_all nick ws \<Longrightarrow> length (filter (\<lambda>c. c = NL) (unlines ws)) = length ws"
proof (induction ws)
  case (Cons w ws)
  then have "filter (\<lambda>c. c = NL) w = []" by (auto simp: nick_def filter_empty_conv)
  with Cons show ?case by simp
qed simp

lemma tokens_unlines: "list_all nick ws \<Longrightarrow> tokens is_NL (unlines ws) = ws"
proof (induction ws)
  case (Cons w ws)
  then obtain c cs where w: "w = c # cs" "c \<noteq> NL" "NL \<notin> set w" by (cases w) (auto simp: nick_def)
  have t: "takeWhile (\<lambda>c. \<not> is_NL c) (w @ NL # unlines ws) = w"
    "dropWhile (\<lambda>c. \<not> is_NL c) (w @ NL # unlines ws) = NL # unlines ws"
  proof -
    have "\<forall>x \<in> set w. \<not> is_NL x" using w(3) by (auto simp: is_NL_def)
    then show "takeWhile (\<lambda>c. \<not> is_NL c) (w @ NL # unlines ws) = w"
      "dropWhile (\<lambda>c. \<not> is_NL c) (w @ NL # unlines ws) = NL # unlines ws"
      by (simp_all add: takeWhile_append2 dropWhile_append2 is_NL_def)
  qed
  have d: "dropWhile is_NL (w @ NL # unlines ws) = c # cs @ NL # unlines ws"
    using w by (simp add: is_NL_def)
  have "tokens is_NL (unlines (w # ws)) = w # tokens is_NL (NL # unlines ws)"
    using t d w(1) by (subst tokens.simps) simp
  also have "tokens is_NL (NL # unlines ws) = tokens is_NL (unlines ws)"
    by (rule tokens_skip_delim) (simp add: is_NL_def)
  finally show ?case using Cons by simp
qed simp

lemma strncat_literal:
  assumes "cstr dst = Some d" "NUL \<notin> set w" "length d + length w < length dst"
  shows "strncat dst (w @ [NUL]) (length w) = Some (d @ w @ NUL # drop (Suc (length d + length w)) dst)"
  using assms strncat_all [of "w @ [NUL]" w dst] by (simp add: strcat_Some)

lemma keep_other_Some:
  assumes "cstr name = Some m" "nick w" "cstr l = Some d" "length d + length w + 1 < length l"
  shows "\<exists>l'. keep_other name w l = Some l' \<and> length l' = length l \<and>
    cstr l' = Some (d @ (if w = m then [] else w @ [NL]))"
proof -
  have eq: "strcmp name w = Some (strcmp_str m w)" "strcmp_str m w = 0 \<longleftrightarrow> m = w"
    using assms(1,2) cstr_no_NUL strcmp_str_eq_0 by (auto simp: strcmp_Some nick_def)
  show ?thesis
  proof (cases "m = w")
    case True
    then show ?thesis using eq assms(3) by (simp add: keep_other_def)
  next
    case False
    let ?l = "d @ w @ NUL # drop (Suc (length d + length w)) l"
    have n: "NUL \<notin> set (d @ w)" using assms(2) cstr_no_NUL [OF assms(3)] by (simp add: nick_def)
    have c: "cstr ?l = Some (d @ w)" using cstr_append [OF n] by simp
    have len: "length ?l = length l" using assms(4) by simp
    have "strncat l (w @ [NUL]) (length w) = Some ?l"
      using assms by (intro strncat_literal) (auto simp: nick_def)
    moreover have "strcat ?l [NL, NUL] = Some ((d @ w) @ [NL] @ NUL # drop (Suc (length (d @ w) + 1)) ?l)"
      using strcat_Some [OF c, of "[NL, NUL]" "[NL]"] assms(4) len by (simp add: cstr_Cons)
    ultimately show ?thesis using eq False len assms(4) n cstr_append [of "d @ w @ [NL]"]
      by (simp add: keep_other_def)
  qed
qed

lemma keep_fold:
  assumes "cstr name = Some m" "list_all nick ws" "cstr l = Some d" "length d + length (unlines ws) < length l"
  shows "\<exists>l'. fold_opt (keep_other name) ws l = Some l' \<and> length l' = length l \<and>
    cstr l' = Some (d @ unlines (filter (\<lambda>w. w \<noteq> m) ws))"
  using assms(2-)
proof (induction ws arbitrary: l d)
  case (Cons w ws)
  then obtain l' where l': "keep_other name w l = Some l'" "length l' = length l"
      "cstr l' = Some (d @ (if w = m then [] else w @ [NL]))"
    using keep_other_Some [OF assms(1), of w l d] by auto
  have "length (d @ (if w = m then [] else w @ [NL])) + length (unlines ws) < length l'"
    using Cons.prems l'(2) by simp
  from Cons.IH [OF _ l'(3) this] Cons.prems(1) obtain r where
    "fold_opt (keep_other name) ws l' = Some r" "length r = length l'"
    "cstr r = Some ((d @ (if w = m then [] else w @ [NL])) @ unlines (filter (\<lambda>w. w \<noteq> m) ws))" by auto
  with l' show ?case by auto
qed simp

lemma names_cut:
  assumes "cstr name = Some m" "cstr buf = Some (unlines ws)" "list_all nick ws"
    and "cstr l = Some []" "length (unlines ws) < length l"
  shows "\<exists>l'. copy_others name buf l = Some l' \<and> length l' = length l \<and>
    cstr l' = Some (unlines (filter (\<lambda>w. w \<noteq> m) ws))"
proof -
  obtain l' where l': "fold_opt (keep_other name) ws l = Some l'" "length l' = length l"
      "cstr l' = Some (unlines (filter (\<lambda>w. w \<noteq> m) ws))"
    using keep_fold [OF assms(1,3,4)] assms(5) by auto
  have "map_option fst (do { (ptr, t') \<leftarrow> strtok is_NL (buf, 0);
      while_tokens (strtok is_NL) (keep_other name) ptr t' l }) = Some l'"
    using strtok_loop [OF assms(2), of is_NL "keep_other name" l] l'(1) tokens_unlines [OF assms(3)] by simp
  then have "copy_others name buf l = Some l'"
    by (fastforce simp: copy_others_def split: bind_splits)
  with l' show ?thesis by blast
qed

end
