(* ===== verification/MsgQueue.thy ===== *)
theory MsgQueue
  imports CString
begin

text \<open>
  POSIX message queues as the programs use them: all messages have priority 0, hence a
  queue is a bounded FIFO; a send to a full queue and a receive from an empty one fail at
  once, as they do for a queue opened with \<open>O_NONBLOCK\<close>.  The locale \<open>fifo\<close> is the
  contract the programs rely on, interpreted on the model at the end.
\<close>

record mq =
  mq_maxmsg :: nat
  mq_msgsize :: nat
  mq_msgs :: "string list"

definition mq_fits :: "mq \<Rightarrow> string \<Rightarrow> bool" where
  "mq_fits q m \<longleftrightarrow> length m \<le> mq_msgsize q"

definition mq_push :: "mq \<Rightarrow> string \<Rightarrow> mq" where
  "mq_push q m = (if mq_fits q m \<and> length (mq_msgs q) < mq_maxmsg q
                  then q \<lparr> mq_msgs := mq_msgs q @ [m] \<rparr> else q)"

definition mq_pop :: "mq \<Rightarrow> (string \<times> mq) option" where
  "mq_pop q = (case mq_msgs q of [] \<Rightarrow> None | m # ms \<Rightarrow> Some (m, q \<lparr> mq_msgs := ms \<rparr>))"

text \<open>\<open>mq_send(q, b, n, 0)\<close> fails with -1 when the queue is full or the message too long.
  \<open>mq_receive(q, b, n, NULL)\<close> fails when the queue is empty or \<open>n\<close> is less than the
  message size; it does not terminate the message.\<close>

definition mq_send :: "mq \<Rightarrow> buffer \<Rightarrow> nat \<Rightarrow> mq option" where
  "mq_send q b n = (if n \<le> length b then Some (mq_push q (take n b)) else None)"

definition mq_receive :: "mq \<Rightarrow> buffer \<Rightarrow> nat \<Rightarrow> (bool \<times> buffer \<times> mq) option" where
  "mq_receive q b n =
     (if n < mq_msgsize q then Some (False, b, q)
      else case mq_pop q of
        None \<Rightarrow> Some (False, b, q)
      | Some (m, q') \<Rightarrow> do { b' \<leftarrow> put_bytes b 0 m; Some (True, b', q') })"

locale fifo =
  fixes push :: "'q \<Rightarrow> 'm \<Rightarrow> 'q"
    and pop :: "'q \<Rightarrow> ('m \<times> 'q) option"
    and items :: "'q \<Rightarrow> 'm list"
    and cap :: "'q \<Rightarrow> nat"
    and fits :: "'q \<Rightarrow> 'm \<Rightarrow> bool"
  assumes push_items: "items (push q m) =
      (if fits q m \<and> length (items q) < cap q then items q @ [m] else items q)"
    and push_cap: "cap (push q m) = cap q"
    and push_fits: "fits (push q m) m' = fits q m'"
    and pop_items: "pop q = None \<longleftrightarrow> items q = []"
    and pop_more: "pop q = Some (m, q') \<Longrightarrow> items q = m # items q'"
begin

text \<open>The same message sent \<open>n\<close> times: as many copies as there is room for.\<close>

lemma broadcast:
  assumes "fits q m"
  shows "items (((\<lambda>q. push q m) ^^ n) q) = items q @ replicate (min n (cap q - length (items q))) m
    \<and> cap (((\<lambda>q. push q m) ^^ n) q) = cap q \<and> fits (((\<lambda>q. push q m) ^^ n) q) m"
proof (induction n)
  case (Suc n)
  let ?q = "((\<lambda>q. push q m) ^^ n) q"
  show ?case
  proof (cases "n < cap q - length (items q)")
    case True
    then have "length (items ?q) < cap ?q" using Suc by simp
    with Suc True show ?thesis by (simp add: push_items push_cap push_fits replicate_append_same min_def)
  next
    case False
    then have "\<not> length (items ?q) < cap ?q" using Suc by simp
    with Suc False show ?thesis by (simp add: push_items push_cap push_fits min_def)
  qed
qed (simp add: assms)

lemma pop_items_Cons: "items q = m # ms \<Longrightarrow> \<exists>q'. pop q = Some (m, q') \<and> items q' = ms"
  using pop_items [of q] pop_more [of q] by (cases "pop q") fastforce+

end

interpretation mq: fifo mq_push mq_pop mq_msgs mq_maxmsg mq_fits
  by unfold_locales (auto simp: mq_push_def mq_pop_def mq_fits_def split: list.splits)

lemma mq_pop_size: "mq_pop q = Some (m, q') \<Longrightarrow> mq_maxmsg q' = mq_maxmsg q \<and> mq_msgsize q' = mq_msgsize q"
  by (auto simp: mq_pop_def split: list.splits)

end
