(* ===== verification/ChatMq.thy ===== *)
theory ChatMq
  imports NameList MsgQueue Stdio
begin

text \<open>
  The chat over POSIX message queues (\<open>chat/server.c\<close>, \<open>chat/client.c\<close>).  The queues are
  those of MsgQueue.  The theory holds the server's functions, one round of its endless
  loop, and the client's operations, with the refinement of a server round to lists of
  users and a text.  Server and clients are put together in ChatSystem.
\<close>

section \<open>The server\<close>

text \<open>The loop \<open>while (1) { status = mq_receive(...); if (status != -1) body; else break; }\<close>.
  The buffer is not cleared between two messages.\<close>

function receive_all :: "mq \<Rightarrow> nat \<Rightarrow> (buffer \<Rightarrow> 'a \<Rightarrow> 'a option) \<Rightarrow> buffer \<Rightarrow> 'a \<Rightarrow> ('a \<times> mq) option" where
  "receive_all q n body buf acc = do {
     (ok, buf', q') \<leftarrow> mq_receive q buf n;
     (if ok then do { acc' \<leftarrow> body buf' acc; receive_all q' n body buf' acc' }
      else Some (acc, q'))
   }"
  by pat_completeness auto
termination
  by (relation "measure (\<lambda>(q, _). length (mq_msgs q))")
    (auto simp: mq_receive_def dest!: mq.pop_more split: if_splits option.splits bind_splits)

declare receive_all.simps [simp del]

text \<open>\<open>sprintf(line, "%s\n", buf); strncat(text, line, strlen(line));\<close>\<close>

definition append_line :: "buffer \<Rightarrow> buffer \<times> buffer \<Rightarrow> (buffer \<times> buffer) option" where
  "append_line buf = (\<lambda>(line, text). do {
     s \<leftarrow> cstr buf;
     line' \<leftarrow> put_bytes line 0 (s @ [NL, NUL]);
     n \<leftarrow> strlen line';
     text' \<leftarrow> strncat text line' n;
     Some (line', text')
   })"

definition get_name :: "buffer \<Rightarrow> buffer \<Rightarrow> mq \<Rightarrow> ((buffer \<times> buffer) \<times> mq) option" where
  "get_name name name_list name_queue =
     receive_all name_queue 20 append_line (replicate 20 NUL) (name, name_list)"

definition get_message :: "buffer \<Rightarrow> buffer \<Rightarrow> mq \<Rightarrow> ((buffer \<times> buffer) \<times> mq) option" where
  "get_message message chat message_queue =
     receive_all message_queue 8192 append_line (replicate 350 NUL) (message, chat)"

definition users_number :: "buffer \<Rightarrow> nat option" where
  "users_number name_list = do {
     n \<leftarrow> strlen name_list;
     fold_opt (\<lambda>i count. do { c \<leftarrow> buf_get name_list i; Some (if c = NL then Suc count else count) }) [0..<Suc n] 0
   }"

definition send_name_list :: "buffer \<Rightarrow> nat \<Rightarrow> mq \<Rightarrow> mq option" where
  "send_name_list name_list users q =
     fold_opt (\<lambda>_ q. do { n \<leftarrow> strlen name_list; mq_send q name_list n }) [0..<users] q"

definition send_chat :: "buffer \<Rightarrow> nat \<Rightarrow> mq \<Rightarrow> mq option" where
  "send_chat chat users q =
     (if users > 0 then do {
        size \<leftarrow> strlen chat;
        (if size = 0 then Some q
         else fold_opt (\<lambda>_ q. do { n \<leftarrow> strlen chat; mq_send q chat n }) [0..<users] q)
      } else Some q)"

definition delete_name :: "buffer \<Rightarrow> mq \<Rightarrow> (buffer \<times> mq) option" where
  "delete_name name_list delete_queue = do {
     buf \<leftarrow> strcpy (replicate 4096 NUL) name_list;
     buf \<leftarrow> strcat buf [NUL];
     name_list \<leftarrow> memset name_list NUL 4096;
     (ok, name, q) \<leftarrow> mq_receive delete_queue (replicate 20 NUL) 20;
     name_list \<leftarrow> copy_others name buf name_list;
     Some (name_list, q)
   }"

record chat_server =
  sv_name :: buffer
  sv_name_list :: buffer
  sv_message :: buffer
  sv_chat :: buffer
  name_q :: mq
  name_list_q :: mq
  message_q :: mq
  chat_q :: mq
  delete_q :: mq

text \<open>\<open>main\<close> creates the queues; without attributes a queue holds 10 messages of 8192 bytes.
  The four text buffers are uninitialised locals.\<close>

definition new_mq :: "nat \<Rightarrow> mq" where
  "new_mq sz = \<lparr> mq_maxmsg = 10, mq_msgsize = sz, mq_msgs = [] \<rparr>"

definition server_start :: "(nat \<Rightarrow> nat \<Rightarrow> char) \<Rightarrow> chat_server" where
  "server_start g = \<lparr> sv_name = fresh_block (g 0) 20, sv_name_list = fresh_block (g 1) 4096,
     sv_message = fresh_block (g 2) 350, sv_chat = fresh_block (g 3) 8192,
     name_q = new_mq 20, name_list_q = new_mq 4096, message_q = new_mq 8192, chat_q = new_mq 8192,
     delete_q = new_mq 20 \<rparr>"

definition server_round :: "chat_server \<Rightarrow> chat_server option" where
  "server_round s = do {
     ((name, name_list), nq) \<leftarrow> get_name (sv_name s) (sv_name_list s) (name_q s);
     users \<leftarrow> users_number name_list;
     nlq \<leftarrow> send_name_list name_list users (name_list_q s);
     ((message, chat), mesq) \<leftarrow> get_message (sv_message s) (sv_chat s) (message_q s);
     cq \<leftarrow> send_chat chat users (chat_q s);
     (name_list, dq) \<leftarrow> delete_name name_list (delete_q s);
     Some (s \<lparr> sv_name := name, sv_name_list := name_list, sv_message := message, sv_chat := chat,
       name_q := nq, name_list_q := nlq, message_q := mesq, chat_q := cq, delete_q := dq \<rparr>)
   }"

section \<open>The client\<close>

definition client_send_name :: "buffer \<Rightarrow> string \<Rightarrow> mq \<Rightarrow> (buffer \<times> mq) option" where
  "client_send_name name line q = do {
     name' \<leftarrow> wgetstr name line;
     n \<leftarrow> strlen name';
     q' \<leftarrow> mq_send q name' n;
     Some (name', q')
   }"

definition client_send_message :: "(nat \<Rightarrow> nat \<Rightarrow> char) \<Rightarrow> buffer \<Rightarrow> string \<Rightarrow> mq \<Rightarrow> mq option" where
  "client_send_message g name line q = do {
     buf \<leftarrow> wgetstr (fresh_block (g 0) 300) line;
     s \<leftarrow> cstr name;
     message \<leftarrow> put_bytes (fresh_block (g 1) 325) 0 (''['' @ s @ '']: '' @ [NUL]);
     n \<leftarrow> strlen buf;
     message \<leftarrow> strncat message buf n;
     len \<leftarrow> strlen message;
     mq_send q message len
   }"

definition client_exit :: "buffer \<Rightarrow> mq \<Rightarrow> mq option" where
  "client_exit name q = do { n \<leftarrow> strlen name; mq_send q name n }"

text \<open>\<open>wprintw(win, s)\<close> without arguments: \<open>%%\<close> prints one per cent sign, any other
  directive lacks its argument.\<close>

fun format_of :: "string \<Rightarrow> string option" where
  "format_of [] = Some []"
| "format_of (c # cs) =
     (if c = CHR ''%'' then
        (case cs of [] \<Rightarrow> None
         | d # ds \<Rightarrow> if d = CHR ''%'' then map_option (Cons d) (format_of ds) else None)
      else map_option (Cons c) (format_of cs))"

text \<open>One round of each receiver thread: what is shown, the new buffer and the queue.\<close>

definition get_name_list :: "buffer \<Rightarrow> mq \<Rightarrow> (string option \<times> buffer \<times> mq) option" where
  "get_name_list list q = do {
     list \<leftarrow> memset list NUL 4096;
     (ok, list, q) \<leftarrow> mq_receive q list 4096;
     s \<leftarrow> cstr list;
     (if length s \<noteq> 0 then do { shown \<leftarrow> format_of s; Some (Some shown, list, q) }
      else Some (None, list, q))
   }"

definition get_chat :: "buffer \<Rightarrow> mq \<Rightarrow> (string option \<times> buffer \<times> mq) option" where
  "get_chat chat q = do {
     (ok, chat, q) \<leftarrow> mq_receive q chat 8192;
     (if ok then do { s \<leftarrow> cstr chat; Some (Some s, chat, q) } else Some (None, chat, q))
   }"

section \<open>What a round receives\<close>

text \<open>
  A message is copied over the front of the previous one, whose tail stays: the text the
  server reads after receiving \<open>m\<close> is \<open>m\<close> followed by what is left of the previous text.
\<close>

fun overlays :: "string \<Rightarrow> string list \<Rightarrow> string list" where
  "overlays prev [] = []"
| "overlays prev (m # ms) = (let w = m @ drop (length m) prev in w # overlays w ms)"

lemma overlays_ordered: "sorted (map length (p # ms)) \<Longrightarrow> overlays p ms = ms"
  by (induction ms arbitrary: p) (auto simp: Let_def)

lemma overlays_nick:
  "list_all nick ms \<Longrightarrow> NL \<notin> set p \<Longrightarrow> NUL \<notin> set p \<Longrightarrow> list_all nick (overlays p ms)"
proof (induction ms arbitrary: p)
  case (Cons m ms)
  then have "nick (m @ drop (length m) p)" by (auto simp: nick_def dest: in_set_dropD)
  then show ?case using Cons.IH [of "m @ drop (length m) p"] Cons.prems(1) by (simp add: Let_def nick_def)
qed simp

lemma append_line_Some:
  assumes "NUL \<notin> set w" "length w + 2 \<le> length line" "cstr text = Some t" "length t + length w + 1 < length text"
  shows "\<exists>line' text'. append_line (w @ NUL # r) (line, text) = Some (line', text') \<and>
    length line' = length line \<and> length text' = length text \<and> cstr text' = Some (t @ w @ [NL])"
proof -
  let ?line = "(w @ [NL]) @ NUL # drop (length w + 2) line"
  let ?s = "t @ w @ [NL]"
  let ?text = "?s @ NUL # drop (Suc (length ?s)) text"
  have c: "cstr ?line = Some (w @ [NL])" using assms(1) cstr_append [of "w @ [NL]"] by simp
  have "put_bytes line 0 (w @ [NL, NUL]) = Some ?line" using assms(2) by (simp add: put_bytes_def)
  moreover have "strncat text ?line (length (w @ [NL])) = Some ?text"
    using strncat_self [OF c assms(3)] assms(4) by simp
  moreover have "NUL \<notin> set ?s" using assms(1) cstr_no_NUL [OF assms(3)] by simp
  then have "cstr ?text = Some ?s" by (rule cstr_append)
  moreover have "length ?text = length text" using assms(4) by simp
  moreover have "length ?line = length line" using assms(2) by simp
  moreover have "strlen ?line = Some (length (w @ [NL]))" using c by (simp add: strlen_Some)
  ultimately show ?thesis
    using assms(1) by (simp add: append_line_def del: append_assoc length_append)
qed

lemma overlay_buffer:
  assumes "length m \<le> B" "length p \<le> B"
  shows "put_bytes (p @ replicate (B - length p) NUL) 0 m =
    Some ((m @ drop (length m) p) @ replicate (B - length (m @ drop (length m) p)) NUL)"
  using assms by (auto simp: put_bytes_def)

lemma receive_lines:
  assumes "mq_msgsize q \<le> n" "\<forall>m \<in> set (mq_msgs q). NUL \<notin> set m \<and> length m + 2 \<le> B"
    and "NUL \<notin> set p" "length p + 2 \<le> B" "length line = B"
    and "cstr tx = Some t" "length t + length (unlines (overlays p (mq_msgs q))) < length tx"
  shows "\<exists>line' tx'. receive_all q n append_line (p @ replicate (B - length p) NUL) (line, tx)
      = Some ((line', tx'), q \<lparr> mq_msgs := [] \<rparr>) \<and>
    length line' = B \<and> length tx' = length tx \<and> cstr tx' = Some (t @ unlines (overlays p (mq_msgs q)))"
  using assms
proof (induction "mq_msgs q" arbitrary: q p line tx t)
  case Nil
  then have "mq_receive q (p @ replicate (B - length p) NUL) n = Some (False, p @ replicate (B - length p) NUL, q)"
    by (simp add: mq_receive_def mq_pop_def)
  moreover have "q \<lparr> mq_msgs := [] \<rparr> = q" using Nil(1) by (cases q) simp
  ultimately show ?case using Nil by (simp add: receive_all.simps [of q])
next
  case (Cons m ms)
  note ms = Cons(2) [symmetric]
  let ?w = "m @ drop (length m) p"
  let ?q = "q \<lparr> mq_msgs := ms \<rparr>"
  let ?buf = "?w @ replicate (B - length ?w) NUL"
  have m: "NUL \<notin> set m" "length m + 2 \<le> B" using Cons.prems(2) ms by auto
  have w: "NUL \<notin> set ?w" "length ?w + 2 \<le> B" using m Cons.prems(3,4) by (auto dest: in_set_dropD)
  have rc: "mq_receive q (p @ replicate (B - length p) NUL) n = Some (True, ?buf, ?q)"
    using ms Cons.prems(1) overlay_buffer [of m B p] m Cons.prems(4) by (simp add: mq_receive_def mq_pop_def)
  have ov: "overlays p (mq_msgs q) = ?w # overlays ?w ms" using ms by (simp add: Let_def)
  have buf: "?buf = ?w @ NUL # replicate (B - length ?w - 1) NUL"
    using w(2) by (cases "B - length ?w") simp_all
  obtain line1 text1 where a: "append_line ?buf (line, tx) = Some (line1, text1)" "length line1 = B"
      "length text1 = length tx" "cstr text1 = Some (t @ ?w @ [NL])"
    using append_line_Some [OF w(1), of line tx t "replicate (B - length ?w - 1) NUL"] w(2) Cons.prems ov
    unfolding buf by auto
  have "\<exists>line' tx'. receive_all ?q n append_line ?buf (line1, text1)
      = Some ((line', tx'), ?q \<lparr> mq_msgs := [] \<rparr>) \<and> length line' = B \<and> length tx' = length text1 \<and>
      cstr tx' = Some ((t @ ?w @ [NL]) @ unlines (overlays ?w (mq_msgs ?q)))"
    using Cons.prems(1,2,7) ms w a ov by (intro Cons(1)) auto
  then show ?case using rc a ov by (auto simp: receive_all.simps [of q])
qed

section \<open>Correctness of the server's functions\<close>

lemma get_name_lines:
  assumes "mq_msgsize q \<le> 20" "\<forall>m \<in> set (mq_msgs q). NUL \<notin> set m \<and> length m \<le> 18" "length name = 20"
    and "cstr name_list = Some t" "length t + length (unlines (overlays [] (mq_msgs q))) < length name_list"
  shows "\<exists>name' name_list'. get_name name name_list q = Some ((name', name_list'), q \<lparr> mq_msgs := [] \<rparr>) \<and>
    length name' = 20 \<and> length name_list' = length name_list \<and>
    cstr name_list' = Some (t @ unlines (overlays [] (mq_msgs q)))"
  using receive_lines [of q 20 20 "[]" name name_list t] assms by (simp add: get_name_def)

text \<open>
  \<open>get_name\<close> appends a line for every queued name.  What it records is not the name
  but the name over the rest of the longer name received before it in the same call; the
  names are recorded exactly when they arrive in order of length.
\<close>

theorem chat_get_name:
  assumes "mq_msgsize q \<le> 20" "\<forall>m \<in> set (mq_msgs q). NUL \<notin> set m \<and> length m \<le> 18" "length name = 20"
    and "cstr name_list = Some t" "length t + length (unlines (overlays [] (mq_msgs q))) < length name_list"
  shows "\<exists>name' name_list'. get_name name name_list q = Some ((name', name_list'), q \<lparr> mq_msgs := [] \<rparr>) \<and>
    length name' = 20 \<and> length name_list' = length name_list \<and>
    cstr name_list' = Some (t @ unlines (overlays [] (mq_msgs q))) \<and>
    (sorted (map length (mq_msgs q)) \<longrightarrow> cstr name_list' = Some (t @ unlines (mq_msgs q)))"
  using get_name_lines [OF assms] overlays_ordered [of "[]" "mq_msgs q"] by auto

lemma chat_get_name_witness:
  "\<exists>name' name_list'. get_name (replicate 20 NUL) (replicate 4096 NUL)
      (new_mq 20 \<lparr> mq_msgs := [''Maria'', ''Bob''] \<rparr>) = Some ((name', name_list'), new_mq 20) \<and>
    cstr name_list' = Some (unlines [''Maria'', ''Bobia''])"
proof -
  show ?thesis
    using chat_get_name [of "new_mq 20 \<lparr> mq_msgs := [''Maria'', ''Bob''] \<rparr>" "replicate 20 NUL" "replicate 4096 NUL" "[]"]
    by (auto simp: new_mq_def Let_def)
qed

lemma get_message_lines:
  assumes "mq_msgsize q \<le> 8192" "\<forall>m \<in> set (mq_msgs q). NUL \<notin> set m \<and> length m \<le> 348" "length message = 350"
    and "cstr chat = Some t" "length t + length (unlines (overlays [] (mq_msgs q))) < length chat"
  shows "\<exists>message' chat'. get_message message chat q = Some ((message', chat'), q \<lparr> mq_msgs := [] \<rparr>) \<and>
    length message' = 350 \<and> length chat' = length chat \<and>
    cstr chat' = Some (t @ unlines (overlays [] (mq_msgs q)))"
  using receive_lines [of q 8192 350 "[]" message chat t] assms by (simp add: get_message_def)

text \<open>
  The message queue accepts messages of up to 8192 bytes but they are received into
  350 bytes, and a name of 19 or 20 bytes does not fit the line it is printed into: one
  such message makes the server write or read outside its arrays.
\<close>

theorem chat_long_messages_overrun:
  assumes "NUL \<notin> set m" "mq_msgs q = m # ms"
  shows "(mq_msgsize q \<le> 20 \<and> 18 < length m \<and> length name = 20 \<longrightarrow> get_name name name_list q = None) \<and>
    (mq_msgsize q \<le> 8192 \<and> 348 < length m \<and> length message = 350 \<longrightarrow> get_message message chat q = None)"
proof -
  have over: "receive_all q n append_line (replicate B NUL) (line, tx) = None"
    if "mq_msgsize q \<le> n" "B < length m + 2" "length line = B" for n B and line tx :: buffer
  proof (cases "length m \<le> B")
    case False
    then show ?thesis using that assms by (simp add: receive_all.simps [of q] mq_receive_def mq_pop_def put_bytes_def)
  next
    case True
    let ?b = "m @ replicate (B - length m) NUL"
    have "append_line ?b (line, tx) = None"
    proof (cases "cstr ?b")
      case (Some s)
      then have "s = m" using assms(1) by (cases "B - length m") (auto simp: cstr_append_pre)
      then show ?thesis using that Some by (simp add: append_line_def put_bytes_def)
    qed (simp add: append_line_def)
    then show ?thesis using True that assms
      by (simp add: receive_all.simps [of q] mq_receive_def mq_pop_def put_bytes_def)
  qed
  show ?thesis
    using over [of 20 20 name name_list] over [of 8192 350 message chat]
    by (auto simp: get_name_def get_message_def)
qed

lemma chat_long_messages_overrun_witness:
  "get_message (replicate 350 NUL) (replicate 8192 NUL) (new_mq 8192 \<lparr> mq_msgs := [replicate 400 CHR ''x''] \<rparr>) = None"
  using chat_long_messages_overrun [of "replicate 400 CHR ''x''" "new_mq 8192 \<lparr> mq_msgs := [replicate 400 CHR ''x''] \<rparr>" "[]"]
  by (simp add: new_mq_def)

lemma users_number_lines:
  assumes "cstr l = Some (unlines ws)" "list_all nick ws"
  shows "users_number l = Some (length ws)"
proof -
  let ?s = "unlines ws"
  let ?f = "\<lambda>c count. Some (if c = NL then Suc count else count)"
  from assms(1) obtain r where l: "l = ?s @ NUL # r" "NUL \<notin> set ?s" by (rule cstr_SomeE)
  have cnt: "fold (\<lambda>c n. if c = NL then Suc n else n) xs k = k + length (filter (\<lambda>c. c = NL) xs)" for xs k
    by (induction xs arbitrary: k) auto
  have "fold_opt (\<lambda>i count. do { c \<leftarrow> buf_get l i; ?f c count }) [0..<Suc (length ?s)] 0 =
      fold_opt (\<lambda>i count. do { c \<leftarrow> buf_get (?s @ [NUL]) i; ?f c count }) [0..<Suc (length ?s)] 0"
    by (intro fold_opt_cong) (auto simp: l buf_get_def nth_append)
  also have "\<dots> = fold_opt ?f (?s @ [NUL]) (0 :: nat)" by (rule fold_opt_indices) simp
  also have "\<dots> = Some (length ws)"
    unfolding fold_opt_total cnt using unlines_count [OF assms(2)] by simp
  finally show ?thesis using assms(1) by (simp add: users_number_def strlen_Some)
qed

lemma mq_send_string: "cstr b = Some s \<Longrightarrow> mq_send q b (length s) = Some (mq_push q s)"
  using cstr_length [of b s] by (simp add: mq_send_def cstr_take)

lemma send_name_list_copies:
  "cstr l = Some s \<Longrightarrow> send_name_list l n q = Some (((\<lambda>q. mq_push q s) ^^ n) q)"
  using fold_opt_repeat [of "\<lambda>q. mq_push q s" "[0..<n]" q]
  by (simp add: send_name_list_def strlen_Some mq_send_string)

lemma send_chat_copies:
  "cstr l = Some s \<Longrightarrow> send_chat l n q = Some (if s = [] then q else ((\<lambda>q. mq_push q s) ^^ n) q)"
  using fold_opt_repeat [of "\<lambda>q. mq_push q s" "[0..<n]" q]
  by (auto simp: send_chat_def strlen_Some mq_send_string)

section \<open>A round of the server\<close>

lemma delete_receive:
  assumes "mq_msgsize q \<le> 20" "case mq_msgs q of [] \<Rightarrow> True | d # _ \<Rightarrow> NUL \<notin> set d \<and> length d < 20"
  shows "\<exists>ok name q'. mq_receive q (replicate 20 NUL) 20 = Some (ok, name, q') \<and>
    cstr name = Some (case mq_msgs q of [] \<Rightarrow> [] | d # _ \<Rightarrow> d) \<and>
    mq_msgsize q' = mq_msgsize q \<and> mq_msgs q' = tl (mq_msgs q)"
proof (cases "mq_msgs q")
  case Nil
  then show ?thesis using assms(1) by (intro exI [of _ False]) (simp add: mq_receive_def mq_pop_def)
next
  case (Cons d ds)
  then have "mq_receive q (replicate 20 NUL) 20 = Some (True, d @ replicate (20 - length d) NUL, q \<lparr> mq_msgs := ds \<rparr>)"
    using assms by (simp add: mq_receive_def mq_pop_def put_bytes_def)
  moreover have "cstr (d @ replicate (20 - length d) NUL) = Some d" using Cons assms(2) by (simp add: cstr_append_pre)
  ultimately show ?thesis using Cons by (intro exI [of _ True]) simp
qed

lemma delete_name_filter:
  assumes "cstr l = Some (unlines us)" "list_all nick us" "length l = 4096" "mq_msgsize q \<le> 20"
    and "case mq_msgs q of [] \<Rightarrow> True | d # _ \<Rightarrow> NUL \<notin> set d \<and> length d < 20"
  shows "\<exists>l' q'. delete_name l q = Some (l', q') \<and> length l' = 4096 \<and>
    cstr l' = Some (unlines (case mq_msgs q of [] \<Rightarrow> us | d # _ \<Rightarrow> filter (\<lambda>w. w \<noteq> d) us)) \<and>
    mq_msgsize q' = mq_msgsize q \<and> mq_msgs q' = tl (mq_msgs q)"
proof -
  let ?s = "unlines us"
  have short: "length ?s < 4096" "NUL \<notin> set ?s" using cstr_length [OF assms(1)] assms(3) cstr_no_NUL [OF assms(1)] by auto
  let ?b = "?s @ NUL # drop (Suc (length ?s)) (replicate 4096 NUL)"
  have "strcpy (replicate 4096 NUL) l = Some ?b" using strcpy_Some [OF assms(1)] short(1) by simp
  moreover have "cstr ?b = Some ?s" using short(2) by (rule cstr_append)
  then obtain b where b: "strcat ?b [NUL] = Some b" "cstr b = Some ?s"
    using strcat_Some [of ?b ?s "[NUL]" "[]"] short by (simp add: cstr_append)
  moreover have "memset l NUL 4096 = Some (replicate 4096 NUL)" using assms(3) by (simp add: memset_def put_bytes_def)
  moreover obtain ok name q' where rc: "mq_receive q (replicate 20 NUL) 20 = Some (ok, name, q')"
      "cstr name = Some (case mq_msgs q of [] \<Rightarrow> [] | d # _ \<Rightarrow> d)" "mq_msgsize q' = mq_msgsize q" "mq_msgs q' = tl (mq_msgs q)"
    using delete_receive [OF assms(4,5)] by blast
  moreover obtain l' where l': "copy_others name b (replicate 4096 NUL) = Some l'" "length l' = 4096"
      "cstr l' = Some (unlines (filter (\<lambda>w. w \<noteq> (case mq_msgs q of [] \<Rightarrow> [] | d # _ \<Rightarrow> d)) us))"
    using names_cut [OF rc(2) b(2) assms(2), of "replicate 4096 NUL"] short(1) by auto
  ultimately have "delete_name l q = Some (l', q')" by (simp add: delete_name_def)
  moreover have "filter (\<lambda>w. w \<noteq> []) us = us" using assms(2) by (auto simp: filter_id_conv list_all_iff nick_def)
  ultimately show ?thesis using l'(2,3) rc(3,4) by (auto split: list.splits)
qed

text \<open>The users and the text of the chat a server state stands for.\<close>

definition serves :: "chat_server \<Rightarrow> string list \<Rightarrow> string \<Rightarrow> bool" where
  "serves s us log \<longleftrightarrow> length (sv_name s) = 20 \<and> length (sv_name_list s) = 4096 \<and>
     length (sv_message s) = 350 \<and> length (sv_chat s) = 8192 \<and>
     cstr (sv_name_list s) = Some (unlines us) \<and> list_all nick us \<and> cstr (sv_chat s) = Some log \<and>
     mq_msgsize (name_q s) \<le> 20 \<and> mq_msgsize (message_q s) \<le> 8192 \<and> mq_msgsize (delete_q s) \<le> 20"

definition pending_ok :: "chat_server \<Rightarrow> bool" where
  "pending_ok s \<longleftrightarrow> (\<forall>m \<in> set (mq_msgs (name_q s)). nick m \<and> length m \<le> 18) \<and>
     (\<forall>m \<in> set (mq_msgs (message_q s)). NUL \<notin> set m \<and> length m \<le> 348) \<and>
     (case mq_msgs (delete_q s) of [] \<Rightarrow> True | d # _ \<Rightarrow> NUL \<notin> set d \<and> length d < 20)"

definition after_joins :: "chat_server \<Rightarrow> string list \<Rightarrow> string list" where
  "after_joins s us = us @ overlays [] (mq_msgs (name_q s))"

definition after_leave :: "chat_server \<Rightarrow> string list \<Rightarrow> string list" where
  "after_leave s us = (case mq_msgs (delete_q s) of [] \<Rightarrow> us | d # _ \<Rightarrow> filter (\<lambda>w. w \<noteq> d) us)"

definition after_talk :: "chat_server \<Rightarrow> string \<Rightarrow> string" where
  "after_talk s log = log @ unlines (overlays [] (mq_msgs (message_q s)))"

definition copies :: "mq \<Rightarrow> nat \<Rightarrow> string \<Rightarrow> string list" where
  "copies q n m = replicate (min n (mq_maxmsg q - length (mq_msgs q))) m"

lemma server_round_refines:
  assumes rep: "serves s us log" and pend: "pending_ok s"
    and room: "length (unlines (after_joins s us)) < 4096" "length (after_talk s log) < 8192"
    and fit: "mq_fits (name_list_q s) (unlines (after_joins s us))" "mq_fits (chat_q s) (after_talk s log)"
  shows "\<exists>s'. server_round s = Some s' \<and> serves s' (after_leave s (after_joins s us)) (after_talk s log) \<and>
    mq_msgs (name_q s') = [] \<and> mq_msgs (message_q s') = [] \<and> mq_msgs (delete_q s') = tl (mq_msgs (delete_q s)) \<and>
    mq_msgs (name_list_q s') = mq_msgs (name_list_q s) @
      copies (name_list_q s) (length (after_joins s us)) (unlines (after_joins s us)) \<and>
    mq_msgs (chat_q s') = mq_msgs (chat_q s) @
      (if after_talk s log = [] then [] else copies (chat_q s) (length (after_joins s us)) (after_talk s log))"
proof -
  let ?us = "after_joins s us" and ?log = "after_talk s log"
  have "list_all nick (mq_msgs (name_q s))" using pend by (simp add: pending_ok_def list_all_iff)
  then have us: "list_all nick ?us" using rep overlays_nick [of "mq_msgs (name_q s)" "[]"]
    by (simp add: after_joins_def serves_def)
  obtain name l where n: "get_name (sv_name s) (sv_name_list s) (name_q s) = Some ((name, l), name_q s \<lparr> mq_msgs := [] \<rparr>)"
      "length name = 20" "length l = 4096" "cstr l = Some (unlines ?us)"
    using get_name_lines [of "name_q s" "sv_name s" "sv_name_list s" "unlines us"] rep pend room(1)
    by (auto simp: serves_def pending_ok_def after_joins_def nick_def)
  obtain message c where m: "get_message (sv_message s) (sv_chat s) (message_q s) = Some ((message, c), message_q s \<lparr> mq_msgs := [] \<rparr>)"
      "length message = 350" "length c = 8192" "cstr c = Some ?log"
    using get_message_lines [of "message_q s" "sv_message s" "sv_chat s" log] rep pend room(2)
    by (auto simp: serves_def pending_ok_def after_talk_def)
  obtain l' dq where d: "delete_name l (delete_q s) = Some (l', dq)" "length l' = 4096"
      "cstr l' = Some (unlines (after_leave s ?us))" "mq_msgsize dq = mq_msgsize (delete_q s)" "mq_msgs dq = tl (mq_msgs (delete_q s))"
    using delete_name_filter [OF n(4) us n(3), of "delete_q s"] rep pend
    by (auto simp: serves_def pending_ok_def after_leave_def split: list.splits)
  let ?push = "\<lambda>m q. mq_push q m" and ?n = "length ?us"
  let ?s' = "s \<lparr> sv_name := name, sv_name_list := l', sv_message := message, sv_chat := c,
    name_q := name_q s \<lparr> mq_msgs := [] \<rparr>, name_list_q := (?push (unlines ?us) ^^ ?n) (name_list_q s),
    message_q := message_q s \<lparr> mq_msgs := [] \<rparr>,
    chat_q := (if ?log = [] then chat_q s else (?push ?log ^^ ?n) (chat_q s)), delete_q := dq \<rparr>"
  have "server_round s = Some ?s'"
    using n(1) m(1) d(1) users_number_lines [OF n(4) us] send_name_list_copies [OF n(4)] send_chat_copies [OF m(4)]
    by (simp add: server_round_def)
  moreover have "list_all nick (after_leave s ?us)"
    using us by (auto simp: after_leave_def list_all_iff split: list.splits)
  then have "serves ?s' (after_leave s ?us) ?log" using rep n m d by (simp add: serves_def)
  ultimately show ?thesis
    using mq.broadcast [OF fit(1), of ?n] mq.broadcast [OF fit(2), of ?n] d(5)
    by (intro exI [of _ ?s']) (simp add: copies_def)
qed

text \<open>
  C15.  One round of the server refines the abstract chat: the pending names join, every
  queue gets one copy of the list of users and of the whole text per user while there is
  room, the pending lines are added to the text, and all users with the name of the first
  pending departure leave; the representation invariant holds again.
\<close>

theorem chat_round_refines:
  assumes rep: "serves s us log" and pend: "pending_ok s"
    and room: "length (unlines (after_joins s us)) < 4096" "length (after_talk s log) < 8192"
    and fit: "mq_fits (name_list_q s) (unlines (after_joins s us))" "mq_fits (chat_q s) (after_talk s log)"
  shows "\<exists>s'. server_round s = Some s' \<and> serves s' (after_leave s (after_joins s us)) (after_talk s log) \<and>
    mq_msgs (name_q s') = [] \<and> mq_msgs (message_q s') = [] \<and> mq_msgs (delete_q s') = tl (mq_msgs (delete_q s)) \<and>
    mq_msgs (name_list_q s') = mq_msgs (name_list_q s) @
      copies (name_list_q s) (length (after_joins s us)) (unlines (after_joins s us)) \<and>
    mq_msgs (chat_q s') = mq_msgs (chat_q s) @
      (if after_talk s log = [] then [] else copies (chat_q s) (length (after_joins s us)) (after_talk s log))"
  using assms by (rule server_round_refines)

definition demo_server :: chat_server where
  "demo_server = \<lparr> sv_name = replicate 20 NUL, sv_name_list = ''Ann'' @ [NL] @ replicate 4092 NUL,
     sv_message = replicate 350 NUL, sv_chat = replicate 8192 NUL,
     name_q = new_mq 20 \<lparr> mq_msgs := [''Bob''] \<rparr>, name_list_q = new_mq 4096,
     message_q = new_mq 8192 \<lparr> mq_msgs := [''[Ann]: hi''] \<rparr>, chat_q = new_mq 8192,
     delete_q = new_mq 20 \<lparr> mq_msgs := [''Ann''] \<rparr> \<rparr>"

lemma chat_round_refines_witness:
  "\<exists>s'. server_round demo_server = Some s' \<and> serves s' [''Bob''] (''[Ann]: hi'' @ [NL]) \<and>
     mq_msgs (name_list_q s') = replicate 2 (unlines [''Ann'', ''Bob'']) \<and>
     mq_msgs (chat_q s') = replicate 2 (''[Ann]: hi'' @ [NL])"
proof -
  have c: "cstr (sv_name_list demo_server) = Some (unlines [''Ann''])"
    by (simp add: demo_server_def cstr_Cons)
  then have "serves demo_server [''Ann''] []"
    by (simp add: serves_def) (simp add: demo_server_def new_mq_def nick_def)
  moreover have "pending_ok demo_server" by (simp add: pending_ok_def demo_server_def new_mq_def nick_def)
  moreover have us: "after_joins demo_server [''Ann''] = [''Ann'', ''Bob'']"
    and tx: "after_talk demo_server [] = ''[Ann]: hi'' @ [NL]"
    and lv: "after_leave demo_server [''Ann'', ''Bob''] = [''Bob'']"
    by (simp_all add: after_joins_def after_talk_def after_leave_def demo_server_def new_mq_def Let_def)
  moreover have "mq_fits (name_list_q demo_server) (unlines [''Ann'', ''Bob''])"
    "mq_fits (chat_q demo_server) (''[Ann]: hi'' @ [NL])" by (simp_all add: mq_fits_def demo_server_def new_mq_def)
  moreover have "mq_msgs (name_list_q demo_server) = []" "mq_msgs (chat_q demo_server) = []"
    "copies (name_list_q demo_server) 2 m = replicate 2 m" "copies (chat_q demo_server) 2 m = replicate 2 m" for m
    by (simp_all add: demo_server_def new_mq_def copies_def)
  ultimately show ?thesis using chat_round_refines [of demo_server "[''Ann'']" "[]"] by (simp add: numeral_2_eq_2) blast
qed

section \<open>Client and server together\<close>

lemma client_sends_line:
  assumes name: "cstr name = Some nm" "length name = 20" and line: "NUL \<notin> set line" and fit: "length line \<le> 299"
  shows "client_send_message g name line q = Some (mq_push q (''['' @ nm @ '']: '' @ line))"
proof -
  have nm: "length nm < 20" "NUL \<notin> set nm" using cstr_length [OF name(1)] cstr_no_NUL [OF name(1)] name(2) by auto
  let ?p = "''['' @ nm @ '']: ''" and ?f = "fresh_block (g 1) 325"
  let ?m = "?p @ line"
  let ?line = "line @ NUL # drop (Suc (length line)) (fresh_block (g 0) 300)"
  let ?b = "?p @ NUL # drop (Suc (length ?p)) ?f"
  have "NUL \<notin> set ?p" using nm(2) by simp
  then have "cstr ?b = Some ?p" by (rule cstr_append)
  then have b: "put_bytes ?f 0 (''['' @ nm @ '']: '' @ [NUL]) = Some ?b" "length ?b = 325" "cstr ?b = Some ?p"
    using nm(1) by (simp_all add: put_bytes_def)
  have l: "wgetstr (fresh_block (g 0) 300) line = Some ?line" "cstr ?line = Some line" "strlen ?line = Some (length line)"
    using fit line by (simp_all add: wgetstr_def put_bytes_def strlen_Some)
  let ?r = "?p @ line @ NUL # drop (Suc (length ?p + length line)) ?b"
  have r: "strncat ?b ?line (length line) = Some ?r"
    using strncat_self [OF l(2) b(3)] b(2) nm(1) fit by simp
  have cr: "cstr ?r = Some ?m" using nm(2) line cstr_append [of ?m] by simp
  show ?thesis
    using b l r name(1) mq_send_string [OF cr, of q] strlen_Some [OF cr] by (simp add: client_send_message_def)
qed

text \<open>
  A client's line is sent as \<open>[name]: line\<close>; with a name that fits its 20 bytes a line
  of up to 299 bytes never overflows the client's arrays (a longer one does), and the
  server that then reads the queue appends exactly that line to the text of the chat.
\<close>

theorem chat_message_roundtrip:
  assumes name: "cstr name = Some nm" "length name = 20" and line: "NUL \<notin> set line"
    and q: "mq_msgs q = []" "0 < mq_maxmsg q" "350 \<le> mq_msgsize q" "mq_msgsize q \<le> 8192"
    and chat: "cstr chat = Some t" "length t + length nm + length line + 5 < length chat" "length message = 350"
  shows "(299 < length line \<longrightarrow> client_send_message g name line q = None) \<and>
    (length line \<le> 299 \<longrightarrow> (\<exists>q' message' chat'. client_send_message g name line q = Some q' \<and>
       get_message message chat q' = Some ((message', chat'), q) \<and>
       cstr chat' = Some (t @ ''['' @ nm @ '']: '' @ line @ [NL])))"
proof (intro conjI impI)
  assume "299 < length line"
  then show "client_send_message g name line q = None" by (simp add: client_send_message_def wgetstr_def put_bytes_def)
next
  assume fit: "length line \<le> 299"
  have nm: "length nm < 20" "NUL \<notin> set nm" using cstr_length [OF name(1)] cstr_no_NUL [OF name(1)] name(2) by auto
  let ?m = "''['' @ nm @ '']: '' @ line"
  let ?q = "q \<lparr> mq_msgs := [?m] \<rparr>"
  have "mq_push q ?m = ?q" using q fit nm(1) by (simp add: mq_push_def mq_fits_def)
  then have "client_send_message g name line q = Some ?q" using client_sends_line [OF name line fit] by simp
  moreover have "?q \<lparr> mq_msgs := [] \<rparr> = q" using q(1) by (cases q) simp
  moreover have "\<exists>message' chat'. get_message message chat ?q = Some ((message', chat'), ?q \<lparr> mq_msgs := [] \<rparr>) \<and>
    length message' = 350 \<and> length chat' = length chat \<and> cstr chat' = Some (t @ unlines (overlays [] (mq_msgs ?q)))"
    using q(4) chat nm fit line by (intro get_message_lines) (auto simp: Let_def)
  ultimately show "\<exists>q' message' chat'. client_send_message g name line q = Some q' \<and>
       get_message message chat q' = Some ((message', chat'), q) \<and>
       cstr chat' = Some (t @ ''['' @ nm @ '']: '' @ line @ [NL])" by (auto simp: Let_def)
qed

lemma chat_message_roundtrip_witness:
  "\<exists>q' message' chat'. client_send_message (\<lambda>_ _. NUL) (''Ann'' @ replicate 17 NUL) ''hi'' (new_mq 8192) = Some q' \<and>
     get_message (replicate 350 NUL) (replicate 8192 NUL) q' = Some ((message', chat'), new_mq 8192) \<and>
     cstr chat' = Some (''[Ann]: hi'' @ [NL])"
proof -
  have "cstr (''Ann'' @ replicate 17 NUL) = Some ''Ann''" by (simp add: cstr_Cons)
  then show ?thesis
    using chat_message_roundtrip [of "''Ann'' @ replicate 17 NUL" "''Ann''" "''hi''" "new_mq 8192"
        "replicate 8192 NUL" "[]" "replicate 350 NUL" "\<lambda>_ _. NUL"] by (simp add: new_mq_def)
qed

end
