(* ===== verification/ChatShm.thy ===== *)
theory ChatShm
  imports NameList
begin

text \<open>
  The chat over shared memory (\<open>chat 2/server.c\<close>, \<open>chat 2/client.c\<close>).  The server creates
  two shared memory objects and a semaphore and removes them; the clients append to the
  objects.  First the operations one at a time, then as steps of concurrent clients: the
  list of names is changed under the semaphore, the text of the chat is not.
\<close>

section \<open>The server\<close>

text \<open>A shared memory object: its size and the page that is mapped.\<close>

record shm_object =
  st_size :: nat
  page :: buffer

record shm_os =
  obj_names :: "shm_object option"
  obj_chat :: "shm_object option"
  sem1 :: "nat option"

datatype server_msg = BadDescriptor | TruncateError

definition new_object :: "nat \<Rightarrow> shm_object" where
  "new_object sz = \<lparr> st_size = sz, page = replicate 4096 NUL \<rparr>"

text \<open>\<open>shm_open\<close> with \<open>O_EXCL\<close> fails when the object exists; the truncation of the bad
  descriptor fails then, too.\<close>

definition name_list :: "shm_os \<Rightarrow> server_msg list \<times> shm_os" where
  "name_list os = (case obj_names os of
     None \<Rightarrow> ([], os \<lparr> obj_names := Some (new_object 1024) \<rparr>)
   | Some _ \<Rightarrow> ([BadDescriptor, TruncateError], os))"

definition chat :: "shm_os \<Rightarrow> server_msg list \<times> shm_os" where
  "chat os = (case obj_chat os of
     None \<Rightarrow> ([], os \<lparr> obj_chat := Some (new_object 4096) \<rparr>)
   | Some _ \<Rightarrow> ([BadDescriptor, TruncateError], os))"

definition shm_server_start :: "shm_os \<Rightarrow> server_msg list \<times> shm_os" where
  "shm_server_start os = (let (out1, os) = name_list os; (out2, os) = chat os in
     (out1 @ out2, os \<lparr> sem1 := (case sem1 os of None \<Rightarrow> Some 1 | Some n \<Rightarrow> Some n) \<rparr>))"

definition shm_server_stop :: "shm_os \<Rightarrow> shm_os" where
  "shm_server_stop os = os \<lparr> sem1 := None, obj_names := None, obj_chat := None \<rparr>"

section \<open>Client operations\<close>

definition typed_line :: "buffer \<Rightarrow> string \<Rightarrow> buffer option" where
  "typed_line b line = put_bytes b 0 (line @ [NUL])"

text \<open>\<open>send_name\<close>: mapping 0 bytes fails, and the string would be appended at \<open>MAP_FAILED\<close>.\<close>

definition send_name :: "buffer \<Rightarrow> string \<Rightarrow> buffer \<Rightarrow> (buffer \<times> buffer) option" where
  "send_name name line addr = do {
     name \<leftarrow> typed_line name line;
     len \<leftarrow> strlen name;
     (if len = 0 then None
      else do { addr \<leftarrow> strcat addr name; addr \<leftarrow> strcat addr [NL, NUL]; Some (name, addr) })
   }"

text \<open>\<open>sprintf(buf, "[%s]: %s\n", name, message)\<close> into 158 bytes.\<close>

definition chat_line :: "(nat \<Rightarrow> nat \<Rightarrow> char) \<Rightarrow> buffer \<Rightarrow> string \<Rightarrow> buffer option" where
  "chat_line g name line = do {
     message \<leftarrow> typed_line (fresh_block (g 0) 128) line;
     s \<leftarrow> cstr name;
     m \<leftarrow> cstr message;
     put_bytes (fresh_block (g 1) 158) 0 (''['' @ s @ '']: '' @ m @ [NL, NUL])
   }"

definition send_message :: "(nat \<Rightarrow> nat \<Rightarrow> char) \<Rightarrow> buffer \<Rightarrow> string \<Rightarrow> buffer \<Rightarrow> buffer option" where
  "send_message g name line addr = do {
     buf \<leftarrow> chat_line g name line;
     strcat addr buf
   }"

text \<open>\<open>delete_name\<close>: \<open>buf\<close> is not initialised before the list is appended to it; the
  object is cleared up to its size only.\<close>

definition delete_name :: "(nat \<Rightarrow> char) \<Rightarrow> buffer \<Rightarrow> shm_object \<Rightarrow> shm_object option" where
  "delete_name h name ob = do {
     n \<leftarrow> strlen (page ob);
     buf \<leftarrow> strncat (fresh_block h 4096) (page ob) n;
     nl \<leftarrow> copy_others name buf (replicate 4096 NUL);
     addr \<leftarrow> memset (page ob) NUL (st_size ob);
     n \<leftarrow> strlen nl;
     addr \<leftarrow> strncat addr nl n;
     Some (ob \<lparr> page := addr \<rparr>)
   }"

section \<open>Sequential correctness\<close>

lemma put_string_at_end:
  assumes "cstr b = Some s" "NUL \<notin> set w" "length s + length w < length b"
  shows "\<exists>b'. put_bytes b (length s) (w @ [NUL]) = Some b' \<and> length b' = length b \<and> cstr b' = Some (s @ w)"
proof -
  let ?b = "(s @ w) @ NUL # drop (Suc (length s + length w)) b"
  have "NUL \<notin> set (s @ w)" using assms(2) cstr_no_NUL [OF assms(1)] by simp
  then have "cstr ?b = Some (s @ w)" by (rule cstr_append)
  then show ?thesis using assms cstr_take [OF assms(1)] by (intro exI [of _ ?b]) (simp add: put_bytes_def)
qed

text \<open>The list after a deletion: what the stack held is put in front of the first name.\<close>

definition prepend :: "string \<Rightarrow> string list \<Rightarrow> string list" where
  "prepend p ws = (if ws = [] then [] else (p @ hd ws) # tl ws)"

lemma shm_delete_name_aux:
  assumes "cstr (page ob) = Some (unlines ws)" "list_all nick ws" "cstr name = Some m"
    and "length (page ob) = 4096" "0 < st_size ob" "st_size ob \<le> 4096"
    and p: "cstr (fresh_block h 4096) = Some p \<and> NL \<notin> set p \<and> (p = [] \<or> ws \<noteq> []) \<and> length p + length (unlines ws) < 4096"
  shows "\<exists>ob'. delete_name h name ob = Some ob' \<and> st_size ob' = st_size ob \<and> length (page ob') = 4096 \<and>
    cstr (page ob') = Some (unlines (filter (\<lambda>w. w \<noteq> m) (prepend p ws))) \<and>
    (p = [] \<longrightarrow> cstr (page ob') = Some (unlines (filter (\<lambda>w. w \<noteq> m) ws)))"
proof -
  let ?ws = "prepend p ws"
  have u: "p @ unlines ws = unlines ?ws" using p by (cases ws) (simp_all add: prepend_def)
  have nicks: "list_all nick ?ws"
    using assms(2) p cstr_no_NUL [of "fresh_block h 4096" p] by (cases ws) (auto simp: prepend_def nick_def)
  have nn: "NUL \<notin> set (unlines ?ws)" by (rule unlines_no_NUL [OF nicks])
  let ?buf = "unlines ?ws @ NUL # drop (Suc (length p + length (unlines ws))) (fresh_block h 4096)"
  have "strncat (fresh_block h 4096) (page ob) (length (unlines ws)) = Some (p @ unlines ws @ NUL # drop (Suc (length p + length (unlines ws))) (fresh_block h 4096))"
    using p by (intro strncat_self [OF assms(1)]) auto
  then have b: "strncat (fresh_block h 4096) (page ob) (length (unlines ws)) = Some ?buf"
    by (simp add: u [symmetric])
  have "length (unlines ?ws) < 4096" using p u [symmetric] by simp
  then obtain nl where nl: "copy_others name ?buf (replicate 4096 NUL) = Some nl" "length nl = 4096"
      "cstr nl = Some (unlines (filter (\<lambda>w. w \<noteq> m) ?ws))"
    using names_cut [OF assms(3) cstr_append [OF nn] nicks, of "replicate 4096 NUL"] by auto
  let ?a = "replicate (st_size ob) NUL @ drop (st_size ob) (page ob)" and ?r = "unlines (filter (\<lambda>w. w \<noteq> m) ?ws)"
  have a: "memset (page ob) NUL (st_size ob) = Some ?a" "cstr ?a = Some []" "length ?a = 4096"
    using assms(4-6) by (simp_all add: memset_def put_bytes_def) (cases "st_size ob"; simp)
  have "length ?r < 4096" using cstr_length [OF nl(3)] nl(2) by simp
  then have f: "strncat ?a nl (length ?r) = Some (?r @ NUL # drop (Suc (length ?r)) ?a)"
    using strncat_self [OF nl(3) a(2)] a(3) by simp
  have c: "cstr (?r @ NUL # drop (Suc (length ?r)) ?a) = Some ?r" by (rule cstr_append [OF cstr_no_NUL [OF nl(3)]])
  have "delete_name h name ob = Some (ob \<lparr> page := ?r @ NUL # drop (Suc (length ?r)) ?a \<rparr>)"
    using assms(1) b nl a f by (simp add: delete_name_def strlen_Some)
  moreover have "p = [] \<longrightarrow> ?ws = ws" by (simp add: prepend_def)
  moreover have "length (?r @ NUL # drop (Suc (length ?r)) ?a) = 4096" using \<open>length ?r < 4096\<close> a(3) by simp
  ultimately show ?thesis
    using c by auto
qed

text \<open>
  \<open>delete_name\<close> removes all names equal to the client's from the shared list, but the
  array it copies the list to is not initialised: the string \<open>p\<close> that the stack happens
  to hold there becomes part of the first name.  The deletion is right when that string is
  empty, and reads outside the array when the array holds no zero byte.
\<close>

theorem shm_delete_name:
  assumes "cstr (page ob) = Some (unlines ws)" "list_all nick ws" "cstr name = Some m"
    and "length (page ob) = 4096" "0 < st_size ob" "st_size ob \<le> 4096"
  shows "(\<forall>p. cstr (fresh_block h 4096) = Some p \<and> NL \<notin> set p \<and> (p = [] \<or> ws \<noteq> []) \<and> length p + length (unlines ws) < 4096 \<longrightarrow>
      (\<exists>ob'. delete_name h name ob = Some ob' \<and> st_size ob' = st_size ob \<and> length (page ob') = 4096 \<and>
        cstr (page ob') = Some (unlines (filter (\<lambda>w. w \<noteq> m) (prepend p ws))) \<and>
        (p = [] \<longrightarrow> cstr (page ob') = Some (unlines (filter (\<lambda>w. w \<noteq> m) ws))))) \<and>
    (cstr (fresh_block h 4096) = None \<longrightarrow> delete_name h name ob = None)"
proof (intro conjI allI impI)
  fix p assume "cstr (fresh_block h 4096) = Some p \<and> NL \<notin> set p \<and> (p = [] \<or> ws \<noteq> []) \<and> length p + length (unlines ws) < 4096"
  then show "\<exists>ob'. delete_name h name ob = Some ob' \<and> st_size ob' = st_size ob \<and> length (page ob') = 4096 \<and>
        cstr (page ob') = Some (unlines (filter (\<lambda>w. w \<noteq> m) (prepend p ws))) \<and>
        (p = [] \<longrightarrow> cstr (page ob') = Some (unlines (filter (\<lambda>w. w \<noteq> m) ws)))"
    by (rule shm_delete_name_aux [OF assms])
next
  assume "cstr (fresh_block h 4096) = None"
  then show "delete_name h name ob = None" using assms(1) by (simp add: delete_name_def strncat_def strlen_Some)
qed

lemma shm_delete_name_witness:
  "\<exists>ob'. delete_name (\<lambda>i. if i = 0 then CHR ''z'' else NUL) (''Ann'' @ [NUL])
      \<lparr> st_size = 1024, page = unlines [''Ann'', ''Bob''] @ replicate 4088 NUL \<rparr> = Some ob' \<and>
    cstr (page ob') = Some (unlines [''zAnn'', ''Bob''])"
proof -
  let ?ob = "\<lparr> st_size = 1024, page = unlines [''Ann'', ''Bob''] @ replicate 4088 NUL \<rparr>"
  let ?h = "\<lambda>i :: nat. if i = 0 then CHR ''z'' else NUL"
  have p: "cstr (fresh_block ?h 4096) = Some ''z''" by (rule cstr_fresh) simp_all
  have o: "cstr (page ?ob) = Some (unlines [''Ann'', ''Bob''])" by (simp add: cstr_Cons)
  have n: "list_all nick [''Ann'', ''Bob'']" "cstr (''Ann'' @ [NUL]) = Some ''Ann''" by (simp_all add: nick_def cstr_Cons)
  from shm_delete_name [OF o n, of ?h] p show ?thesis by (auto simp: prepend_def)
qed

section \<open>Concurrent clients\<close>

text \<open>
  What a client is doing: nothing, holding the semaphore to add a name (before and after
  \<open>strcat\<close> has found the end of the list) or to delete it, about to release it, or adding
  a line to the chat after \<open>strcat\<close> has found its end.  The ghost fields \<open>holder\<close>, who
  passed \<open>sem_wait\<close>, \<open>users\<close>, the names added and not deleted, \<open>gone\<close>, the clients that
  have run \<open>delete_name\<close>, and \<open>said\<close>, the lines added, are not read by any step.  A client is
  a process of its own, so \<open>h t\<close> is what the stack of client \<open>t\<close> holds in \<open>buf\<close>.
\<close>

datatype pc = Idle | Joining string | JoinAt string nat | Leaving string | Done | SpeakAt string nat

record shm =
  names :: shm_object
  talk :: buffer
  sem :: nat
  pcs :: "nat \<Rightarrow> pc"
  holder :: "nat option"
  users :: "string list"
  gone :: "nat set"
  said :: "string list"

fun in_section :: "pc \<Rightarrow> bool" where
  "in_section (Joining _) = True"
| "in_section (JoinAt _ _) = True"
| "in_section (Leaving _) = True"
| "in_section Done = True"
| "in_section _ = False"

inductive shm_step :: "(nat \<Rightarrow> nat \<Rightarrow> char) \<Rightarrow> shm \<Rightarrow> shm \<Rightarrow> bool" for h where
  join_wait: "pcs s t = Idle \<Longrightarrow> 0 < sem s \<Longrightarrow> nick w \<Longrightarrow> length w < 25 \<Longrightarrow>
    shm_step h s (s \<lparr> sem := sem s - 1, holder := Some t, pcs := (pcs s)(t := Joining w) \<rparr>)"
| join_find: "pcs s t = Joining w \<Longrightarrow> cstr (page (names s)) = Some u \<Longrightarrow>
    shm_step h s (s \<lparr> pcs := (pcs s)(t := JoinAt w (length u)) \<rparr>)"
| join_write: "pcs s t = JoinAt w k \<Longrightarrow> put_bytes (page (names s)) k ((w @ [NL]) @ [NUL]) = Some b \<Longrightarrow>
    shm_step h s (s \<lparr> names := (names s) \<lparr> page := b \<rparr>, users := users s @ [w], pcs := (pcs s)(t := Done) \<rparr>)"
| leave_wait: "pcs s t = Idle \<Longrightarrow> 0 < sem s \<Longrightarrow> nick w \<Longrightarrow>
    shm_step h s (s \<lparr> sem := sem s - 1, holder := Some t, pcs := (pcs s)(t := Leaving w) \<rparr>)"
| leave_delete: "pcs s t = Leaving w \<Longrightarrow> delete_name (h t) (w @ [NUL]) (names s) = Some ob \<Longrightarrow>
    shm_step h s (s \<lparr> names := ob, users := filter (\<lambda>v. v \<noteq> w) (users s), gone := insert t (gone s), pcs := (pcs s)(t := Done) \<rparr>)"
| post: "pcs s t = Done \<Longrightarrow>
    shm_step h s (s \<lparr> sem := sem s + 1, holder := None, pcs := (pcs s)(t := Idle) \<rparr>)"
| speak_find: "pcs s t = Idle \<Longrightarrow> cstr (talk s) = Some u \<Longrightarrow> cstr (l @ [NUL]) = Some l \<Longrightarrow>
    shm_step h s (s \<lparr> pcs := (pcs s)(t := SpeakAt l (length u)) \<rparr>)"
| speak_write: "pcs s t = SpeakAt l k \<Longrightarrow> put_bytes (talk s) k (l @ [NUL]) = Some b \<Longrightarrow>
    shm_step h s (s \<lparr> talk := b, said := said s @ [l], pcs := (pcs s)(t := Idle) \<rparr>)"

text \<open>The state the server's initialisation leaves.\<close>

definition shm_initial :: "shm \<Rightarrow> bool" where
  "shm_initial s \<longleftrightarrow> (let os = snd (shm_server_start \<lparr> obj_names = None, obj_chat = None, sem1 = None \<rparr>) in
     obj_names os = Some (names s) \<and> map_option page (obj_chat os) = Some (talk s) \<and> sem1 os = Some (sem s) \<and>
     pcs s = (\<lambda>_. Idle) \<and> holder s = None \<and> users s = [] \<and> gone s = {} \<and> said s = [])"

definition shm_locked :: "shm \<Rightarrow> bool" where
  "shm_locked s \<longleftrightarrow> (\<forall>t. in_section (pcs s t) \<longleftrightarrow> holder s = Some t) \<and>
     sem s = (if holder s = None then 1 else 0)"

definition clean :: "(nat \<Rightarrow> nat \<Rightarrow> char) \<Rightarrow> shm \<Rightarrow> bool" where
  "clean h s \<longleftrightarrow> (\<forall>t\<in>gone s. h t 0 = NUL)"

definition shm_names_ok :: "(nat \<Rightarrow> nat \<Rightarrow> char) \<Rightarrow> shm \<Rightarrow> bool" where
  "shm_names_ok h s \<longleftrightarrow> length (page (names s)) = 4096 \<and> st_size (names s) = 1024 \<and>
     (clean h s \<longrightarrow> cstr (page (names s)) = Some (unlines (users s)) \<and> list_all nick (users s) \<and>
        (\<forall>t w k. pcs s t = JoinAt w k \<longrightarrow> k = length (unlines (users s)))) \<and>
     (\<forall>t w. pcs s t = Joining w \<or> pcs s t = Leaving w \<or> (\<exists>k. pcs s t = JoinAt w k) \<longrightarrow> nick w)"

definition shm_inv :: "(nat \<Rightarrow> nat \<Rightarrow> char) \<Rightarrow> shm \<Rightarrow> bool" where
  "shm_inv h s \<longleftrightarrow> shm_locked s \<and> shm_names_ok h s"

lemma locked_keep:
  assumes "shm_locked s" "pcs s' = (pcs s)(t := p)" "in_section p \<longleftrightarrow> in_section (pcs s t)"
    and "holder s' = holder s" "sem s' = sem s"
  shows "shm_locked s'"
  using assms by (simp add: shm_locked_def)

lemma locked_enter:
  assumes "shm_locked s" "pcs s' = (pcs s)(t := p)" "in_section p" "0 < sem s"
    and "holder s' = Some t" "sem s' = sem s - 1"
  shows "shm_locked s'"
proof -
  have "holder s = None" "sem s = 1" using assms(1,4) by (auto simp: shm_locked_def split: if_splits)
  then have "\<not> in_section (pcs s u)" for u using assms(1) by (simp add: shm_locked_def)
  then show ?thesis using assms(2,3,5,6) \<open>sem s = 1\<close> by (simp add: shm_locked_def)
qed

lemma locked_exit:
  assumes "shm_locked s" "pcs s' = (pcs s)(t := p)" "\<not> in_section p" "in_section (pcs s t)"
    and "holder s' = None" "sem s' = sem s + 1"
  shows "shm_locked s'"
proof -
  have h: "holder s = Some t" "sem s = 0" using assms(1,4) by (simp_all add: shm_locked_def)
  then have "in_section (pcs s u) \<Longrightarrow> u = t" for u using assms(1) by (simp add: shm_locked_def)
  then show ?thesis using assms(2,3,5,6) h by (auto simp: shm_locked_def)
qed

lemma shm_locked_step:
  assumes "shm_locked s" "shm_step h s s'"
  shows "shm_locked s'"
  using assms(2)
proof cases
  case (join_wait t w)
  then show ?thesis by (intro locked_enter [OF assms(1), of s' t "Joining w"]) simp_all
next
  case (join_find t w u)
  then show ?thesis by (intro locked_keep [OF assms(1), of s' t "JoinAt w (length u)"]) simp_all
next
  case (join_write t w k b)
  then show ?thesis by (intro locked_keep [OF assms(1), of s' t Done]) simp_all
next
  case (leave_wait t w)
  then show ?thesis by (intro locked_enter [OF assms(1), of s' t "Leaving w"]) simp_all
next
  case (leave_delete t w ob)
  then show ?thesis by (intro locked_keep [OF assms(1), of s' t Done]) simp_all
next
  case (post t)
  then show ?thesis by (intro locked_exit [OF assms(1), of s' t Idle]) simp_all
next
  case (speak_find t u l)
  then show ?thesis by (intro locked_keep [OF assms(1), of s' t "SpeakAt l (length u)"]) simp_all
next
  case (speak_write t l k b)
  then show ?thesis by (intro locked_keep [OF assms(1), of s' t Idle]) simp_all
qed

lemma delete_first_NUL:
  assumes "h 0 = NUL" "cstr (page ob) = Some (unlines ws)" "list_all nick ws" "nick m"
    and "length (page ob) = 4096" "st_size ob = 1024" "delete_name h (m @ [NUL]) ob = Some ob'"
  shows "cstr (page ob') = Some (unlines (filter (\<lambda>w. w \<noteq> m) ws)) \<and> length (page ob') = 4096 \<and> st_size ob' = 1024"
proof -
  have h: "cstr (fresh_block h 4096) = Some []" using assms(1) by (intro cstr_fresh) simp_all
  have m: "cstr (m @ [NUL]) = Some m" using assms(4) by (simp add: nick_def)
  have "length (unlines ws) < 4096" using cstr_length [OF assms(2)] assms(5) by simp
  then show ?thesis using shm_delete_name_aux [OF assms(2,3) m assms(5), of h "[]"] assms(6,7) h
    by (auto simp: prepend_def)
qed

text \<open>Steps that leave the list of names alone keep what is known of it.\<close>

lemma names_keep:
  assumes "shm_names_ok h s" "names s' = names s" "users s' = users s" "gone s' = gone s" "pcs s' = (pcs s)(t := p)"
    and "\<And>w. p = Joining w \<or> p = Leaving w \<or> (\<exists>k. p = JoinAt w k) \<Longrightarrow> nick w"
    and "\<And>w k. p = JoinAt w k \<Longrightarrow> clean h s \<Longrightarrow> k = length (unlines (users s))"
  shows "shm_names_ok h s'"
  using assms(1,6,7) unfolding shm_names_ok_def clean_def assms(2-5) by (simp split: if_splits)

lemma names_ok_nick:
  "shm_names_ok h s \<Longrightarrow> pcs s t = Joining w \<or> pcs s t = Leaving w \<or> (\<exists>k. pcs s t = JoinAt w k) \<Longrightarrow> nick w"
  unfolding shm_names_ok_def by blast

lemma names_write:
  assumes "shm_locked s" "shm_names_ok h s" "in_section (pcs s t)"
    and "pcs s' = (pcs s)(t := Done)" "length (page (names s')) = 4096" "st_size (names s') = 1024"
    and "clean h s' \<Longrightarrow> cstr (page (names s')) = Some (unlines (users s')) \<and> list_all nick (users s')"
  shows "shm_names_ok h s'"
proof -
  have "u = t" if "pcs s u = JoinAt w k" for u w k
  proof -
    have "in_section (pcs s u)" using that by simp
    then show ?thesis using assms(1,3) by (simp add: shm_locked_def)
  qed
  then have no: "pcs s' u \<noteq> JoinAt w k" for u w k using assms(4) by auto
  have "nick w" if "pcs s' u = Joining w \<or> pcs s' u = Leaving w" for u w
    using that assms(4) names_ok_nick [OF assms(2), of u w] by (auto split: if_splits)
  with no show ?thesis using assms(5-7) by (auto simp: shm_names_ok_def)
qed

lemma delete_name_sizes:
  "delete_name h n ob = Some ob' \<Longrightarrow> length (page ob') = length (page ob) \<and> st_size ob' = st_size ob"
  by (auto simp: delete_name_def memset_def strncat_def dest!: put_bytes_length split: bind_splits)

lemma shm_names_step:
  assumes "shm_locked s" "shm_names_ok h s" "shm_step h s s'"
  shows "shm_names_ok h s'"
  using assms(3)
proof cases
  case (join_wait t w)
  then show ?thesis by (intro names_keep [OF assms(2), of s' t "Joining w"]) simp_all
next
  case (join_find t w u)
  have "nick w" using names_ok_nick [OF assms(2), of t] join_find by blast
  moreover have "u = unlines (users s)" if "clean h s"
    using that join_find assms(2) by (simp add: shm_names_ok_def)
  ultimately show ?thesis using join_find
    by (intro names_keep [OF assms(2), of s' t "JoinAt w (length u)"]) auto
next
  case (join_write t w k b)
  have n: "nick w" using names_ok_nick [OF assms(2), of t] join_write by blast
  have len: "length (page (names s)) = 4096" "st_size (names s) = 1024" using assms(2) by (simp_all add: shm_names_ok_def)
  have bl: "length b = 4096" using put_bytes_length [OF join_write(3)] len by simp
  have "cstr b = Some (unlines (users s @ [w])) \<and> list_all nick (users s @ [w])" if "clean h s"
  proof -
    have c: "cstr (page (names s)) = Some (unlines (users s))" "k = length (unlines (users s))" "list_all nick (users s)"
      using assms(2) join_write(2) that by (auto simp: shm_names_ok_def)
    have "length (unlines (users s)) + length (w @ [NL]) < length (page (names s))"
      using join_write(3) c(2) by (simp add: put_bytes_def split: if_splits)
    then show ?thesis using put_string_at_end [OF c(1), of "w @ [NL]"] join_write(3) c n by (auto simp: nick_def)
  qed
  then show ?thesis using join_write len bl by (intro names_write [OF assms(1,2), of t]) (simp_all add: clean_def)
next
  case (leave_wait t w)
  then show ?thesis by (intro names_keep [OF assms(2), of s' t "Leaving w"]) simp_all
next
  case (leave_delete t w ob)
  have n: "nick w" using names_ok_nick [OF assms(2), of t] leave_delete by blast
  have len: "length (page (names s)) = 4096" "st_size (names s) = 1024" using assms(2) by (simp_all add: shm_names_ok_def)
  have obl: "length (page ob) = 4096" "st_size ob = 1024" using delete_name_sizes [OF leave_delete(3)] len by simp_all
  have "cstr (page ob) = Some (unlines (filter (\<lambda>v. v \<noteq> w) (users s))) \<and> list_all nick (filter (\<lambda>v. v \<noteq> w) (users s))"
    if "clean h s'"
  proof -
    have z: "clean h s" "h t 0 = NUL" using that leave_delete(1) by (simp_all add: clean_def)
    then have c: "cstr (page (names s)) = Some (unlines (users s))" "list_all nick (users s)"
      using assms(2) by (auto simp: shm_names_ok_def)
    then show ?thesis using delete_first_NUL [OF z(2) c n len leave_delete(3)] by (auto simp: list_all_iff)
  qed
  then show ?thesis using leave_delete obl by (intro names_write [OF assms(1,2), of t]) simp_all
next
  case (post t)
  then show ?thesis by (intro names_keep [OF assms(2), of s' t Idle]) simp_all
next
  case (speak_find t u l)
  then show ?thesis by (intro names_keep [OF assms(2), of s' t "SpeakAt l (length u)"]) simp_all
next
  case (speak_write t l k b)
  then show ?thesis by (intro names_keep [OF assms(2), of s' t Idle]) simp_all
qed

lemma shm_initial_inv:
  assumes "shm_initial s"
  shows "shm_inv h s"
proof -
  have "names s = new_object 1024" "sem s = 1" "pcs s = (\<lambda>_. Idle)" "holder s = None" "users s = []" "gone s = {}"
    using assms by (auto simp: shm_initial_def shm_server_start_def name_list_def chat_def)
  then show ?thesis by (simp add: shm_inv_def shm_locked_def shm_names_ok_def new_object_def)
qed

interpretation clients: locking shm_initial "shm_step h" "shm_inv h"
  "\<lambda>s t (_ :: unit). in_section (pcs s t)" "\<lambda>s _. holder s" for h
proof
  fix s assume "shm_initial s" then show "shm_inv h s" by (rule shm_initial_inv)
next
  fix s t assume "shm_inv h s" "shm_step h s t"
  then show "shm_inv h t" using shm_locked_step shm_names_step by (auto simp: shm_inv_def)
next
  fix s t and m :: unit assume "shm_inv h s" "in_section (pcs s t)"
  then show "holder s = Some t" by (simp add: shm_inv_def shm_locked_def)
qed

text \<open>
  C18.  However clients join, leave and speak concurrently, at most one of them is between
  \<open>sem_wait\<close> and \<open>sem_post\<close>, always.  The shared list holds exactly the names that joined and
  did not leave until the first deletion by a client whose uninitialised array \<open>buf\<close> does
  not begin with a zero byte; in particular as long as nobody has left.
\<close>

theorem shm_names_locked:
  assumes "shm_initial s0" "(shm_step h)\<^sup>*\<^sup>* s0 s"
  shows "(\<forall>t u. in_section (pcs s t) \<and> in_section (pcs s u) \<longrightarrow> t = u) \<and>
    ((\<forall>t\<in>gone s. h t 0 = NUL) \<longrightarrow> cstr (page (names s)) = Some (unlines (users s))) \<and>
    (gone s = {} \<longrightarrow> cstr (page (names s)) = Some (unlines (users s)))"
proof -
  have "t = u" if "in_section (pcs s t)" "in_section (pcs s u)" for t u
    using that clients.exclusion [OF assms] by blast
  moreover have "shm_inv h s" by (rule clients.reachable_inv [OF assms])
  ultimately show ?thesis by (auto simp: shm_inv_def shm_names_ok_def clean_def)
qed

definition shm_start :: shm where
  "shm_start = \<lparr> names = new_object 1024, talk = replicate 4096 NUL, sem = 1, pcs = (\<lambda>_. Idle),
     holder = None, users = [], gone = {}, said = [] \<rparr>"

lemma shm_start_initial: "shm_initial shm_start"
  by (simp add: shm_initial_def shm_server_start_def name_list_def chat_def new_object_def shm_start_def)

text \<open>
  Adding to the chat takes no lock: two clients that speak at the same time can find
  the same end of the text, and the second line then overwrites the first.
\<close>

theorem shm_chat_lost_line:
  assumes "(t :: nat) \<noteq> u" "NUL \<notin> set l1" "NUL \<notin> set l2" "length l1 < 4096" "length l2 < 4096"
  shows "\<exists>s. (shm_step h)\<^sup>*\<^sup>* shm_start s \<and> said s = [l1, l2] \<and> pcs s = (\<lambda>_. Idle) \<and>
    cstr (talk s) = Some l2"
proof -
  let ?z = "replicate 4096 NUL"
  obtain b1 where b1: "put_bytes ?z 0 (l1 @ [NUL]) = Some b1" "length b1 = 4096"
    using put_string_at_end [of ?z "[]" l1] assms(2,4) by auto
  obtain b2 where b2: "put_bytes b1 0 (l2 @ [NUL]) = Some b2" "cstr b2 = Some l2"
    using assms(3,5) b1(2) by (simp add: put_bytes_def)
  let ?s1 = "shm_start \<lparr> pcs := (pcs shm_start)(t := SpeakAt l1 0) \<rparr>"
  let ?s2 = "?s1 \<lparr> pcs := (pcs ?s1)(u := SpeakAt l2 0) \<rparr>"
  let ?s3 = "?s2 \<lparr> talk := b1, said := said ?s2 @ [l1], pcs := (pcs ?s2)(t := Idle) \<rparr>"
  let ?s4 = "?s3 \<lparr> talk := b2, said := said ?s3 @ [l2], pcs := (pcs ?s3)(u := Idle) \<rparr>"
  have "shm_step h shm_start ?s1"
    using speak_find [of shm_start t "[]" l1 h] assms(2) by (simp add: shm_start_def)
  moreover have "shm_step h ?s1 ?s2"
    using speak_find [of ?s1 u "[]" l2 h] assms(1,3) by (simp add: shm_start_def)
  moreover have "shm_step h ?s2 ?s3"
    by (rule speak_write [of ?s2 t l1 0]) (use assms(1) b1(1) in \<open>simp_all add: shm_start_def\<close>)
  moreover have "shm_step h ?s3 ?s4"
    by (rule speak_write [of ?s3 u l2 0]) (use assms(1) b2(1) in \<open>simp_all add: shm_start_def\<close>)
  ultimately have "(shm_step h)\<^sup>*\<^sup>* shm_start ?s4" by (meson converse_rtranclp_into_rtranclp rtranclp.rtrancl_refl)
  moreover have "pcs ?s4 = (\<lambda>_. Idle)" using assms(1) by (auto simp: shm_start_def)
  moreover have "said ?s4 = [l1, l2]" by (simp add: shm_start_def)
  ultimately show ?thesis using b2(2) by (intro exI [of _ ?s4]) simp
qed

lemma shm_chat_lost_line_witness:
  "\<exists>s. (shm_step (\<lambda>_ _. NUL))\<^sup>*\<^sup>* shm_start s \<and> said s = [''[A]: hi'', ''[B]: ho''] \<and> pcs s = (\<lambda>_. Idle) \<and>
    cstr (talk s) = Some ''[B]: ho''"
  by (rule shm_chat_lost_line [of 0 "Suc 0"]) simp_all

lemma shm_names_locked_witness:
  "\<exists>s. (shm_step (\<lambda>_ _. NUL))\<^sup>*\<^sup>* shm_start s \<and> pcs s 0 = Joining ''Ann'' \<and>
     (\<forall>t u. in_section (pcs s t) \<and> in_section (pcs s u) \<longrightarrow> t = u) \<and>
     cstr (page (names s)) = Some (unlines (users s))"
proof -
  let ?s = "shm_start \<lparr> sem := sem shm_start - 1, holder := Some 0, pcs := (pcs shm_start)(0 := Joining ''Ann'') \<rparr>"
  have "shm_step (\<lambda>_ _. NUL) shm_start ?s" by (rule join_wait) (simp_all add: shm_start_def nick_def)
  then have r: "(shm_step (\<lambda>_ _. NUL))\<^sup>*\<^sup>* shm_start ?s" by (rule r_into_rtranclp)
  have "pcs ?s 0 = Joining ''Ann''" by simp
  with r shm_names_locked [OF shm_start_initial r] show ?thesis by blast
qed

text \<open>The line a client builds always fits its array, whatever is typed.\<close>

lemma chat_line_fits:
  assumes "cstr name = Some nm" "length name = 25" "NUL \<notin> set line" "length line \<le> 127"
  shows "\<exists>b. chat_line g name line = Some b \<and> cstr b = Some (''['' @ nm @ '']: '' @ line @ [NL])"
proof -
  let ?l = "''['' @ nm @ '']: '' @ line @ [NL]"
  have nm: "length nm < 25" "NUL \<notin> set nm" using cstr_length [OF assms(1)] cstr_no_NUL [OF assms(1)] assms(2) by auto
  have "typed_line (fresh_block (g 0) 128) line = Some (line @ NUL # drop (Suc (length line)) (fresh_block (g 0) 128))"
    using assms(4) by (simp add: typed_line_def put_bytes_def)
  moreover have "put_bytes (fresh_block (g 1) 158) 0 (?l @ [NUL]) = Some (?l @ NUL # drop (Suc (length ?l)) (fresh_block (g 1) 158))"
    using nm assms(4) by (simp add: put_bytes_def)
  moreover have "NUL \<notin> set ?l" using nm(2) assms(3) by simp
  ultimately show ?thesis using assms(1,3) cstr_append [of ?l] by (simp add: chat_line_def)
qed
section \<open>A client session\<close>

text \<open>
  The client's \<open>main\<close>, each operation run alone; who waits for whom is the business of
  \<open>shm_step\<close>.  \<open>None\<close> is also the use of an object or a semaphore that does not exist:
  its descriptor or address is not tested.
\<close>

datatype shm_key = Shm_F1 string | Shm_F2 | Shm_Other

definition shm_client_start :: "(nat \<Rightarrow> nat \<Rightarrow> char) \<Rightarrow> string \<Rightarrow> shm_os \<Rightarrow> (buffer \<times> shm_os) option" where
  "shm_client_start g line os = do {
     sem \<leftarrow> sem1 os;
     ob \<leftarrow> obj_names os;
     (name, addr) \<leftarrow> send_name (fresh_block (g 2) 25) line (page ob);
     Some (name, os \<lparr> obj_names := Some (ob \<lparr> page := addr \<rparr>) \<rparr>)
   }"

definition shm_client_key ::
  "(nat \<Rightarrow> nat \<Rightarrow> char) \<Rightarrow> shm_key \<Rightarrow> buffer \<Rightarrow> shm_os \<Rightarrow> shm_os option" where
  "shm_client_key g k name os = (case k of
     Shm_F1 line \<Rightarrow> do {
       ob \<leftarrow> obj_chat os;
       addr \<leftarrow> send_message g name line (page ob);
       Some (os \<lparr> obj_chat := Some (ob \<lparr> page := addr \<rparr>) \<rparr>)
     }
   | Shm_F2 \<Rightarrow> do {
       ob \<leftarrow> obj_names os;
       ob \<leftarrow> delete_name (g 3) name ob;
       Some (os \<lparr> obj_names := Some ob \<rparr>)
     }
   | Shm_Other \<Rightarrow> Some os)"

text \<open>What one round of each receiver thread prints.\<close>

definition shm_get_name_list :: "shm_os \<Rightarrow> string option" where
  "shm_get_name_list os = do { ob \<leftarrow> obj_names os; cstr (page ob) }"

definition shm_get_chat :: "shm_os \<Rightarrow> string option" where
  "shm_get_chat os = do { ob \<leftarrow> obj_chat os; cstr (page ob) }"

lemma strcat_at_end:
  assumes "cstr b = Some s" "cstr w = Some v" "length s + length v < length b"
  shows "\<exists>b'. strcat b w = Some b' \<and> length b' = length b \<and> cstr b' = Some (s @ v)"
  using put_string_at_end [OF assms(1) cstr_no_NUL [OF assms(2)] assms(3)] assms(1,2) by (simp add: strcat_def)

text \<open>
  C17.  A client's whole session over the shared memory: after its start every client shows
  its name at the end of the list, after a line the text ends with \<open>[name]: line\<close>, and its
  exit keeps the text.  What the exit does to the list depends on the string \<open>p\<close> that the
  stack array \<open>buf\<close> of \<open>delete_name\<close>, which nothing initialises, happens to hold (without a
  newline, and fitting before the list): \<open>p\<close> is put in front of the first name, and then
  every name equal to the client's goes, so with an empty \<open>p\<close> the list is the old one
  without the names equal to the client's, and with another one a client that was alone
  stays in the list under the name \<open>p @ nm\<close>.  With no zero byte in the array
  \<open>strncat\<close> reads past it.
\<close>

theorem shm_session:
  assumes sem: "sem1 os \<noteq> None"
    and ob: "obj_names os = Some ob" "cstr (page ob) = Some (unlines ws)" "list_all nick ws" "length (page ob) = 4096"
      "0 < st_size ob" "st_size ob \<le> 4096"
    and oc: "obj_chat os = Some oc" "cstr (page oc) = Some log" "length (page oc) = 4096"
    and nm: "nick nm" "length nm < 25" and line: "NUL \<notin> set line" "length line < 128"
    and room: "length (unlines (ws @ [nm])) < 4096" "length log + length nm + length line + 5 < 4096"
  shows "\<exists>name os1 os2. shm_client_start g nm os = Some (name, os1) \<and>
    shm_get_name_list os1 = Some (unlines (ws @ [nm])) \<and>
    shm_client_key g (Shm_F1 line) name os1 = Some os2 \<and>
    shm_get_chat os2 = Some (log @ ''['' @ nm @ '']: '' @ line @ [NL]) \<and>
    (\<forall>p. cstr (fresh_block (g 3) 4096) = Some p \<and> NL \<notin> set p \<and> length p + length (unlines (ws @ [nm])) < 4096 \<longrightarrow>
      (\<exists>os3. shm_client_key g Shm_F2 name os2 = Some os3 \<and> shm_get_chat os3 = shm_get_chat os2 \<and>
        shm_get_name_list os3 = Some (unlines (filter (\<lambda>w. w \<noteq> nm) (prepend p (ws @ [nm])))) \<and>
        (p = [] \<longrightarrow> shm_get_name_list os3 = Some (unlines (filter (\<lambda>w. w \<noteq> nm) ws))) \<and>
        (p \<noteq> [] \<and> ws = [] \<longrightarrow> shm_get_name_list os3 = Some (unlines [p @ nm])))) \<and>
    (cstr (fresh_block (g 3) 4096) = None \<longrightarrow> shm_client_key g Shm_F2 name os2 = None)"
proof -
  have n: "NUL \<notin> set nm" "nm \<noteq> []" using nm(1) by (simp_all add: nick_def)
  let ?name = "nm @ NUL # drop (Suc (length nm)) (fresh_block (g 2) 25)"
  have name: "typed_line (fresh_block (g 2) 25) nm = Some ?name" "cstr ?name = Some nm"
    using nm(2) n by (simp_all add: typed_line_def put_bytes_def)
  obtain a where a: "strcat (page ob) ?name = Some a" "length a = 4096" "cstr a = Some (unlines ws @ nm)"
    using strcat_at_end [OF ob(2) name(2)] ob(4) room(1) by auto
  have nl: "cstr [NL, NUL] = Some [NL]" by (simp add: cstr_Cons)
  obtain b where b: "strcat a [NL, NUL] = Some b" "length b = 4096" "cstr b = Some (unlines (ws @ [nm]))"
    using strcat_at_end [OF a(3) nl] a(2) room(1) by auto
  let ?ob1 = "ob \<lparr> page := b \<rparr>"
  let ?os1 = "os \<lparr> obj_names := Some ?ob1 \<rparr>"
  have start: "shm_client_start g nm os = Some (?name, ?os1)"
    using sem ob(1) name a(1) b(1) n(2) by (auto simp: shm_client_start_def send_name_def strlen_Some)
  let ?l = "''['' @ nm @ '']: '' @ line @ [NL]"
  have "cstr (line @ NUL # drop (Suc (length line)) (fresh_block (g 0) 128)) = Some line" using line(1) by simp
  then obtain cb where cb: "chat_line g ?name line = Some cb" "cstr cb = Some ?l"
  proof -
    have l: "NUL \<notin> set ?l" using n(1) line(1) by simp
    have "chat_line g ?name line = Some (?l @ NUL # drop (Suc (length ?l)) (fresh_block (g 1) 158))"
      using line n name(2) nm(2) by (simp add: chat_line_def typed_line_def put_bytes_def)
    then show thesis using that cstr_append [OF l] by blast
  qed
  obtain c where c: "strcat (page oc) cb = Some c" "cstr c = Some (log @ ?l)"
    using strcat_at_end [OF oc(2) cb(2)] oc(3) room(2) by auto
  let ?os2 = "?os1 \<lparr> obj_chat := Some (oc \<lparr> page := c \<rparr>) \<rparr>"
  have say: "shm_client_key g (Shm_F1 line) ?name ?os1 = Some ?os2"
    using oc(1) cb(1) c(1) by (simp add: shm_client_key_def send_message_def)
  have ws: "list_all nick (ws @ [nm])" using ob(3) nm(1) by simp
  have leave: "\<exists>os3. shm_client_key g Shm_F2 ?name ?os2 = Some os3 \<and> shm_get_chat os3 = shm_get_chat ?os2 \<and>
      shm_get_name_list os3 = Some (unlines (filter (\<lambda>w. w \<noteq> nm) (prepend p (ws @ [nm]))))"
    if p: "cstr (fresh_block (g 3) 4096) = Some p \<and> NL \<notin> set p \<and> length p + length (unlines (ws @ [nm])) < 4096" for p
  proof -
    obtain ob' where "delete_name (g 3) ?name ?ob1 = Some ob'"
        "cstr (page ob') = Some (unlines (filter (\<lambda>w. w \<noteq> nm) (prepend p (ws @ [nm]))))"
      using shm_delete_name_aux [of ?ob1 "ws @ [nm]" ?name nm "g 3" p] b ws name(2) ob(5,6) p by auto
    then show ?thesis
      by (intro exI [of _ "?os2 \<lparr> obj_names := Some ob' \<rparr>"]) (simp add: shm_client_key_def shm_get_name_list_def shm_get_chat_def)
  qed
  have empty: "filter (\<lambda>w. w \<noteq> nm) (prepend [] (ws @ [nm])) = filter (\<lambda>w. w \<noteq> nm) ws"
    by (cases ws) (simp_all add: prepend_def)
  have alone: "filter (\<lambda>w. w \<noteq> nm) (prepend p ([] @ [nm])) = [p @ nm]" if "p \<noteq> []" for p
    using that by (simp add: prepend_def)
  have none: "shm_client_key g Shm_F2 ?name ?os2 = None" if "cstr (fresh_block (g 3) 4096) = None"
    using that b(3) by (simp add: shm_client_key_def delete_name_def strncat_def strlen_Some)
  show ?thesis
  proof (rule exI [of _ ?name], rule exI [of _ ?os1], rule exI [of _ ?os2], intro conjI allI impI)
    show "shm_client_start g nm os = Some (?name, ?os1)" by (rule start)
    show "shm_get_name_list ?os1 = Some (unlines (ws @ [nm]))" using b(3) by (simp add: shm_get_name_list_def)
    show "shm_client_key g (Shm_F1 line) ?name ?os1 = Some ?os2" by (rule say)
    show "shm_get_chat ?os2 = Some (log @ ?l)" using c(2) by (simp add: shm_get_chat_def)
  next
    fix p assume p: "cstr (fresh_block (g 3) 4096) = Some p \<and> NL \<notin> set p \<and> length p + length (unlines (ws @ [nm])) < 4096"
    from leave [OF p] obtain os3 where "shm_client_key g Shm_F2 ?name ?os2 = Some os3" "shm_get_chat os3 = shm_get_chat ?os2"
        and l: "shm_get_name_list os3 = Some (unlines (filter (\<lambda>w. w \<noteq> nm) (prepend p (ws @ [nm]))))" by blast
    moreover have "shm_get_name_list os3 = Some (unlines (filter (\<lambda>w. w \<noteq> nm) ws))" if "p = []"
      using l empty that by simp
    moreover have "shm_get_name_list os3 = Some (unlines [p @ nm])" if "p \<noteq> [] \<and> ws = []"
      using l alone [of p] that by simp
    ultimately show "\<exists>os3. shm_client_key g Shm_F2 ?name ?os2 = Some os3 \<and> shm_get_chat os3 = shm_get_chat ?os2 \<and>
        shm_get_name_list os3 = Some (unlines (filter (\<lambda>w. w \<noteq> nm) (prepend p (ws @ [nm])))) \<and>
        (p = [] \<longrightarrow> shm_get_name_list os3 = Some (unlines (filter (\<lambda>w. w \<noteq> nm) ws))) \<and>
        (p \<noteq> [] \<and> ws = [] \<longrightarrow> shm_get_name_list os3 = Some (unlines [p @ nm]))" by blast
  next
    assume "cstr (fresh_block (g 3) 4096) = None"
    then show "shm_client_key g Shm_F2 ?name ?os2 = None" by (rule none)
  qed
qed

text \<open>A session over an array \<open>buf\<close> that holds \<open>z\<close>: the name stays, with the \<open>z\<close> in front.\<close>

theorem shm_session_witness:
  "\<exists>name os1 os2 os3. let os = snd (shm_server_start \<lparr> obj_names = None, obj_chat = None, sem1 = None \<rparr>);
      g = (\<lambda>_ i. if i = 0 then CHR ''z'' else NUL) in
    shm_client_start g ''Ann'' os = Some (name, os1) \<and> shm_get_name_list os1 = Some (''Ann'' @ [NL]) \<and>
    shm_client_key g (Shm_F1 ''hi'') name os1 = Some os2 \<and> shm_get_chat os2 = Some (''[Ann]: hi'' @ [NL]) \<and>
    shm_client_key g Shm_F2 name os2 = Some os3 \<and> shm_get_name_list os3 = Some (''zAnn'' @ [NL])"
proof -
  let ?os = "snd (shm_server_start \<lparr> obj_names = None, obj_chat = None, sem1 = None \<rparr>)"
  let ?g = "\<lambda>(_ :: nat) i :: nat. if i = 0 then CHR ''z'' else NUL"
  have os: "sem1 ?os \<noteq> None" "obj_names ?os = Some (new_object 1024)" "obj_chat ?os = Some (new_object 4096)"
    by (simp_all add: shm_server_start_def name_list_def chat_def)
  have sz: "0 < st_size (new_object 1024)" "st_size (new_object 1024) \<le> 4096" "length (page (new_object 1024)) = 4096"
      "length (page (new_object 4096)) = 4096" "cstr (page (new_object 1024)) = Some (unlines [])" "cstr (page (new_object 4096)) = Some []"
    by (simp_all add: new_object_def)
  have p: "cstr (fresh_block (?g 3) 4096) = Some ''z'' \<and> NL \<notin> set ''z'' \<and> length ''z'' + length (unlines ([] @ [''Ann''])) < 4096"
    using cstr_fresh [of "''z''" 4096 "?g 3"] by simp
  have n: "nick ''Ann''" "list_all nick []" by (simp_all add: nick_def)
  obtain name os1 os2 where s: "shm_client_start ?g ''Ann'' ?os = Some (name, os1)"
      "shm_get_name_list os1 = Some (unlines ([] @ [''Ann'']))" "shm_client_key ?g (Shm_F1 ''hi'') name os1 = Some os2"
      "shm_get_chat os2 = Some ([] @ ''['' @ ''Ann'' @ '']: '' @ ''hi'' @ [NL])"
      and e: "\<exists>os3. shm_client_key ?g Shm_F2 name os2 = Some os3 \<and> shm_get_name_list os3 = Some (unlines [''z'' @ ''Ann''])"
    using shm_session [OF os(1,2) sz(5) n(2) sz(3,1,2) os(3) sz(6,4) n(1), of "''hi''" ?g] p by auto
  from e obtain os3 where "shm_client_key ?g Shm_F2 name os2 = Some os3" "shm_get_name_list os3 = Some (''zAnn'' @ [NL])" by auto
  with s show ?thesis unfolding Let_def
    by (intro exI [of _ name] exI [of _ os1] exI [of _ os2] exI [of _ os3]) simp
qed

end
