(* ===== verification/BlockDevice.thy ===== *)
theory BlockDevice
  imports CString
begin

text \<open>
  The block device module \<open>block_device/main.c\<close>: a one-page disk that stores written
  segments starting with \<open>hello\<close> and answers reads with \<open>Hi!\<close>.  The kernel is a parameter:
  every allocation or registration has an outcome chosen by \<open>kernel\<close>.  The resources in
  use are recorded, and giving back one that is not in use, or that others still depend
  on, is undefined (\<open>None\<close>).
\<close>

section \<open>Resources\<close>

datatype resource = Dev | Data | Tags | Queue | Disk | Added | Major

record blkdev =
  capacity :: nat
  data :: "buffer option"
  has_tags :: bool
  has_queue :: bool
  has_disk :: bool

record block_module =
  major :: int
  blkdev_device :: "blkdev option"
  write_counter :: "16 word"
  in_use :: "resource set"

text \<open>The outcomes of \<open>kzalloc\<close>, \<open>kmalloc\<close> (the bytes of the block), \<open>blk_mq_alloc_tag_set\<close>
  and \<open>blk_mq_init_queue\<close> (0 or a negative error), \<open>alloc_disk\<close> and \<open>register_blkdev\<close>.\<close>

record kernel =
  kzalloc_ok :: bool
  kmalloc_data :: "(nat \<Rightarrow> char) option"
  tag_set_ret :: int
  queue_ret :: int
  alloc_disk_ok :: bool
  register_ret :: int

definition ENOMEM :: int where "ENOMEM = 12"
definition EBUSY :: int where "EBUSY = 16"

definition acquire :: "resource \<Rightarrow> block_module \<Rightarrow> block_module" where
  "acquire r m = m \<lparr> in_use := insert r (in_use m) \<rparr>"

fun needs :: "resource \<Rightarrow> resource set" where
  "needs Dev = {Data, Tags, Queue, Disk, Added}"
| "needs Tags = {Queue}"
| "needs Disk = {Added}"
| "needs _ = {}"

definition release :: "resource \<Rightarrow> block_module \<Rightarrow> block_module option" where
  "release r m = (if r \<in> in_use m \<and> needs r \<inter> in_use m = {}
                  then Some (m \<lparr> in_use := in_use m - {r} \<rparr>) else None)"

section \<open>Adding and removing the device\<close>

text \<open>\<open>_blkdev_buffer_size\<close> is one page of 4096 bytes, \<open>SECTOR_SHIFT\<close> is 9.\<close>

definition blkdev_allocate_buffer :: "kernel \<Rightarrow> blkdev \<Rightarrow> block_module \<Rightarrow> int \<times> blkdev \<times> block_module" where
  "blkdev_allocate_buffer k dev m =
     (let cap = 4096 div 512; dev = dev \<lparr> capacity := cap \<rparr> in
      case kmalloc_data k of
        None \<Rightarrow> (- ENOMEM, dev \<lparr> data := None \<rparr>, m)
      | Some g \<Rightarrow> (0, dev \<lparr> data := Some (fresh_block g (cap * 512)) \<rparr>, acquire Data m))"

definition blkdev_free_buffer :: "blkdev \<Rightarrow> block_module \<Rightarrow> (blkdev \<times> block_module) option" where
  "blkdev_free_buffer dev m =
     (if data dev \<noteq> None then do { m \<leftarrow> release Data m; Some (dev \<lparr> data := None, capacity := 0 \<rparr>, m) }
      else Some (dev, m))"

definition blkdev_remove_device :: "block_module \<Rightarrow> block_module option" where
  "blkdev_remove_device m =
     (case blkdev_device m of
        None \<Rightarrow> Some m
      | Some dev \<Rightarrow> do {
          m \<leftarrow> (if has_disk dev then release Added m else Some m);
          m \<leftarrow> (if has_queue dev then release Queue m else Some m);
          m \<leftarrow> (if has_tags dev then release Tags m else Some m);
          m \<leftarrow> (if has_disk dev then release Disk m else Some m);
          (dev, m) \<leftarrow> blkdev_free_buffer (dev \<lparr> has_queue := False, has_disk := False \<rparr>) m;
          m \<leftarrow> release Dev m;
          Some (m \<lparr> blkdev_device := None \<rparr>)
        })"

text \<open>The body of \<open>do { ... } while (false)\<close>: the return code and what has been set up when it
  is left.\<close>

definition build_device :: "kernel \<Rightarrow> blkdev \<Rightarrow> block_module \<Rightarrow> int \<times> blkdev \<times> block_module" where
  "build_device k dev m =
     (let (ret, dev, m) = blkdev_allocate_buffer k dev m in
      if ret \<noteq> 0 then (ret, dev, m)
      else if tag_set_ret k \<noteq> 0 then (tag_set_ret k, dev, m)
      else let dev = dev \<lparr> has_tags := True \<rparr>; m = acquire Tags m in
      if queue_ret k \<noteq> 0 then (queue_ret k, dev, m)
      else let dev = dev \<lparr> has_queue := True \<rparr>; m = acquire Queue m in
      if \<not> alloc_disk_ok k then (- ENOMEM, dev, m)
      else (0, dev \<lparr> has_disk := True \<rparr>, acquire Added (acquire Disk m)))"

definition blkdev_add_device :: "kernel \<Rightarrow> block_module \<Rightarrow> (int \<times> block_module) option" where
  "blkdev_add_device k m =
     (if \<not> kzalloc_ok k then Some (- ENOMEM, m)
      else do {
        let dev = \<lparr> capacity = 0, data = None, has_tags = False, has_queue = False, has_disk = False \<rparr>;
        let (ret, dev, m) = build_device k dev (acquire Dev m);
        let m = m \<lparr> blkdev_device := Some dev \<rparr>;
        (if ret \<noteq> 0 then do { m \<leftarrow> blkdev_remove_device m; Some (ret, m) } else Some (ret, m))
      })"

definition blkdev_init :: "kernel \<Rightarrow> block_module \<Rightarrow> (int \<times> block_module) option" where
  "blkdev_init k m =
     (let m = m \<lparr> major := register_ret k \<rparr> in
      if register_ret k \<le> 0 then Some (- EBUSY, m)
      else do {
        (ret, m) \<leftarrow> blkdev_add_device k (acquire Major m);
        (if ret \<noteq> 0 then do { m \<leftarrow> release Major m; Some (ret, m) } else Some (ret, m))
      })"

definition blkdev_exit :: "block_module \<Rightarrow> block_module option" where
  "blkdev_exit m = do {
     m \<leftarrow> blkdev_remove_device m;
     (if major m > 0 then release Major m else Some m)
   }"

text \<open>The module when it is loaded.\<close>

definition block_start :: block_module where
  "block_start = \<lparr> major = 0, blkdev_device = None, write_counter = 0, in_use = {} \<rparr>"

section \<open>Requests\<close>

text \<open>
  A segment is the memory from its first byte to the end of its page, and its length.
  The position of the request is not advanced from one segment to the next.  A position
  behind the device would make the length wrap around.
\<close>

record request =
  is_write :: bool
  sector :: nat
  segments :: "(buffer \<times> nat) list"

definition clip_len :: "nat \<Rightarrow> nat \<Rightarrow> nat \<Rightarrow> nat" where
  "clip_len pos b_len dev_size =
     (if pos + b_len > dev_size then unat (word_of_int (int dev_size - int pos) :: 64 word) else b_len)"

definition do_segment ::
  "bool \<Rightarrow> nat \<Rightarrow> nat \<Rightarrow> buffer \<times> nat \<Rightarrow> buffer \<times> 16 word \<Rightarrow> ((buffer \<times> nat) \<times> buffer \<times> 16 word) option" where
  "do_segment wr pos dev_size = (\<lambda>(b_buf, bv_len) (dat, counter). do {
     hello \<leftarrow> memeq b_buf ''hello'' 5;
     let b_len = clip_len pos bv_len dev_size;
     (if wr then
        (if hello then do { dat \<leftarrow> memcpy dat pos b_buf b_len; Some ((b_buf, bv_len), dat, counter + 1) }
         else Some ((b_buf, bv_len), dat, counter))
      else if counter \<noteq> 0 then do {
        b_buf \<leftarrow> put_bytes b_buf 0 (''Hi!'' @ [NL, NUL]);
        Some ((b_buf, bv_len), dat, counter - 1)
      } else Some ((b_buf, bv_len), dat, counter))
   })"

fun do_segments ::
  "bool \<Rightarrow> nat \<Rightarrow> nat \<Rightarrow> (buffer \<times> nat) list \<Rightarrow> buffer \<times> 16 word \<Rightarrow> ((buffer \<times> nat) list \<times> buffer \<times> 16 word) option" where
  "do_segments wr pos dev_size [] st = Some ([], st)"
| "do_segments wr pos dev_size (sg # sgs) st = do {
     (sg', st) \<leftarrow> do_segment wr pos dev_size sg st;
     (sgs', st) \<leftarrow> do_segments wr pos dev_size sgs st;
     Some (sg' # sgs', st)
   }"

definition do_simple_request :: "request \<Rightarrow> block_module \<Rightarrow> (request \<times> block_module) option" where
  "do_simple_request rq m = do {
     dev \<leftarrow> blkdev_device m;
     dat \<leftarrow> data dev;
     (sgs, dat, counter) \<leftarrow> do_segments (is_write rq) (sector rq * 512) (capacity dev * 512) (segments rq) (dat, write_counter m);
     Some (rq \<lparr> segments := sgs \<rparr>,
           m \<lparr> blkdev_device := Some (dev \<lparr> data := Some dat \<rparr>), write_counter := counter \<rparr>)
   }"

text \<open>\<open>_queue_rq\<close> ends every request with the status \<open>BLK_STS_OK\<close> and reports 0 bytes.\<close>

definition queue_rq :: "request \<Rightarrow> block_module \<Rightarrow> ((nat \<times> request) \<times> block_module) option" where
  "queue_rq rq m = do { (rq', m') \<leftarrow> do_simple_request rq m; Some ((0, rq'), m') }"

section \<open>Resource safety\<close>

lemmas device_defs = blkdev_init_def blkdev_add_device_def build_device_def blkdev_allocate_buffer_def
  blkdev_remove_device_def blkdev_free_buffer_def blkdev_exit_def acquire_def release_def

text \<open>
  C19.  Whatever the kernel refuses, initialisation never gives back a resource twice or too
  early and never leaks one: it fails with a negative code and nothing left in use, or
  returns 0 with the device, its page, tag set, queue, disk and major number in use, and
  then unloading the module gives all of them back.
\<close>

theorem block_resources:
  assumes "tag_set_ret k \<le> 0" "queue_ret k \<le> 0"
  shows "\<exists>ret m. blkdev_init k block_start = Some (ret, m) \<and>
    (ret \<noteq> 0 \<longrightarrow> ret < 0 \<and> in_use m = {} \<and> blkdev_device m = None) \<and>
    (ret = 0 \<longrightarrow> in_use m = {Dev, Data, Tags, Queue, Disk, Added, Major} \<and>
       (\<exists>m'. blkdev_exit m = Some m' \<and> in_use m' = {} \<and> blkdev_device m' = None)) \<and>
    (ret = 0 \<longleftrightarrow> register_ret k > 0 \<and> kzalloc_ok k \<and> kmalloc_data k \<noteq> None \<and> tag_set_ret k = 0 \<and>
       queue_ret k = 0 \<and> alloc_disk_ok k)"
  using assms
  by (cases "kmalloc_data k") (auto simp: device_defs block_start_def ENOMEM_def EBUSY_def Let_def)

lemma block_resources_witness:
  "\<exists>ret m. blkdev_init \<lparr> kzalloc_ok = True, kmalloc_data = Some (\<lambda>_. NUL), tag_set_ret = 0, queue_ret = 0,
       alloc_disk_ok = False, register_ret = 252 \<rparr> block_start = Some (ret, m) \<and>
     ret < 0 \<and> in_use m = {}"
  using block_resources [of "\<lparr> kzalloc_ok = True, kmalloc_data = Some (\<lambda>_. NUL), tag_set_ret = 0, queue_ret = 0,
       alloc_disk_ok = False, register_ret = 252 \<rparr>"] by auto

section \<open>What requests do\<close>

definition hello_segment :: "buffer \<times> nat \<Rightarrow> bool" where
  "hello_segment sg \<longleftrightarrow> take 5 (fst sg) = ''hello''"

definition segment_ok :: "buffer \<times> nat \<Rightarrow> bool" where
  "segment_ok sg \<longleftrightarrow> 5 \<le> length (fst sg) \<and> snd sg \<le> length (fst sg)"

definition overwrite :: "nat \<Rightarrow> buffer \<times> nat \<Rightarrow> buffer \<Rightarrow> buffer" where
  "overwrite pos sg dat = (let n = min (snd sg) (length dat - pos) in
     take pos dat @ take n (fst sg) @ drop (pos + n) dat)"

definition answer_in :: "buffer \<times> nat \<Rightarrow> buffer \<times> nat" where
  "answer_in sg = (''Hi!'' @ [NL, NUL] @ drop 5 (fst sg), snd sg)"

lemma clip_len_min:
  assumes "pos \<le> n" "n < 2 ^ 64"
  shows "clip_len pos l n = min l (n - pos)"
proof -
  have i: "int n - int pos = int (n - pos)" using assms(1) by simp
  have "unat (word_of_int (int (n - pos)) :: 64 word) = (n - pos) mod 2 ^ 64"
    unfolding of_int_of_nat_eq by (simp add: unat_of_nat)
  also have "\<dots> = n - pos" using assms(2) by simp
  finally have "unat (word_of_int (int n - int pos) :: 64 word) = n - pos" by (simp only: i)
  then show ?thesis using assms(1) by (simp add: clip_len_def min_def) linarith
qed

lemma segment_hello: "segment_ok sg \<Longrightarrow> memeq (fst sg) ''hello'' 5 = Some (hello_segment sg)"
  by (simp add: segment_ok_def memeq_def hello_segment_def)

lemma overwrite_length: "pos \<le> length dat \<Longrightarrow> segment_ok sg \<Longrightarrow> length (overwrite pos sg dat) = length dat"
  by (auto simp: overwrite_def segment_ok_def Let_def min_def)

lemma write_segments:
  assumes "\<forall>sg \<in> set sgs. segment_ok sg" "pos \<le> length dat" "length dat < 2 ^ 64"
  shows "do_segments True pos (length dat) sgs (dat, c) =
    Some (sgs, fold (overwrite pos) (filter hello_segment sgs) dat, c + of_nat (length (filter hello_segment sgs)))"
  using assms
proof (induction sgs arbitrary: dat c)
  case (Cons sg sgs)
  obtain b l where sg: "sg = (b, l)" by fastforce
  have ok: "segment_ok sg" and rest: "\<forall>sg \<in> set sgs. segment_ok sg" using Cons.prems(1) by simp_all
  have "do_segment True pos (length dat) sg (dat, c) = Some (sg, if hello_segment sg then (overwrite pos sg dat, c + 1) else (dat, c))"
    using segment_hello [OF ok] clip_len_min [OF Cons.prems(2,3)] ok Cons.prems(2)
    by (auto simp: do_segment_def sg memcpy_def put_bytes_def overwrite_def segment_ok_def Let_def min_def)
  then show ?case
    using Cons.IH [OF rest, of dat c] Cons.IH [OF rest, of "overwrite pos sg dat" "c + 1"]
      overwrite_length [OF Cons.prems(2) ok] Cons.prems(2,3)
    by (simp add: add.assoc)
qed simp

lemma read_segments:
  assumes "\<forall>sg \<in> set sgs. segment_ok sg"
  shows "do_segments False pos dev_size sgs (dat, c) =
    Some (map answer_in (take (unat c) sgs) @ drop (unat c) sgs, dat, c - of_nat (min (unat c) (length sgs)))"
  using assms
proof (induction sgs arbitrary: c)
  case (Cons sg sgs)
  obtain b l where sg: "sg = (b, l)" by fastforce
  have ok: "segment_ok sg" and rest: "\<forall>sg \<in> set sgs. segment_ok sg" using Cons.prems by simp_all
  show ?case
  proof (cases "c = 0")
    case True
    then have "do_segment False pos dev_size sg (dat, c) = Some (sg, dat, c)"
      using segment_hello [OF ok] by (simp add: do_segment_def sg)
    then show ?thesis using Cons.IH [OF rest, of c] True by simp
  next
    case False
    then obtain n where n: "unat c = Suc n" by (metis not0_implies_Suc unat_eq_0)
    have n': "unat (c - 1) = n" using n False by (simp add: unat_minus_one)
    have "do_segment False pos dev_size sg (dat, c) = Some (answer_in sg, dat, c - 1)"
      using segment_hello [OF ok] ok False by (simp add: do_segment_def sg put_bytes_def answer_in_def segment_ok_def
          numeral_eq_Suc)
    then show ?thesis using Cons.IH [OF rest, of "c - 1"] n n' by (simp add: algebra_simps)
  qed
qed simp

text \<open>
  C20.  A request inside the device is served without undefined behaviour.  A write stores
  exactly the segments starting with \<open>hello\<close>, all of them at the position of the request
  (each over the one before), and counts them modulo 65536; a read never returns stored
  data but puts \<open>Hi!\<close> into as many segments as are counted, and counts down.
\<close>

theorem block_requests:
  assumes "blkdev_device m = Some dev" "data dev = Some dat" "length dat = 4096" "capacity dev = 8"
    and "\<forall>sg \<in> set (segments rq). segment_ok sg" "sector rq \<le> 8"
  shows "queue_rq rq m =
    (if is_write rq
     then Some ((0, rq), m \<lparr> blkdev_device := Some (dev \<lparr> data :=
              Some (fold (overwrite (sector rq * 512)) (filter hello_segment (segments rq)) dat) \<rparr>),
            write_counter := write_counter m + of_nat (length (filter hello_segment (segments rq))) \<rparr>)
     else let n = unat (write_counter m) in
       Some ((0, rq \<lparr> segments := map answer_in (take n (segments rq)) @ drop n (segments rq) \<rparr>),
             m \<lparr> write_counter := write_counter m - of_nat (min n (length (segments rq))) \<rparr>))"
proof -
  have dev: "dev \<lparr> data := Some dat \<rparr> = dev" using assms(2) by (cases dev) simp
  have m: "m \<lparr> blkdev_device := Some dev \<rparr> = m" using assms(1) by (cases m) simp
  have rq: "rq \<lparr> segments := segments rq \<rparr> = rq" by simp
  show ?thesis
    using assms write_segments [OF assms(5), of "sector rq * 512" dat "write_counter m"]
      read_segments [OF assms(5), of "sector rq * 512" "length dat" dat "write_counter m"] dev m
    by (auto simp: queue_rq_def do_simple_request_def Let_def)
qed

lemma block_requests_witness:
  "\<exists>rq' m'. queue_rq \<lparr> is_write = False, sector = 0, segments = [(replicate 512 NUL, 512)] \<rparr>
      \<lparr> major = 252, blkdev_device = Some \<lparr> capacity = 8, data = Some (replicate 4096 NUL), has_tags = True,
         has_queue = True, has_disk = True \<rparr>, write_counter = 1, in_use = {} \<rparr> = Some ((0, rq'), m') \<and>
    segments rq' = [(''Hi!'' @ [NL, NUL] @ replicate 507 NUL, 512)] \<and> write_counter m' = 0"
  using block_requests [of "\<lparr> major = 252, blkdev_device = Some \<lparr> capacity = 8, data = Some (replicate 4096 NUL),
      has_tags = True, has_queue = True, has_disk = True \<rparr>, write_counter = 1, in_use = {} \<rparr>"
      "\<lparr> capacity = 8, data = Some (replicate 4096 NUL), has_tags = True, has_queue = True, has_disk = True \<rparr>"
      "replicate 4096 NUL" "\<lparr> is_write = False, sector = 0, segments = [(replicate 512 NUL, 512)] \<rparr>"]
  by (simp add: segment_ok_def answer_in_def)

end
