(* ===== verification/PortFilter.thy ===== *)
theory PortFilter
  imports Stdio
begin

text \<open>
  The netfilter module \<open>block_port_module/block_port_module.c\<close>: packets to one destination
  port are dropped, the port is set through a sysfs attribute.  A packet is what the hook
  reads of it: the protocol of its IP header and the destination port of its transport
  header, both of which the kernel may not provide.  Ports are 16-bit words in network
  byte order, the attribute is a 32-bit \<open>int\<close>.  The kernel calls a hook for the packets of the
  network namespace it was registered in; the module registers its own in the private
  \<open>struct net NET\<close>, to which no device belongs.
\<close>

section \<open>Packets and the hook\<close>

datatype verdict = NF_DROP | NF_ACCEPT

definition IPPROTO_TCP :: "8 word" where "IPPROTO_TCP = 6"
definition IPPROTO_UDP :: "8 word" where "IPPROTO_UDP = 17"

record skb =
  network_header :: "8 word option"
  transport_dest :: "16 word option"

unbundle bit_operations_syntax

text \<open>\<open>ntohs\<close> on a little-endian machine.\<close>

definition ntohs :: "16 word \<Rightarrow> 16 word" where
  "ntohs w = push_bit 8 w OR drop_bit 8 w"

text \<open>\<open>foo\<close> is converted to \<open>unsigned int\<close> by the comparison with \<open>dst_port\<close>.\<close>

definition hook_func :: "32 word \<Rightarrow> skb option \<Rightarrow> verdict" where
  "hook_func foo skb =
     (case skb of
        None \<Rightarrow> NF_ACCEPT
      | Some p \<Rightarrow>
          (case network_header p of
             None \<Rightarrow> NF_ACCEPT
           | Some protocol \<Rightarrow>
               if protocol = IPPROTO_UDP \<and> transport_dest p = None then NF_ACCEPT
               else if protocol = IPPROTO_UDP \<and> ucast (ntohs (the (transport_dest p))) = foo then NF_DROP
               else if protocol = IPPROTO_TCP \<and> transport_dest p = None then NF_ACCEPT
               else if protocol = IPPROTO_TCP \<and> ucast (ntohs (the (transport_dest p))) = foo then NF_DROP
               else NF_ACCEPT))"

section \<open>The attribute\<close>

definition foo_show :: "32 word \<Rightarrow> string" where
  "foo_show foo = show_int (sint foo) @ [NL]"

text \<open>The kernel's \<open>sscanf("%d")\<close>: white space, a minus sign, decimal digits; the value is
  truncated to 32 bits, and \<open>foo\<close> keeps its value when there is no digit.\<close>

definition sscanf_d :: "string \<Rightarrow> 32 word \<Rightarrow> 32 word" where
  "sscanf_d buf old =
     (let t = dropWhile is_space buf;
          neg = (t \<noteq> [] \<and> hd t = CHR ''-'');
          ds = takeWhile is_digit (if neg then tl t else t) in
      if ds = [] then old else word_of_int (if neg then - digits_value ds else digits_value ds))"

definition foo_store :: "string \<Rightarrow> 32 word \<Rightarrow> nat \<times> 32 word" where
  "foo_store buf foo = (length buf, sscanf_d buf foo)"

section \<open>Loading and unloading\<close>

text \<open>The namespaces: the module's variable \<open>NET\<close>, and those the devices are in.\<close>

datatype net = NET | Device_net nat

record filter_module =
  example_kobject :: bool
  hooked :: "net option"
  attribute :: "32 word"

definition filter_init :: "bool \<Rightarrow> filter_module \<Rightarrow> int \<times> filter_module" where
  "filter_init kobject_ok m =
     (if \<not> kobject_ok then (- 12, m) else (0, m \<lparr> example_kobject := True, hooked := Some NET \<rparr>))"

definition filter_cleanup :: "filter_module \<Rightarrow> filter_module" where
  "filter_cleanup m = m \<lparr> hooked := None, example_kobject := False \<rparr>"

text \<open>What reaches the module while it is loaded.\<close>

datatype filter_event = Show | Store string | Packet net "skb option"
datatype filter_reply = Text string | Stored nat | Verdict verdict

fun filter_step :: "filter_module \<Rightarrow> filter_event \<Rightarrow> filter_module \<times> filter_reply" where
  "filter_step m Show = (m, Text (foo_show (attribute m)))"
| "filter_step m (Store buf) =
     (let (n, foo) = foo_store buf (attribute m) in (m \<lparr> attribute := foo \<rparr>, Stored n))"
| "filter_step m (Packet n p) = (m, Verdict (if hooked m = Some n then hook_func (attribute m) p else NF_ACCEPT))"

section \<open>Correctness\<close>

lemma sscanf_shown: "sscanf_d (show_int i @ [NL]) old = word_of_int i"
proof -
  have nd: "\<not> is_digit NL" "\<not> is_space (CHR ''-'')" by (simp_all add: is_digit_def is_space_def)
  let ?n = "show_nat (nat \<bar>i\<bar>)"
  obtain c cs where c: "?n = c # cs" "is_digit c"
    using show_nat_digits [of "nat \<bar>i\<bar>"] by (cases ?n) auto
  note d = digit_not_special [OF c(2)]
  have s: "takeWhile is_digit (?n @ [NL]) = ?n"
    using scan_digits [of ?n "[NL]"] show_nat_digits [of "nat \<bar>i\<bar>"] nd(1) by auto
  have v: "digits_value ?n = \<bar>i\<bar>" by (simp add: digits_value_show)
  show ?thesis
  proof (cases "i < 0")
    case True
    then have t: "dropWhile is_space (show_int i @ [NL]) = CHR ''-'' # ?n @ [NL]" using nd(2) by (simp add: show_int_def)
    have "sscanf_d (show_int i @ [NL]) old = word_of_int (- digits_value ?n)"
      unfolding sscanf_d_def Let_def t using s c(1) by simp
    with v True show ?thesis by simp
  next
    case False
    then have t: "dropWhile is_space (show_int i @ [NL]) = ?n @ [NL]" using c(1) d by (simp add: show_int_def)
    have "hd (?n @ [NL]) \<noteq> CHR ''-''" using c(1) d by simp
    then have "sscanf_d (show_int i @ [NL]) old = word_of_int (digits_value ?n)"
      unfolding sscanf_d_def Let_def t using s c(1) by simp
    with v False show ?thesis by simp
  qed
qed

text \<open>
  What \<open>foo_show\<close> prints, written back through \<open>foo_store\<close>, restores the value of the
  attribute, for all its \<open>2^32\<close> values and whatever the attribute is in between.
\<close>

theorem port_filter_roundtrip: "foo_store (foo_show foo) foo' = (length (foo_show foo), foo)"
  by (simp add: foo_store_def foo_show_def sscanf_shown)

lemma hooked_run: "hooked (fst (run_machine filter_step m es)) = hooked m"
proof (induction es arbitrary: m)
  case (Cons e es)
  have "hooked (fst (filter_step m e)) = hooked m" by (cases e) (simp_all add: split_beta)
  then show ?case using Cons by (simp add: split_beta)
qed simp

text \<open>
  C21.  After the number \<open>n\<close> has been stored, a packet of the namespace the hook is registered
  in is dropped if and only if it has a UDP or TCP header whose destination port in host
  byte order is \<open>n\<close>: a number that is not a port, negative or above 65535, blocks nothing.
  But \<open>init_module\<close> registers the hook in the module's own \<open>NET\<close>: whatever is stored and
  shown, as long as the module is loaded no packet of a namespace with devices is dropped.
\<close>

theorem port_filter_blocks:
  assumes "- (2 ^ 31) \<le> n" "n < 2 ^ 31" "hooked m = Some net"
  shows "(snd (filter_step (fst (filter_step m (Store (show_int n @ [NL])))) (Packet net p)) = Verdict NF_DROP \<longleftrightarrow>
      (\<exists>k w. p = Some k \<and> transport_dest k = Some w \<and>
         (network_header k = Some IPPROTO_UDP \<or> network_header k = Some IPPROTO_TCP) \<and> uint (ntohs w) = n)) \<and>
    hooked (snd (filter_init True m')) = Some NET \<and>
    snd (filter_step (fst (run_machine filter_step (snd (filter_init True m')) es)) (Packet (Device_net d) p)) = Verdict NF_ACCEPT"
proof -
  have eq: "ucast w = (word_of_int n :: 32 word) \<longleftrightarrow> uint w = n" for w :: "16 word"
  proof -
    have w: "0 \<le> uint w" "uint w < 65536" using uint_lt2p [of w] by simp_all
    have n: "- 2147483648 \<le> n" "n < 2147483648" using assms(1,2) by simp_all
    have "ucast w = (word_of_int n :: 32 word) \<longleftrightarrow> uint (ucast w :: 32 word) = uint (word_of_int n :: 32 word)"
      by (rule word_uint_eq_iff)
    also have "\<dots> \<longleftrightarrow> take_bit 32 (uint w) = take_bit 32 n" by (simp add: unsigned_ucast_eq unsigned_of_int)
    also have "\<dots> \<longleftrightarrow> uint w mod 2 ^ 32 = n mod 2 ^ 32" by (simp only: take_bit_eq_mod)
    also have "\<dots> \<longleftrightarrow> uint w mod 4294967296 = n mod 4294967296" by simp
    also have "\<dots> \<longleftrightarrow> uint w = n"
    proof (cases "n < 0")
      case True
      have "n mod 4294967296 = (n + 4294967296) mod 4294967296" by simp
      also have "\<dots> = n + 4294967296" using True n by (intro mod_pos_pos_trivial) simp_all
      finally have m: "n mod 4294967296 = n + 4294967296" .
      have "uint w \<noteq> n" using True w(1) by (metis not_less)
      then show ?thesis unfolding m using w n by simp
    qed (use w n in simp)
    finally show ?thesis .
  qed
  have "snd (filter_step (fst (filter_step m (Store (show_int n @ [NL])))) (Packet net p)) = Verdict NF_DROP \<longleftrightarrow>
      (\<exists>k w. p = Some k \<and> transport_dest k = Some w \<and>
         (network_header k = Some IPPROTO_UDP \<or> network_header k = Some IPPROTO_TCP) \<and> uint (ntohs w) = n)"
    using assms(3) by (auto simp: foo_store_def sscanf_shown hook_func_def eq split: option.splits)
  moreover have "hooked (snd (filter_init True m')) = Some NET" by (simp add: filter_init_def)
  ultimately show ?thesis by (simp add: hooked_run)
qed

lemma port_filter_blocks_witness:
  "snd (filter_step (fst (filter_step \<lparr> example_kobject = True, hooked = Some NET, attribute = 0 \<rparr> (Store (show_int 80 @ [NL]))))
     (Packet NET (Some \<lparr> network_header = Some IPPROTO_TCP, transport_dest = Some 0x5000 \<rparr>))) = Verdict NF_DROP \<and>
   snd (filter_step (fst (run_machine filter_step (snd (filter_init True \<lparr> example_kobject = False, hooked = None, attribute = 0 \<rparr>))
       [Store (show_int 80 @ [NL])]))
     (Packet (Device_net 0) (Some \<lparr> network_header = Some IPPROTO_TCP, transport_dest = Some 0x5000 \<rparr>))) = Verdict NF_ACCEPT"
proof -
  let ?p = "Some \<lparr> network_header = Some IPPROTO_TCP, transport_dest = Some 0x5000 \<rparr>"
  have "uint (ntohs 0x5000) = 80" by (simp add: ntohs_def)
  then show ?thesis
    using port_filter_blocks [of 80 "\<lparr> example_kobject = True, hooked = Some NET, attribute = 0 \<rparr>" NET ?p
        "\<lparr> example_kobject = False, hooked = None, attribute = 0 \<rparr>" "[Store (show_int 80 @ [NL])]" 0] by auto
qed

lemma filter_load_unload:
  "fst (filter_init ok m) = 0 \<longleftrightarrow> ok"
  "hooked (filter_cleanup (snd (filter_init ok m))) = None \<and> \<not> example_kobject (filter_cleanup (snd (filter_init ok m)))"
  by (simp_all add: filter_init_def filter_cleanup_def)

end
