(* ===== verification/RwModule.thy ===== *)
theory RwModule
  imports Stdio
begin

text \<open>
  The character device \<open>ioctl/RW_module.c\<close> and its client \<open>ioctl/hello.c\<close>.  The state is
  the message buffer of 80 bytes and the global pointer \<open>msg_ptr\<close>, which points into the
  buffer, into the answer \<open>Hi!\<close>, or is null.  Reads through a null pointer are undefined
  (\<open>None\<close>).  The file position is part of a call, as in the kernel's interface.
\<close>

section \<open>State and helpers of the kernel\<close>

text \<open>\<open>refs\<close> counts \<open>try_module_get\<close> without \<open>module_put\<close>; \<open>registered\<close> is the major number.\<close>

datatype msg_ptr = Null | Msg nat | Answer nat

record rw_dev =
  msg_buff :: buffer
  ptr :: msg_ptr
  refs :: nat
  registered :: "int option"

definition answer :: buffer where "answer = ''Hi!'' @ [NUL]"

definition EINVAL :: int where "EINVAL = 22"
definition EFAULT :: int where "EFAULT = 14"

definition rw_start :: rw_dev where
  "rw_start = \<lparr> msg_buff = replicate 80 NUL, ptr = Null, refs = 0, registered = None \<rparr>"

text \<open>\<open>simple_read_from_buffer\<close> and \<open>simple_write_to_buffer\<close>: the bytes transferred, the new
  contents and the new position.\<close>

definition simple_read :: "nat \<Rightarrow> nat \<Rightarrow> buffer \<Rightarrow> string \<times> nat" where
  "simple_read count pos from = (let xs = take count (drop pos from) in (xs, pos + length xs))"

definition simple_write :: "buffer \<Rightarrow> nat \<Rightarrow> string \<Rightarrow> nat \<times> buffer \<times> nat" where
  "simple_write to pos xs =
     (let n = min (length xs) (length to - pos) in
      if length to \<le> pos \<or> xs = [] then (0, to, pos)
      else (n, take pos to @ take n xs @ drop (pos + n) to, pos + n))"

section \<open>The device\<close>

definition my_open :: "rw_dev \<Rightarrow> rw_dev" where
  "my_open d = d \<lparr> ptr := Msg 0, refs := Suc (refs d) \<rparr>"

definition my_release :: "rw_dev \<Rightarrow> rw_dev" where
  "my_release d = d \<lparr> refs := refs d - 1 \<rparr>"

text \<open>Loading: \<open>register_chrdev\<close> yields the major number or a negative error.\<close>

definition rw_init :: "int \<Rightarrow> rw_dev \<Rightarrow> int \<times> rw_dev" where
  "rw_init major d = (if major < 0 then (major, d) else (0, d \<lparr> registered := Some major \<rparr>))"

definition rw_cleanup :: "rw_dev \<Rightarrow> rw_dev" where
  "rw_cleanup d = d \<lparr> registered := None \<rparr>"

definition my_read :: "nat \<Rightarrow> nat \<Rightarrow> rw_dev \<Rightarrow> string \<times> nat" where
  "my_read len off d = simple_read len off (msg_buff d)"

definition my_write :: "string \<Rightarrow> nat \<Rightarrow> rw_dev \<Rightarrow> int \<times> nat \<times> rw_dev" where
  "my_write xs off d =
     (let d = d \<lparr> msg_buff := replicate 80 NUL \<rparr> in
      if length xs > 80 then (- EINVAL, off, d)
      else let (ret, b, off') = simple_write (msg_buff d) off xs in
        (if ret = 0 then (- EFAULT, off', d \<lparr> msg_buff := b \<rparr>) else (int ret, off', d \<lparr> msg_buff := b \<rparr>)))"

definition deref :: "rw_dev \<Rightarrow> msg_ptr \<Rightarrow> char option" where
  "deref d p = (case p of Null \<Rightarrow> None | Msg i \<Rightarrow> buf_get (msg_buff d) i | Answer i \<Rightarrow> buf_get answer i)"

fun next_ptr :: "msg_ptr \<Rightarrow> msg_ptr" where
  "next_ptr Null = Null"
| "next_ptr (Msg i) = Msg (Suc i)"
| "next_ptr (Answer i) = Answer (Suc i)"

text \<open>The loop \<open>while (length && *msg_ptr)\<close>.\<close>

fun read_loop :: "rw_dev \<Rightarrow> nat \<Rightarrow> msg_ptr \<Rightarrow> string option" where
  "read_loop d 0 p = Some []"
| "read_loop d (Suc n) p = do {
     c \<leftarrow> deref d p;
     (if c = NUL then Some [] else do { cs \<leftarrow> read_loop d n (next_ptr p); Some (c # cs) })
   }"

text \<open>\<open>device_read\<close>: the bytes put to the user; their number is the return value.\<close>

definition device_read :: "nat \<Rightarrow> rw_dev \<Rightarrow> (string \<times> rw_dev) option" where
  "device_read n d = do {
     c \<leftarrow> deref d (ptr d);
     (if c = NUL then Some ([], d)
      else do { cs \<leftarrow> read_loop d n (ptr d); Some (cs, d \<lparr> ptr := Null \<rparr>) })
   }"

datatype ioctl_num = IOCTL_SET_MSG | IOCTL_GET_MSG | OtherIoctl

text \<open>The parameter is the user's buffer, which \<open>IOCTL_GET_MSG\<close> writes to.\<close>

definition my_ioctl :: "ioctl_num \<Rightarrow> buffer \<Rightarrow> rw_dev \<Rightarrow> (buffer \<times> rw_dev) option" where
  "my_ioctl num param d =
     (case num of
        IOCTL_SET_MSG \<Rightarrow> do {
          eq \<leftarrow> memeq param ''hello'' 5;
          Some (param, if eq then d \<lparr> ptr := Answer 0 \<rparr> else d)
        }
      | IOCTL_GET_MSG \<Rightarrow> do {
          (cs, d) \<leftarrow> device_read 4 d;
          param \<leftarrow> put_bytes param 0 cs;
          Some (param, d)
        }
      | OtherIoctl \<Rightarrow> Some (param, d))"

section \<open>The client\<close>

text \<open>\<open>main\<close>: the word read and the string printed, and the device after \<open>close\<close>; both arrays
  are uninitialised.\<close>

definition rw_client :: "(nat \<Rightarrow> nat \<Rightarrow> char) \<Rightarrow> string \<Rightarrow> rw_dev \<Rightarrow> (string \<times> rw_dev) option" where
  "rw_client g inp d = do {
     let d = my_open d;
     (buf, rest) \<leftarrow> scanf_s (fresh_block (g 0) 100) inp;
     (buf, d) \<leftarrow> my_ioctl IOCTL_SET_MSG buf d;
     (ans, d) \<leftarrow> my_ioctl IOCTL_GET_MSG (fresh_block (g 1) 4) d;
     s \<leftarrow> cstr ans;
     Some (s, my_release d)
   }"

section \<open>Correctness\<close>

lemma rw_life_cycle:
  "0 \<le> major \<Longrightarrow> rw_init major d = (0, d') \<Longrightarrow> registered d' = Some major \<and>
     registered (rw_cleanup d') = None \<and> refs (my_release (my_open d')) = refs d'"
  "major < 0 \<Longrightarrow> rw_init major d = (major, d)"
  by (auto simp: rw_init_def rw_cleanup_def my_open_def my_release_def)

lemma device_read_null: "ptr d = Null \<Longrightarrow> device_read n d = None"
  by (simp add: device_read_def deref_def)

lemma device_read_answer: "ptr d = Answer 0 \<Longrightarrow> device_read 4 d = Some (''Hi!'', d \<lparr> ptr := Null \<rparr>)"
  by (simp add: device_read_def deref_def answer_def buf_get_def numeral_eq_Suc)

text \<open>
  A client that sends a word starting with \<open>hello\<close> gets \<open>Hi!\<close> without a terminating
  zero: it prints \<open>Hi!\<close> when the fourth byte of its array happens to be zero, and reads
  outside the array otherwise.  The device is left with a null pointer, so that a second
  request for the answer through the same open file dereferences it.
\<close>

theorem rw_client_hello:
  assumes "scan_word inp = (''hello'' @ w, rest)" "length w \<le> 94" "NUL \<notin> set w"
  shows "(g 1 3 = NUL \<longrightarrow> (\<exists>d'. rw_client g inp d = Some (''Hi!'', d') \<and> ptr d' = Null \<and>
      msg_buff d' = msg_buff d \<and> my_ioctl IOCTL_GET_MSG b d' = None)) \<and>
    (g 1 3 \<noteq> NUL \<longrightarrow> rw_client g inp d = None)"
proof -
  let ?w = "''hello'' @ w" and ?d = "my_open d"
  let ?buf = "?w @ NUL # drop (Suc (length ?w)) (fresh_block (g 0) 100)"
  have s: "scanf_s (fresh_block (g 0) 100) inp = Some (?buf, rest)"
    using scanf_s_scan [OF assms(1)] assms(2) by simp
  have set: "my_ioctl IOCTL_SET_MSG ?buf ?d = Some (?buf, ?d \<lparr> ptr := Answer 0 \<rparr>)"
    by (simp add: my_ioctl_def memeq_def)
  have f: "fresh_block (g 1) 4 = [g 1 0, g 1 1, g 1 2, g 1 3]" by (simp add: fresh_block_def numeral_eq_Suc upt_rec)
  have get: "my_ioctl IOCTL_GET_MSG (fresh_block (g 1) 4) (?d \<lparr> ptr := Answer 0 \<rparr>) =
      Some (''Hi!'' @ [g 1 3], ?d \<lparr> ptr := Null \<rparr>)"
    unfolding f using device_read_answer [of "?d \<lparr> ptr := Answer 0 \<rparr>"] by (simp add: my_ioctl_def put_bytes_def)
  have c: "rw_client g inp d = map_option (\<lambda>s. (s, my_release (?d \<lparr> ptr := Null \<rparr>))) (cstr (''Hi!'' @ [g 1 3]))"
    using s set get by (cases "cstr (''Hi!'' @ [g 1 3])") (simp_all add: rw_client_def Let_def)
  show ?thesis
    using c device_read_null [of "my_release (?d \<lparr> ptr := Null \<rparr>)" 4]
    by (auto simp: cstr_Cons my_ioctl_def my_open_def my_release_def)
qed

lemma rw_client_hello_witness:
  "\<exists>d'. rw_client (\<lambda>_ _. NUL) ''hello! '' rw_start = Some (''Hi!'', d') \<and> my_ioctl IOCTL_GET_MSG [] d' = None"
proof -
  have "scan_word ''hello! '' = (''hello'' @ ''!'', '' '')" by code_simp
  from rw_client_hello [OF this, of "\<lambda>_ _. NUL" rw_start "[]"] show ?thesis by auto
qed

text \<open>
  C22.  Data written at the start of the device is read back, padded with zero bytes to the
  80 bytes of the buffer; a write that is refused, because it is too long or empty or
  behind the buffer, has already erased what was stored.
\<close>

theorem rw_write_read:
  "(0 < length xs \<and> length xs \<le> 80 \<longrightarrow>
      (\<exists>d'. my_write xs 0 d = (int (length xs), length xs, d') \<and>
        my_read 80 0 d' = (xs @ replicate (80 - length xs) NUL, 80) \<and>
        my_read (length xs) 0 d' = (xs, length xs) \<and> ptr d' = ptr d)) \<and>
   (80 < length xs \<or> xs = [] \<or> 80 \<le> off \<longrightarrow>
      (\<exists>e d'. my_write xs off d = (e, off, d') \<and> e < 0 \<and> my_read 80 0 d' = (replicate 80 NUL, 80)))"
proof (intro conjI impI)
  assume n: "0 < length xs \<and> length xs \<le> 80"
  let ?d = "d \<lparr> msg_buff := xs @ replicate (80 - length xs) NUL \<rparr>"
  have "my_write xs 0 d = (int (length xs), length xs, ?d)"
    using n by (auto simp: my_write_def simple_write_def Let_def)
  then show "\<exists>d'. my_write xs 0 d = (int (length xs), length xs, d') \<and>
        my_read 80 0 d' = (xs @ replicate (80 - length xs) NUL, 80) \<and>
        my_read (length xs) 0 d' = (xs, length xs) \<and> ptr d' = ptr d"
    using n by (intro exI [of _ ?d]) (simp add: my_read_def simple_read_def Let_def)
next
  assume n: "80 < length xs \<or> xs = [] \<or> 80 \<le> off"
  let ?d = "d \<lparr> msg_buff := replicate 80 NUL \<rparr>"
  have "my_write xs off d = (- EINVAL, off, ?d) \<or> my_write xs off d = (- EFAULT, off, ?d)"
    using n by (auto simp: my_write_def simple_write_def Let_def)
  moreover have "my_read 80 0 ?d = (replicate 80 NUL, 80)" by (simp add: my_read_def simple_read_def Let_def)
  moreover have "- EINVAL < 0" "- EFAULT < 0" by (simp_all add: EINVAL_def EFAULT_def)
  ultimately show "\<exists>e d'. my_write xs off d = (e, off, d') \<and> e < 0 \<and> my_read 80 0 d' = (replicate 80 NUL, 80)"
    by metis
qed

lemma rw_write_read_witness:
  "\<exists>d'. my_write ''abc'' 0 rw_start = (3, 3, d') \<and> my_read 3 0 d' = (''abc'', 3)"
  using rw_write_read [of "''abc''" rw_start 0] by (auto simp: numeral_3_eq_3)

end
