(* ===== verification/SysProc.thy ===== *)
theory SysProc
  imports Stdio
begin

text \<open>
  The two small file modules \<open>proc/hello.c\<close> and \<open>sys/hello.c\<close>: a file that answers
  \<open>Hi!\<close> once \<open>hello\<close> has been written to it.  The sysfs attribute is a machine that keeps
  its six-byte array terminated (locale \<open>machine\<close>); the procfs file confuses the length of
  what was written with the length of its answer.
\<close>

section \<open>The procfs file\<close>

text \<open>The global variables, whether the entry exists, and the number of blocks from \<open>kmalloc\<close>
  not yet freed; the local \<open>len\<close> of \<open>write_proc\<close> hides the global one, which stays 0.  The answer is an object of five bytes.\<close>

record proc_file =
  len :: nat
  temp :: nat
  msg :: "buffer option"
  entry :: bool
  allocated :: nat

definition proc_start :: proc_file where
  "proc_start = \<lparr> len = 0, temp = 0, msg = None, entry = False, allocated = 0 \<rparr>"

definition proc_init :: "proc_file \<Rightarrow> int \<times> proc_file" where
  "proc_init f = (0, f \<lparr> entry := True \<rparr>)"

definition answer :: buffer where "answer = ''Hi!'' @ [NL, NUL]"

definition read_proc :: "nat \<Rightarrow> proc_file \<Rightarrow> (string \<times> proc_file) option" where
  "read_proc count f = do {
     let count = (if count > temp f then temp f else count);
     let f = f \<lparr> temp := temp f - count \<rparr>;
     copied \<leftarrow> (if count \<le> length answer then Some (take count answer) else None);
     Some (copied, if count = 0 then f \<lparr> temp := len f \<rparr> else f)
   }"

text \<open>\<open>copied\<close> is what \<open>copy_from_user\<close> puts into the block; \<open>kmalloc\<close> yields a block with the
  contents \<open>g\<close> or a null pointer, which is not tested.\<close>

definition write_proc :: "(nat \<Rightarrow> char) option \<Rightarrow> string \<Rightarrow> buffer \<Rightarrow> nat \<Rightarrow> proc_file \<Rightarrow> (nat \<times> proc_file) option" where
  "write_proc kmalloc copied buf count f = do {
     eq \<leftarrow> memeq buf (''hello'' @ [NL]) 6;
     (if eq then do {
        n \<leftarrow> strlen buf;
        g \<leftarrow> kmalloc;
        m \<leftarrow> put_bytes (fresh_block g (n + 1)) 0 (take count copied);
        Some (count, f \<lparr> msg := Some m, temp := count, allocated := Suc (allocated f) \<rparr>)
      } else Some (count, f))
   }"

text \<open>
  After \<open>hello\<close> and a newline have been written, with \<open>count\<close> bytes in all, the answer
  is as long as what was written: since that is at least six bytes, a read with a buffer of
  that size copies memory behind the five bytes of the answer to the user.  Only a read of
  at most five bytes stays inside.
\<close>

theorem proc_read_beyond_answer:
  assumes "cstr buf = Some (''hello'' @ [NL] @ w)" "6 \<le> count" "count \<le> length w + 7" "length copied = count"
  shows "\<exists>f'. write_proc (Some g) copied buf count f = Some (count, f') \<and>
    (\<forall>n. 6 \<le> n \<longrightarrow> read_proc n f' = None) \<and>
    (\<forall>n. 0 < n \<and> n \<le> 5 \<longrightarrow> read_proc n f' = Some (take n answer, f' \<lparr> temp := count - n \<rparr>))"
proof -
  let ?m = "copied @ drop count (fresh_block g (7 + length w))"
  let ?f = "f \<lparr> msg := Some ?m, temp := count, allocated := Suc (allocated f) \<rparr>"
  obtain r where b: "buf = (''hello'' @ [NL] @ w) @ NUL # r" using cstr_SomeE [OF assms(1)] by blast
  have "memeq buf (''hello'' @ [NL]) 6 = Some True" by (simp add: b memeq_def)
  moreover have "strlen buf = Some (length w + 6)" using strlen_Some [OF assms(1)] by simp
  moreover have "put_bytes (fresh_block g (length w + 6 + 1)) 0 (take count copied) = Some ?m"
    using assms(3,4) by (simp add: put_bytes_def)
  ultimately have "write_proc (Some g) copied buf count f = Some (count, ?f)" by (simp add: write_proc_def)
  moreover have "\<forall>n. 6 \<le> n \<longrightarrow> read_proc n ?f = None"
    using assms(2) by (simp add: read_proc_def answer_def Let_def)
  moreover have "\<forall>n. 0 < n \<and> n \<le> 5 \<longrightarrow> read_proc n ?f = Some (take n answer, ?f \<lparr> temp := count - n \<rparr>)"
    using assms(2) by (simp add: read_proc_def answer_def Let_def)
  ultimately show ?thesis by blast
qed

lemma proc_read_beyond_answer_witness:
  "\<exists>f'. write_proc (Some (\<lambda>_. NUL)) (replicate 6 NUL) (''hello'' @ [NL, NUL]) 6 proc_start = Some (6, f') \<and>
    read_proc 131072 f' = None"
proof -
  have "cstr (''hello'' @ [NL, NUL]) = Some (''hello'' @ [NL] @ [])" by (simp add: cstr_Cons)
  from proc_read_beyond_answer [OF this, of 6 "replicate 6 NUL" "\<lambda>_. NUL" proc_start] show ?thesis by auto
qed

text \<open>\<open>proc_exit\<close> frees the last block only: every earlier greeting leaks one.\<close>

definition proc_exit :: "proc_file \<Rightarrow> proc_file" where
  "proc_exit f = f \<lparr> entry := False, allocated := allocated f - (if msg f = None then 0 else 1) \<rparr>"

definition greet :: "buffer \<times> nat \<Rightarrow> proc_file \<Rightarrow> proc_file option" where
  "greet = (\<lambda>(buf, count) f. map_option snd (write_proc (Some (\<lambda>_. NUL)) [] buf count f))"

definition greeting :: "buffer \<Rightarrow> bool" where
  "greeting buf \<longleftrightarrow> (\<exists>w. cstr buf = Some (''hello'' @ [NL] @ w))"

lemma greet_allocates:
  assumes "greeting buf"
  shows "\<exists>f'. greet (buf, count) f = Some f' \<and> msg f' \<noteq> None \<and> allocated f' = Suc (allocated f)"
proof -
  obtain w r where b: "buf = (''hello'' @ [NL] @ w) @ NUL # r" and c: "cstr buf = Some (''hello'' @ [NL] @ w)"
    using assms cstr_SomeE unfolding greeting_def by metis
  have "memeq buf (''hello'' @ [NL]) 6 = Some True" by (simp add: b memeq_def)
  then show ?thesis using strlen_Some [OF c] by (simp add: greet_def write_proc_def put_bytes_def)
qed

lemma proc_leaks:
  assumes "\<forall>(buf, count) \<in> set ws. greeting buf" "ws \<noteq> []"
  shows "\<exists>f. fold_opt greet ws (snd (proc_init proc_start)) = Some f \<and> allocated (proc_exit f) = length ws - 1"
proof -
  have "\<exists>f'. fold_opt greet ws f = Some f' \<and> allocated f' = allocated f + length ws \<and> (ws \<noteq> [] \<longrightarrow> msg f' \<noteq> None)" for f
    using assms(1)
  proof (induction ws arbitrary: f)
    case (Cons a ws)
    obtain buf count where a: "a = (buf, count)" by fastforce
    obtain f' where f': "greet a f = Some f'" "msg f' \<noteq> None" "allocated f' = Suc (allocated f)"
      using greet_allocates [of buf count f] Cons.prems a by auto
    show ?case using f' Cons.IH [of f'] Cons.prems by (cases ws) auto
  qed simp
  from this [of "snd (proc_init proc_start)"] assms(2) show ?thesis
    by (auto simp: proc_init_def proc_start_def proc_exit_def)
qed

section \<open>The sysfs attribute\<close>

definition sys_show :: "buffer \<Rightarrow> (string \<times> buffer) option" where
  "sys_show foo = do {
     n \<leftarrow> strlen foo;
     (if n \<noteq> 0 then do { foo \<leftarrow> memset foo NUL 6; Some (''Hi!'' @ [NL], foo) } else Some ([], foo))
   }"

text \<open>\<open>foo_store\<close>; sysfs terminates the page that holds the written bytes.\<close>

definition sys_store :: "buffer \<Rightarrow> nat \<Rightarrow> buffer \<Rightarrow> (nat \<times> buffer) option" where
  "sys_store buf count foo = do {
     eq \<leftarrow> memeq buf (''hello'' @ [NL]) 6;
     (if eq then do { s \<leftarrow> cstr buf; (foo, rest) \<leftarrow> scanf_s foo s; Some (count, foo) } else Some (count, foo))
   }"

datatype sys_event = SysShow | SysStore string
datatype sys_reply = Shown string | Stored nat | Oops

text \<open>The page of 4096 bytes sysfs passes to the module: what was written, at most 4095 bytes
  of it, then zeros.  Only what is passed counts as stored.\<close>

definition sys_page :: "string \<Rightarrow> buffer" where
  "sys_page xs = take 4095 xs @ replicate (4096 - length (take 4095 xs)) NUL"

definition sys_step :: "buffer \<Rightarrow> sys_event \<Rightarrow> buffer \<times> sys_reply" where
  "sys_step foo e = (case e of
     SysShow \<Rightarrow> (case sys_show foo of None \<Rightarrow> (foo, Oops) | Some (s, foo') \<Rightarrow> (foo', Shown s))
   | SysStore xs \<Rightarrow> (case sys_store (sys_page xs) (min (length xs) 4095) foo of
       None \<Rightarrow> (foo, Oops) | Some (n, foo') \<Rightarrow> (foo', Stored n)))"

text \<open>Loading and unloading: the return code, and whether the object is held.  An error of
  \<open>sysfs_create_file\<close> keeps it, though the module is then not loaded.\<close>

definition sys_init :: "bool \<Rightarrow> int \<Rightarrow> int \<times> bool" where
  "sys_init kobject_ok create_ret = (if \<not> kobject_ok then (- 12, False) else (create_ret, True))"

definition sys_exit :: "bool \<Rightarrow> bool" where
  "sys_exit example_kobject = False"

lemma sys_init_leaks: "sys_init True e = (e, True) \<and> sys_init False e = (- 12, False) \<and> \<not> sys_exit held"
  by (simp add: sys_init_def sys_exit_def)

text \<open>The contract: the array holds nothing or \<open>hello\<close>, exactly filling its six bytes.\<close>

definition sys_inv :: "buffer \<Rightarrow> bool" where
  "sys_inv foo \<longleftrightarrow> foo = replicate 6 NUL \<or> foo = ''hello'' @ [NUL]"

definition is_hello :: "sys_event \<Rightarrow> bool" where
  "is_hello e \<longleftrightarrow> (\<exists>xs. e = SysStore xs \<and> take 6 xs = ''hello'' @ [NL])"

definition sys_good :: "sys_reply \<Rightarrow> bool" where
  "sys_good r \<longleftrightarrow> r = Shown [] \<or> r = Shown (''Hi!'' @ [NL]) \<or> (\<exists>n. r = Stored n)"

lemma sys_show_run:
  "sys_inv foo \<Longrightarrow> sys_step foo SysShow =
    (replicate 6 NUL, Shown (if foo = replicate 6 NUL then [] else ''Hi!'' @ [NL]))"
  by (auto simp: sys_inv_def sys_step_def sys_show_def strlen_def memset_def put_bytes_def cstr_Cons numeral_eq_Suc)

lemma sys_page_hello:
  "take 6 (sys_page xs) = ''hello'' @ [NL] \<longleftrightarrow> take 6 xs = ''hello'' @ [NL]"
proof (cases "6 \<le> length xs")
  case True
  then show ?thesis by (simp add: sys_page_def)
next
  case False
  then have "take 6 (sys_page xs) ! 5 = NUL" by (simp add: sys_page_def nth_append)
  moreover have "(''hello'' @ [NL]) ! 5 = NL" by simp
  moreover have "NUL \<noteq> NL" by simp
  ultimately have "take 6 (sys_page xs) \<noteq> ''hello'' @ [NL]" by metis
  moreover have "take 6 xs \<noteq> ''hello'' @ [NL]" using False by (auto dest: arg_cong [of _ _ length])
  ultimately show ?thesis by simp
qed

lemma sys_page_cstr:
  assumes "take 6 xs = ''hello'' @ [NL]"
  shows "\<exists>s. cstr (sys_page xs) = Some (''hello'' @ NL # s)"
proof -
  let ?ys = "drop 6 xs"
  have "xs = (''hello'' @ [NL]) @ ?ys" using assms by (metis append_take_drop_id)
  then obtain ys where xs: "xs = ''hello'' @ NL # ys" by simp
  let ?r = "take 4089 ys @ replicate (4096 - length (take 4095 xs)) NUL"
  have p: "sys_page xs = ''hello'' @ NL # ?r" by (simp add: sys_page_def xs)
  have "NUL \<in> set ?r" by simp
  then obtain s where "cstr ?r = Some s" by (auto simp: cstr_def)
  then show ?thesis unfolding p by (simp add: cstr_Cons)
qed

lemma sys_store_run:
  assumes "sys_inv foo"
  shows "sys_step foo (SysStore xs) =
    ((if take 6 xs = ''hello'' @ [NL] then ''hello'' @ [NUL] else foo), Stored (min (length xs) 4095))"
proof (cases "take 6 xs = ''hello'' @ [NL]")
  case True
  obtain s where s: "cstr (sys_page xs) = Some (''hello'' @ NL # s)" using sys_page_cstr [OF True] by blast
  have "scan_word (''hello'' @ NL # s) = (''hello'', NL # s)" by (rule scan_word_word) (simp_all add: is_space_def)
  then have "scanf_s foo (''hello'' @ NL # s) = Some (''hello'' @ [NUL], NL # s)"
    using assms scanf_s_scan [of "''hello'' @ NL # s" "''hello''" "NL # s" foo] by (auto simp: sys_inv_def)
  moreover have "memeq (sys_page xs) (''hello'' @ [NL]) 6 = Some True"
    using True sys_page_hello [of xs] by (simp add: memeq_def sys_page_def)
  ultimately show ?thesis using True s by (simp add: sys_step_def sys_store_def)
next
  case False
  then have "memeq (sys_page xs) (''hello'' @ [NL]) 6 = Some False"
    using sys_page_hello [of xs] by (simp add: memeq_def sys_page_def)
  then show ?thesis using False by (simp add: sys_step_def sys_store_def)
qed

interpretation sysfs: machine sys_step sys_inv sys_good
proof
  fix foo e assume inv: "sys_inv foo"
  show "sys_inv (fst (sys_step foo e))"
    using inv sys_show_run [OF inv] sys_store_run [OF inv] by (cases e) (auto simp: sys_inv_def)
  show "sys_good (snd (sys_step foo e))"
    using sys_show_run [OF inv] sys_store_run [OF inv] by (cases e) (auto simp: sys_good_def)
qed

text \<open>The abstract attribute: one flag, set by \<open>hello\<close>, cleared by the next read.\<close>

fun sys_spec :: "bool \<Rightarrow> sys_event list \<Rightarrow> sys_reply list" where
  "sys_spec pending [] = []"
| "sys_spec pending (SysShow # es) = Shown (if pending then ''Hi!'' @ [NL] else []) # sys_spec False es"
| "sys_spec pending (SysStore xs # es) =
     Stored (min (length xs) 4095) # sys_spec (pending \<or> take 6 xs = ''hello'' @ [NL]) es"

lemma sys_refines:
  "sys_inv foo \<Longrightarrow> snd (run_machine sys_step foo es) = sys_spec (foo \<noteq> replicate 6 NUL) es"
proof (induction es arbitrary: foo)
  case (Cons e es)
  have inv: "sys_inv (fst (sys_step foo e))" by (rule sysfs.step_inv [OF Cons.prems])
  have z: "''hello'' @ [NUL] \<noteq> replicate 6 NUL" by (simp add: numeral_eq_Suc)
  show ?case
  proof (cases e)
    case SysShow
    then show ?thesis using Cons.IH [OF inv] sys_show_run [OF Cons.prems]
      by (simp add: split_beta)
  next
    case (SysStore xs)
    then show ?thesis using Cons.IH [OF inv] sys_store_run [OF Cons.prems] z
      by (simp add: split_beta)
  qed
qed simp

text \<open>
  C26.  For every sequence of reads and writes of the attribute, of any content and length,
  the module never leaves its array, which stays empty or exactly filled by \<open>hello\<close>, and
  its replies are those of one flag: a read answers \<open>Hi!\<close> if and only if a write starting
  with \<open>hello\<close> and a newline came after the last read; a write stores what fits a page.
\<close>

theorem sys_refines_flag:
  "let (foo, replies) = run_machine sys_step (replicate 6 NUL) es in
     sys_inv foo \<and> list_all sys_good replies \<and> replies = sys_spec False es"
proof -
  have i: "sys_inv (replicate 6 NUL)" by (simp add: sys_inv_def)
  show ?thesis
    using sysfs.run_inv [OF i, of es] sysfs.run_good [OF i, of es] sys_refines [OF i, of es]
    by (simp add: split_beta list_all_iff)
qed

end
