(* ===== verification/Sockets.thy ===== *)
theory Sockets
  imports CString
begin

text \<open>
  What the servers share: \<open>recv\<close> into a buffer, the loop that puts its first bytes into
  capitals, the endless loop over the requests, and the contract \<open>responder\<close> between a server
  that answers in capitals and its clients.
\<close>

section \<open>Socket calls\<close>

text \<open>\<open>recv(fd, buf, n)\<close>: the number of bytes and the buffer.\<close>

definition recv_into :: "buffer \<Rightarrow> nat \<Rightarrow> string \<Rightarrow> (nat \<times> buffer) option" where
  "recv_into buf n xs = do { buf \<leftarrow> put_bytes buf 0 (take n xs); Some (length (take n xs), buf) }"

text \<open>The loop \<open>for (i = 0; i < n; i++) buf[i] = toupper(buf[i]);\<close>\<close>

definition capitals :: "nat \<Rightarrow> buffer \<Rightarrow> buffer option" where
  "capitals n buf = fold_opt (\<lambda>i b. do { c \<leftarrow> buf_get b i; buf_set b i (toupper c) }) [0..<n] buf"

text \<open>The endless loop of a server over the requests that arrive.\<close>

fun serve_all :: "('s \<Rightarrow> string \<Rightarrow> ('r \<times> 's) option) \<Rightarrow> 's \<Rightarrow> string list \<Rightarrow> 'r list option" where
  "serve_all serve s [] = Some []"
| "serve_all serve s (q # qs) = do { (r, s) \<leftarrow> serve s q; rs \<leftarrow> serve_all serve s qs; Some (r # rs) }"

section \<open>The contract of the servers\<close>

lemma toupper_eq_NUL [simp]: "toupper c = NUL \<longleftrightarrow> c = NUL"
proof (cases "97 \<le> byte_of c \<and> byte_of c \<le> 122")
  case True
  then have "byte_of c - 32 < 256" "0 < byte_of c - 32" by auto
  then have "byte_of (char_of (byte_of c - 32) :: char) \<noteq> 0" by simp
  then have "char_of (byte_of c - 32) \<noteq> NUL" by (metis byte_of_eq_0)
  moreover have "c \<noteq> NUL" using True by auto
  ultimately show ?thesis using True by (simp add: toupper_def)
qed (auto simp: toupper_def)

lemma cstr_toupper: "cstr (map toupper b) = map_option (map toupper) (cstr b)"
proof (induction b)
  case (Cons c b)
  then show ?case by (cases "cstr b") (simp_all add: cstr_Cons)
qed simp

lemma recv_into_Some:
  "n \<le> length buf \<Longrightarrow> recv_into buf n xs = Some (length (take n xs), take n xs @ drop (length (take n xs)) buf)"
  by (simp add: recv_into_def put_bytes_def)

lemma capitals_Some: "n \<le> length buf \<Longrightarrow> capitals n buf = Some (map toupper (take n buf) @ drop n buf)"
proof (induction n)
  case (Suc n)
  then have "capitals n buf = Some (map toupper (take n buf) @ drop n buf)" by simp
  moreover have "drop n buf = buf ! n # drop (Suc n) buf" using Suc.prems by (simp add: Cons_nth_drop_Suc)
  moreover have "take (Suc n) buf = take n buf @ [buf ! n]" using Suc.prems by (simp add: take_Suc_conv_app_nth)
  ultimately show ?case using Suc.prems
    by (simp add: capitals_def fold_opt_append buf_get_def buf_set_def nth_append list_update_append)
qed (simp add: capitals_def)

lemma take_min_length [simp]: "take (min (length xs) n) xs = take n xs"
  by (simp add: min_def)

lemma memset_all: "length b = n \<Longrightarrow> memset b c n = Some (replicate n c)"
  by (simp add: memset_def put_bytes_def)

locale responder =
  fixes serve :: "'s \<Rightarrow> string \<Rightarrow> (string \<times> 's) option"
    and ready :: "'s \<Rightarrow> bool"
    and limit :: nat
  assumes answer: "ready s \<Longrightarrow> \<exists>r s'. serve s req = Some (r, s') \<and> ready s' \<and>
      take (length (take limit req)) r = map toupper (take limit req)"
begin

text \<open>A request that is a string with its zero byte is answered by its capitals with a zero
  byte, whatever follows.\<close>

lemma line_answered:
  assumes "ready s" "NUL \<notin> set line" "length line < limit"
  shows "\<exists>r s'. serve s (line @ NUL # z) = Some (map toupper line @ NUL # r, s') \<and> ready s'"
proof -
  obtain r s' where r: "serve s (line @ NUL # z) = Some (r, s')" "ready s'"
      "take (length (take limit (line @ NUL # z))) r = map toupper (take limit (line @ NUL # z))"
    using answer [OF assms(1)] by blast
  obtain k where k: "limit - length line = Suc k" using assms(3) by (cases "limit - length line") auto
  have "take limit (line @ NUL # z) = line @ NUL # take k z" using k assms(3) by simp
  then have "take (length (line @ NUL # take k z)) r = map toupper (line @ NUL # take k z)" using r(3) by simp
  moreover obtain q where "q = drop (length (line @ NUL # take k z)) r" by simp
  ultimately have "r = map toupper (line @ NUL # take k z) @ q" by (metis append_take_drop_id)
  then have "r = map toupper line @ NUL # (map toupper (take k z) @ q)" by simp
  with r(1,2) show ?thesis by blast
qed

lemma client_prints:
  assumes "ready s" "NUL \<notin> set line" "length line < limit" "limit \<le> length buf"
  shows "\<exists>r s'. serve s (line @ NUL # z) = Some (r, s') \<and>
    (\<exists>n b. recv_into buf (length buf) r = Some (n, b) \<and> cstr b = Some (map toupper line))"
proof -
  obtain r s' where r: "serve s (line @ NUL # z) = Some (map toupper line @ NUL # r, s')"
    using line_answered [OF assms(1-3)] by blast
  obtain k where k: "length buf - length line = Suc k" using assms(3,4) by (cases "length buf - length line") auto
  let ?x = "map toupper line @ NUL # take k r"
  have x: "take (length buf) (map toupper line @ NUL # r) = ?x" using k assms(3,4) by simp
  have "recv_into buf (length buf) (map toupper line @ NUL # r) = Some (length ?x, ?x @ drop (length ?x) buf)"
    using recv_into_Some [OF order_refl, of buf "map toupper line @ NUL # r"] unfolding x .
  moreover have "NUL \<notin> set (map toupper line)" using assms(2) by (auto dest!: sym [of NUL])
  then have "cstr (?x @ y) = Some (map toupper line)" for y by simp
  ultimately show ?thesis using r by blast
qed

end

end
