(* ===== verification/Packets.thy ===== *)
theory Packets
  imports Sockets
begin

text \<open>
  Programs that build packets byte by byte: the raw IP, raw UDP and Ethernet clients with
  their servers (\<open>RAW/\<close>).  A packet is a string of bytes;
  fields are laid out as on a little-endian machine, so a field set through \<open>htons\<close> is
  stored as \<open>be16\<close> and one set without it as \<open>le16\<close>.  What the network delivers is the
  list of packets a socket receives.
\<close>

section \<open>Headers\<close>

unbundle bit_operations_syntax

definition be16 :: "nat \<Rightarrow> string" where "be16 n = [char_of (n div 256), char_of n]"
definition le16 :: "nat \<Rightarrow> string" where "le16 n = [char_of n, char_of (n div 256)]"

definition port_at :: "buffer \<Rightarrow> nat \<Rightarrow> nat option" where
  "port_at b i = do { h \<leftarrow> buf_get b i; l \<leftarrow> buf_get b (i + 1); Some (256 * byte_of h + byte_of l) }"

definition CLIENT_PORT :: nat where "CLIENT_PORT = 7777"
definition SERVER_PORT :: nat where "SERVER_PORT = 3200"

definition udp_header :: "nat \<Rightarrow> nat \<Rightarrow> nat \<Rightarrow> string" where
  "udp_header source destination len = be16 source @ be16 destination @ be16 len @ be16 0"

text \<open>Version 4 and five words of header share the first byte; \<open>frag_off\<close> is 0.\<close>

definition ip_header :: "string \<Rightarrow> string \<Rightarrow> nat \<Rightarrow> nat \<Rightarrow> string \<Rightarrow> string \<Rightarrow> string \<Rightarrow> string" where
  "ip_header tot_len ident ttl protocol check saddr daddr =
     [char_of (0x45 :: nat), NUL] @ tot_len @ ident @ le16 0 @ [char_of ttl, char_of protocol] @ check @ saddr @ daddr"

definition IPPROTO_ICMP :: nat where "IPPROTO_ICMP = 1"
definition IPPROTO_UDP :: nat where "IPPROTO_UDP = 17"
definition IPDEFTTL :: nat where "IPDEFTTL = 64"

section \<open>The clients over raw sockets\<close>

text \<open>\<open>fgets(msg, n, stdin); msg[strlen(msg) - 1] = 0;\<close> for an empty string this writes in
  front of the array.\<close>

definition read_message :: "buffer \<Rightarrow> nat \<Rightarrow> string \<Rightarrow> buffer option" where
  "read_message msg n inp = do {
     (msg, rest) \<leftarrow> fgets msg n inp;
     l \<leftarrow> strlen msg;
     (if l = 0 then None else buf_set msg (l - 1) NUL)
   }"

text \<open>The loop \<open>while (1) { recvfrom(...); if (port matches) { printf(...); break; } }\<close>: the text
  printed, or \<open>None\<close> while the packets received are not for the client.  The buffer is not
  cleared between two packets.\<close>

fun await_reply :: "nat \<Rightarrow> nat \<Rightarrow> buffer \<Rightarrow> string list \<Rightarrow> string option option" where
  "await_reply port_off text_off buf [] = Some None"
| "await_reply port_off text_off buf (p # ps) = do {
     buf \<leftarrow> put_bytes buf 0 (take (length buf) p);
     port \<leftarrow> port_at buf port_off;
     (if port = CLIENT_PORT then do { s \<leftarrow> cstr (drop text_off buf); Some (Some s) }
      else await_reply port_off text_off buf ps)
   }"

text \<open>\<open>RAW/IP/client.c\<close>: the datagram sent and the text printed.\<close>

definition raw_ip_client :: "(nat \<Rightarrow> char) \<Rightarrow> string \<Rightarrow> string list \<Rightarrow> (string \<times> string option) option" where
  "raw_ip_client g inp incoming = do {
     let datagram = replicate 244 NUL;
     let buf = replicate 284 NUL;
     msg \<leftarrow> read_message (fresh_block g 128) 128 inp;
     let udp_hdr = udp_header CLIENT_PORT SERVER_PORT (8 + 128);
     let ip_hdr = ip_header (le16 (28 + 128)) (le16 0) IPDEFTTL IPPROTO_UDP (le16 0) (replicate 4 NUL) (replicate 4 NUL);
     datagram \<leftarrow> memcpy datagram 0 ip_hdr 20;
     datagram \<leftarrow> memcpy datagram 20 udp_hdr 8;
     payload \<leftarrow> strncat (drop 28 datagram) msg 128;
     let datagram = take 28 datagram @ payload;
     response \<leftarrow> await_reply 22 28 buf incoming;
     Some (datagram, response)
   }"


text \<open>The servers: a request of at most 600 bytes is answered in capitals; the buffer is cleared
  after each.  The server beside the raw UDP client is a copy of the other.\<close>

definition raw_serve :: "buffer \<Rightarrow> string \<Rightarrow> (string \<times> buffer) option" where
  "raw_serve buf req = do {
     (n, buf) \<leftarrow> recv_into buf 600 req;
     buf \<leftarrow> capitals n buf;
     let reply = take n buf;
     buf \<leftarrow> memset buf NUL 600;
     Some (reply, buf)
   }"

definition raw_udp_serve :: "buffer \<Rightarrow> string \<Rightarrow> (string \<times> buffer) option" where
  "raw_udp_serve buf req = do {
     (n, buf) \<leftarrow> recv_into buf 600 req;
     buf \<leftarrow> capitals n buf;
     let reply = take n buf;
     buf \<leftarrow> memset buf NUL 600;
     Some (reply, buf)
   }"

definition raw_server :: "(nat \<Rightarrow> char) \<Rightarrow> string list \<Rightarrow> string list option" where
  "raw_server g reqs = serve_all raw_serve (fresh_block g 600) reqs"

definition raw_udp_server :: "(nat \<Rightarrow> char) \<Rightarrow> string list \<Rightarrow> string list option" where
  "raw_udp_server g reqs = serve_all raw_udp_serve (fresh_block g 600) reqs"

text \<open>What both answer.\<close>

definition raw_reply :: "string \<Rightarrow> string" where
  "raw_reply request = map toupper (take 600 request)"

lemma raw_serve_run:
  assumes "length buf = 600"
  shows "raw_serve buf req = Some (raw_reply req, replicate 600 NUL)"
    and "raw_udp_serve buf req = Some (raw_reply req, replicate 600 NUL)"
  using recv_into_Some [of 600 buf req] assms
  by (simp_all add: raw_serve_def raw_udp_serve_def raw_reply_def capitals_Some memset_all)

interpretation raw: responder raw_serve "\<lambda>b. length b = 600" 600
  by unfold_locales (simp add: raw_serve_run raw_reply_def)

interpretation raw_udp: responder raw_udp_serve "\<lambda>b. length b = 600" 600
  by unfold_locales (simp add: raw_serve_run raw_reply_def)

lemma raw_servers_agree: "raw_server g reqs = Some (map raw_reply reqs) \<and> raw_udp_server g reqs = raw_server g reqs"
proof -
  have "length buf = 600 \<Longrightarrow> serve_all raw_serve buf reqs = Some (map raw_reply reqs) \<and>
      serve_all raw_udp_serve buf reqs = Some (map raw_reply reqs)" for buf
    by (induction reqs arbitrary: buf) (simp_all add: raw_serve_run)
  from this [of "fresh_block g 600"] show ?thesis by (simp add: raw_server_def raw_udp_server_def)
qed

section \<open>The Ethernet client\<close>

text \<open>\<open>ccsum\<close> adds ten 16-bit words in an \<open>unsigned int\<close> and folds the carry back once.\<close>

definition ccsum :: "16 word list \<Rightarrow> 16 word" where
  "ccsum ws =
     (let csum = fold (\<lambda>w s. s + ucast w) (take 10 ws) (0 :: 32 word);
          csum = csum + drop_bit 16 csum
      in ucast (NOT csum))"

fun words_of :: "string \<Rightarrow> 16 word list" where
  "words_of (a # b # bs) = of_nat (byte_of a + 256 * byte_of b) # words_of bs"
| "words_of _ = []"

definition eth_ip_header :: string where
  "eth_ip_header =
     (let h = \<lambda>check. ip_header (be16 60) (be16 1337) IPDEFTTL IPPROTO_UDP check
            [char_of (192 :: nat), char_of (168 :: nat), char_of (1 :: nat), char_of (7 :: nat)]
            [char_of (192 :: nat), char_of (168 :: nat), char_of (1 :: nat), char_of (6 :: nat)]
      in h (le16 (unat (ccsum (words_of (h (le16 0)))))))"

text \<open>The frame: destination and source address, the type of IP, the headers, and the line
  that \<open>fgets\<close> reads into the last 32 bytes.\<close>

definition eth_client :: "string \<Rightarrow> string \<Rightarrow> string list \<Rightarrow> (string \<times> string option) option" where
  "eth_client s_mac inp incoming = do {
     let sz = 14 + 20 + 8 + 32;
     let buf = replicate sz NUL;
     let ehdr = map char_of [0x08 :: nat, 0x00, 0x27, 0x72, 0x4a, 0xac] @ s_mac @ be16 0x0800;
     buf \<leftarrow> memcpy buf 0 ehdr 14;
     buf \<leftarrow> memcpy buf 14 eth_ip_header 20;
     buf \<leftarrow> memcpy buf 34 (udp_header CLIENT_PORT SERVER_PORT (8 + 32)) 8;
     (line, rest) \<leftarrow> fgets (drop 42 buf) 32 inp;
     let buf = take 42 buf @ line;
     response \<leftarrow> await_reply 36 42 (replicate sz NUL) incoming;
     Some (buf, response)
   }"

text \<open>
  \<open>get_mac\<close> asks the kernel for the hardware address of an interface.  An \<open>ifreq\<close> is 16 bytes
  for the name and a union of 24, which begins with an address family and data.  \<open>ioctl\<close> maps
  the 16 bytes to the address it stores there, or fails; the last byte of the name is never
  set (\<open>g\<close> is what the stack holds).  \<open>eth_main\<close> is the whole program.
\<close>

definition AF_INET :: nat where "AF_INET = 2"

definition get_mac :: "(nat \<Rightarrow> char) \<Rightarrow> (buffer \<Rightarrow> string option) \<Rightarrow> buffer \<Rightarrow> buffer \<Rightarrow> buffer option" where
  "get_mac g ioctl s_mac iface = do {
     let ifr = fresh_block g 40;
     ifr_addr \<leftarrow> put_bytes (drop 16 ifr) 0 (le16 AF_INET);
     ifr_name \<leftarrow> strncpy (take 16 ifr) iface 15;
     ifr_hwaddr \<leftarrow> (case ioctl ifr_name of None \<Rightarrow> Some ifr_addr | Some a \<Rightarrow> put_bytes ifr_addr 0 (take 16 a));
     let mac = drop 2 ifr_hwaddr;
     fold_opt (\<lambda>i s_mac. do { c \<leftarrow> buf_get mac i; buf_set s_mac i c }) [0..<6] s_mac
   }"

definition eth_main ::
  "(nat \<Rightarrow> nat \<Rightarrow> char) \<Rightarrow> (buffer \<Rightarrow> string option) \<Rightarrow> string \<Rightarrow> string list \<Rightarrow> (string \<times> string option) option" where
  "eth_main g ioctl inp incoming = do {
     s_mac \<leftarrow> get_mac (g 0) ioctl (fresh_block (g 1) 6) (''wlxbc0f9a2b4fc6'' @ [NUL]);
     eth_client s_mac inp incoming
   }"

section \<open>Replies\<close>

lemma length_udp_header [simp]: "length (udp_header s d l) = 8"
  by (simp add: udp_header_def be16_def)

lemma be16_value:
  fixes n :: nat
  assumes "n < 65536"
  shows "256 * (n div 256 mod 256) + n mod 256 = n"
proof -
  have "n div 256 < 256" using assms by simp
  then have "n div 256 mod 256 = n div 256" by simp
  then show ?thesis by (metis mult_div_mod_eq)
qed

text \<open>A packet: \<open>ih\<close> is the network header (and what is in front of it).\<close>

definition udp_packet :: "string \<Rightarrow> nat \<Rightarrow> nat \<Rightarrow> string \<Rightarrow> string" where
  "udp_packet ih s d x = ih @ udp_header s d (8 + length x) @ x"

lemma port_of_packet:
  assumes "d < 65536" "length ih + 8 + length x \<le> length buf"
  shows "put_bytes buf 0 (udp_packet ih s d x) = Some (udp_packet ih s d x @ drop (length ih + 8 + length x) buf)"
    and "port_at (udp_packet ih s d x @ r) (length ih + 2) = Some d"
proof -
  show "put_bytes buf 0 (udp_packet ih s d x) = Some (udp_packet ih s d x @ drop (length ih + 8 + length x) buf)"
    using assms(2) by (simp add: udp_packet_def put_bytes_def add.assoc)
  show "port_at (udp_packet ih s d x @ r) (length ih + 2) = Some d"
    using be16_value [OF assms(1)]
    by (simp add: udp_packet_def port_at_def buf_get_def udp_header_def be16_def nth_append)
qed

text \<open>Packets for other ports are skipped; the first one for the client is printed from the
  byte \<open>k\<close> of its payload on.\<close>

lemma await_reply_first:
  assumes "\<forall>p \<in> set skip. \<exists>d x ih'. p = udp_packet ih' 3200 d x \<and> length ih' = length ih \<and> d < 65536 \<and> d \<noteq> 7777 \<and>
      length ih + 8 + length x \<le> length buf"
    and "length ih + 8 + length x \<le> length buf" "cstr x = Some s" "k \<le> length s"
  shows "await_reply (length ih + 2) (length ih + 8 + k) buf (skip @ udp_packet ih 3200 7777 x # later) = Some (Some (drop k s))"
  using assms(1,2)
proof (induction skip arbitrary: buf)
  case Nil
  let ?p = "udp_packet ih 3200 7777 x" and ?r = "drop (length ih + 8 + length x) buf"
  have len: "length ?p \<le> length buf" using Nil by (simp add: udp_packet_def)
  have d: "drop (length ih + 8 + k) (?p @ ?r) = drop k (x @ ?r)" by (simp add: udp_packet_def)
  have "cstr (x @ ?r) = Some s" using assms(3) by (auto elim!: cstr_SomeE)
  then have "cstr (drop k (x @ ?r)) = Some (drop k s)" using cstr_drop assms(4) by blast
  then show ?case
    using port_of_packet [OF _ Nil(2), of 7777 3200] len d by (simp add: CLIENT_PORT_def)
next
  case (Cons p skip)
  obtain d y ih' where p: "p = udp_packet ih' 3200 d y" "length ih' = length ih" "d < 65536" "d \<noteq> 7777"
      "length ih + 8 + length y \<le> length buf" using Cons.prems(1) by auto
  let ?b = "p @ drop (length ih' + 8 + length y) buf"
  have len: "length p \<le> length buf" "length ?b = length buf" using p by (simp_all add: udp_packet_def)
  have "await_reply (length ih + 2) (length ih + 8 + k) ?b (skip @ udp_packet ih 3200 7777 x # later) = Some (Some (drop k s))"
    using Cons.prems len(2) by (intro Cons.IH) auto
  then show ?case
    using port_of_packet [of d ih' y buf 3200] p len(1) by (simp add: CLIENT_PORT_def)
qed

lemma read_message_line:
  assumes "NL \<notin> set line" "NUL \<notin> set line" "length line + 1 < n"
  shows "\<exists>r. read_message (fresh_block g n) n (line @ NL # rest) = Some (line @ NUL # r)"
proof -
  let ?r = "drop (length line + 2) (fresh_block g n)"
  have "fgets (fresh_block g n) n (line @ NL # rest) = Some (line @ NL # NUL # ?r, rest)"
    using assms by (intro fgets_line) simp_all
  moreover have "cstr ((line @ [NL]) @ NUL # ?r) = Some (line @ [NL])" using assms(2) by (intro cstr_append) simp
  then have "strlen (line @ NL # NUL # ?r) = Some (length line + 1)" by (simp add: strlen_Some)
  ultimately show ?thesis by (simp add: read_message_def buf_set_def list_update_append)
qed

text \<open>A line sent in a payload, and what the server makes of it.\<close>

lemma served_line:
  assumes "NUL \<notin> set line" "length line < n" "n \<le> 600"
  shows "cstr (raw_reply (take n (line @ NUL # r))) = Some (map toupper line)"
proof -
  obtain k where k: "n - length line = Suc k" using assms(2) by (cases "n - length line") auto
  then have "take 600 (take n (line @ NUL # r)) = line @ NUL # take k r"
    using assms(2,3) by (simp add: take_Cons')
  then show ?thesis using assms(1) by (simp add: raw_reply_def cstr_toupper del: map_append)
qed

definition raw_ip_header :: string where
  "raw_ip_header = ip_header (le16 156) (le16 0) IPDEFTTL IPPROTO_UDP (le16 0) (replicate 4 NUL) (replicate 4 NUL)"

definition foreign_packets :: "nat \<Rightarrow> nat \<Rightarrow> string list \<Rightarrow> bool" where
  "foreign_packets h n ps \<longleftrightarrow> (\<forall>p \<in> set ps. \<exists>d x ih. p = udp_packet ih 3200 d x \<and> length ih = h \<and>
     d < 65536 \<and> d \<noteq> 7777 \<and> h + 8 + length x \<le> n)"

text \<open>
  The raw IP client sends the line it read, without the newline, zero-padded behind
  the two headers.  Through the server and past any packets for other ports it prints
  exactly that line in capitals.
\<close>

theorem raw_ip_roundtrip:
  assumes line: "NL \<notin> set line" "NUL \<notin> set line" "length line \<le> 126"
    and net: "length ih = 20" "foreign_packets 20 284 skip"
  defines "dg \<equiv> raw_ip_header @ udp_header 7777 3200 136 @ line @ replicate (216 - length line) NUL"
  shows "raw_ip_client g (line @ NL # rest)
      (skip @ udp_packet ih 3200 7777 (raw_reply (take 128 (drop 28 dg))) # later) = Some (dg, Some (map toupper line))"
proof -
  obtain r where r: "read_message (fresh_block g 128) 128 (line @ NL # rest) = Some (line @ NUL # r)"
    using read_message_line [OF line(1,2), of 128] line(3) by auto
  have lh: "length raw_ip_header = 20" by (simp add: raw_ip_header_def ip_header_def le16_def)
  let ?h = "raw_ip_header @ udp_header 7777 3200 136"
  obtain z where z: "replicate (216 - length line) NUL = NUL # z" using line(3) by (cases "216 - length line") auto
  have dg: "drop 28 dg = line @ NUL # z" "length dg = 244" using lh line(3) by (simp_all add: dg_def z [symmetric])
  let ?x = "raw_reply (take 128 (drop 28 dg))"
  have "cstr ?x = Some (map toupper line)" unfolding dg(1) using line by (intro served_line) simp_all
  then have x: "cstr ?x = Some (map toupper line)" "length ?x \<le> 128" by (simp_all add: raw_reply_def)
  have "await_reply (length ih + 2) (length ih + 8 + 0) (replicate 284 NUL) (skip @ udp_packet ih 3200 7777 ?x # later)
      = Some (Some (drop 0 (map toupper line)))"
    using net x by (intro await_reply_first) (auto simp: foreign_packets_def)
  then have a: "await_reply 22 28 (replicate 284 NUL) (skip @ udp_packet ih 3200 7777 ?x # later) = Some (Some (map toupper line))"
    using net(1) by simp
  have c: "cstr (replicate 216 NUL) = Some []" "cstr (line @ NUL # r) = Some line" using line(2) by simp_all
  have "strncat (replicate 216 NUL) (line @ NUL # r) 128 = Some (line @ NUL # drop (Suc (length line)) (replicate 216 NUL))"
    using c line(3) by (simp add: strncat_def cstrn_Some put_bytes_def)
  moreover have "NUL # drop (Suc (length line)) (replicate 216 NUL) = replicate (216 - length line) NUL"
    using line(3) by (simp add: Cons_replicate_eq)
  ultimately show ?thesis
    using r a lh by (simp add: raw_ip_client_def Let_def memcpy_def put_bytes_def raw_ip_header_def [symmetric]
      CLIENT_PORT_def SERVER_PORT_def dg_def)
qed


lemma foreign_packets_Cons:
  "length ih = h \<Longrightarrow> d < 65536 \<Longrightarrow> d \<noteq> 7777 \<Longrightarrow> h + 8 + length x \<le> n \<Longrightarrow> foreign_packets h n ps \<Longrightarrow>
   foreign_packets h n (udp_packet ih 3200 d x # ps)"
  unfolding foreign_packets_def by auto

lemma foreign_packets_Nil: "foreign_packets h n []"
  by (simp add: foreign_packets_def)

lemma raw_ip_roundtrip_witness:
  "\<exists>dg. raw_ip_client (\<lambda>_. NUL) (''hi'' @ NL # [])
      ([udp_packet (replicate 20 NUL) 3200 53 ''x''] @
       udp_packet (replicate 20 NUL) 3200 7777 (raw_reply (take 128 (drop 28 dg))) # []) = Some (dg, Some ''HI'')"
proof -
  have f: "foreign_packets 20 284 [udp_packet (replicate 20 NUL) 3200 53 ''x'']"
    by (rule foreign_packets_Cons) (simp_all add: foreign_packets_Nil)
  let ?dg = "raw_ip_header @ udp_header 7777 3200 136 @ ''hi'' @ replicate (216 - length ''hi'') NUL"
  have "raw_ip_client (\<lambda>_. NUL) (''hi'' @ NL # [])
      ([udp_packet (replicate 20 NUL) 3200 53 ''x''] @
       udp_packet (replicate 20 NUL) 3200 7777 (raw_reply (take 128 (drop 28 ?dg))) # [])
      = Some (?dg, Some (map toupper ''hi''))"
    by (rule raw_ip_roundtrip) (simp_all only: f, simp_all)
  moreover have "map toupper ''hi'' = ''HI''" by code_simp
  ultimately show ?thesis by metis
qed


section \<open>The Internet checksum\<close>

text \<open>The one's complement sum of RFC 1071: carries are folded back until none is left.\<close>

function fold16 :: "nat \<Rightarrow> nat" where
  "fold16 n = (if n < 65536 then n else fold16 (n mod 65536 + n div 65536))"
  by pat_completeness auto
termination
proof (relation "measure id")
  fix n :: nat assume "\<not> n < 65536"
  then have "1 \<le> n div 65536" by (simp add: Suc_le_eq div_greater_zero_iff)
  moreover have "n = n div 65536 * 65536 + n mod 65536" by (rule div_mult_mod_eq [symmetric])
  ultimately have "n mod 65536 + n div 65536 < n" by linarith
  then show "(n mod 65536 + n div 65536, n) \<in> measure id" by simp
qed simp

declare fold16.simps [simp del]

definition internet_checksum :: "16 word list \<Rightarrow> 16 word" where
  "internet_checksum ws = NOT (of_nat (fold16 (sum_list (map unat ws))))"

lemma csum_sum: "fold (\<lambda>w s. s + ucast w) ws s = s + (of_nat (sum_list (map unat (ws :: 16 word list))) :: 32 word)"
  by (induction ws arbitrary: s) (simp_all add: algebra_simps)

lemma sum_words: "sum_list (map unat (ws :: 16 word list)) \<le> length ws * 65535"
proof (induction ws)
  case (Cons w ws)
  have "unat w < 65536" using unsigned_less [of w] by simp
  with Cons show ?case by simp
qed simp

lemma ucast_NOT_of_nat: "(ucast (NOT (of_nat n :: 32 word)) :: 16 word) = NOT (of_nat n)"
  by transfer (simp add: take_bit_not_take_bit)

lemma ccsum_nat:
  assumes "length ws = 10"
  shows "ccsum ws = NOT (of_nat (sum_list (map unat ws) + sum_list (map unat ws) div 65536))"
proof -
  let ?s = "sum_list (map unat ws)"
  have "?s < 2 ^ 32" using sum_words [of ws] assms by simp
  then have "unat (of_nat ?s :: 32 word) = ?s" by (simp add: unat_of_nat)
  then have "unat (drop_bit 16 (of_nat ?s :: 32 word)) = ?s div 65536" by (simp add: drop_bit_eq_div unat_div)
  then have d: "drop_bit 16 (of_nat ?s :: 32 word) = of_nat (?s div 65536)" by (metis of_nat_unat ucast_id)
  show ?thesis
    using assms d ucast_NOT_of_nat [of "?s + ?s div 65536"] by (simp add: ccsum_def csum_sum Let_def)
qed

lemma fold16_below: "n < 65536 \<Longrightarrow> fold16 n = n"
  by (simp add: fold16.simps [of n])

lemma fold16_carry:
  assumes "k < 10"
  shows "fold16 (65536 + k) = Suc k"
proof -
  have "(65536 + k) div 65536 = k div 65536 + 1" by (rule div_add_self1) simp
  then have "(65536 + k) div 65536 = 1" using assms by simp
  then have "fold16 (65536 + k) = fold16 (Suc k)" using assms by (subst fold16.simps) simp
  then show ?thesis using assms by (simp add: fold16_below)
qed

lemma carry_cases:
  fixes t :: nat
  assumes "t < 65546"
  obtains "t < 65536" | k where "t = 65536 + k" "k < 10"
proof (cases "t < 65536")
  case False
  then have "t = 65536 + (t - 65536)" "t - 65536 < 10" using assms by simp_all
  then show ?thesis by (rule that(2))
qed (rule that(1))

lemma fold16_once: "fold16 s = fold16 (s mod 65536 + s div 65536)"
  by (cases "s < 65536") (simp_all add: fold16.simps [of s])

lemma add_less_65546: "a < 65536 \<Longrightarrow> b < 10 \<Longrightarrow> a + b < (65546 :: nat)"
  by simp

lemma sum_carry: "s < 655360 \<Longrightarrow> s mod 65536 + s div 65536 < (65546 :: nat)"
proof -
  assume "s < 655360"
  then have "s div 65536 < 10" "s mod 65536 < 65536" by (simp_all add: less_mult_imp_div_less)
  then show ?thesis by (intro add_less_65546)
qed

lemma fold16_carries:
  assumes "t < 65546"
  shows "t mod 65536 = fold16 t mod 65536 \<longleftrightarrow> t < 65536"
  using assms by (rule carry_cases) (simp_all add: fold16_below fold16_carry)

lemma eth_header_sum: "fold16 (sum_list (map unat (words_of eth_ip_header))) = 65535"
proof -
  let ?h = "\<lambda>check. ip_header (be16 60) (be16 1337) IPDEFTTL IPPROTO_UDP check
      [char_of (192 :: nat), char_of (168 :: nat), char_of (1 :: nat), char_of (7 :: nat)]
      [char_of (192 :: nat), char_of (168 :: nat), char_of (1 :: nat), char_of (6 :: nat)]"
  have w: "words_of (?h (le16 c)) = [0x0045, 0x3C00, 0x3905, 0, 0x1140, of_nat (c mod 256 + 256 * (c div 256 mod 256)),
      0xA8C0, 0x0701, 0xA8C0, 0x0601]" for c
    by (simp add: ip_header_def be16_def le16_def IPDEFTTL_def IPPROTO_UDP_def)
  have c: "unat (ccsum (words_of (?h (le16 0)))) = 6898" unfolding w by (simp add: ccsum_def)
  show ?thesis
    unfolding eth_ip_header_def Let_def w c [unfolded w] by (simp add: fold16_once [of 131070] fold16_below)
qed

text \<open>
  C28.  \<open>ccsum\<close> folds the carries back only once.  For the ten words of an IP header it is
  the checksum of RFC 1071 exactly when that one addition does not carry again, and it is
  for the header the program builds, whose words with the checksum then sum up to all ones.
\<close>

theorem ccsum_internet_checksum:
  assumes "length ws = 10"
  shows "(let s = sum_list (map unat ws) in
      ccsum ws = internet_checksum ws \<longleftrightarrow> s mod 65536 + s div 65536 < 65536) \<and>
    fold16 (sum_list (map unat (words_of eth_ip_header))) = 65535"
proof
  let ?s = "sum_list (map unat ws)"
  let ?t = "?s mod 65536 + ?s div 65536"
  have s: "?s < 655360" using sum_words [of ws] assms by simp
  have eq: "(NOT (of_nat a) :: 16 word) = NOT (of_nat b) \<longleftrightarrow> a mod 65536 = b mod 65536" for a b
    by (simp add: word_of_nat_eq_iff take_bit_nat_def)
  have m: "(s + s div 65536) mod 65536 = (s mod 65536 + s div 65536) mod 65536" for s :: nat
    by (rule mod_add_left_eq [symmetric])
  have "ccsum ws = internet_checksum ws \<longleftrightarrow> ?t mod 65536 = fold16 ?s mod 65536"
    unfolding ccsum_nat [OF assms] internet_checksum_def eq m ..
  also have "\<dots> \<longleftrightarrow> ?t < 65536"
    unfolding fold16_once [of ?s] by (rule fold16_carries [OF sum_carry [OF s]])
  finally show "let s = ?s in ccsum ws = internet_checksum ws \<longleftrightarrow> s mod 65536 + s div 65536 < 65536"
    by (simp only: Let_def)
next
  show "fold16 (sum_list (map unat (words_of eth_ip_header))) = 65535" by (rule eth_header_sum)
qed

lemma ccsum_internet_checksum_witness:
  "ccsum [0xFFFF, 0xFFFF, 0x0000, 0, 0, 0, 0, 0, 0, 0] = internet_checksum [0xFFFF, 0xFFFF, 0x0000, 0, 0, 0, 0, 0, 0, 0] \<and>
   ccsum [0xFFFF, 0xFFFF, 0x0001, 0, 0, 0, 0, 0, 0, 0] \<noteq> internet_checksum [0xFFFF, 0xFFFF, 0x0001, 0, 0, 0, 0, 0, 0, 0]"
  using ccsum_internet_checksum [of "[0xFFFF, 0xFFFF, 0x0000, 0, 0, 0, 0, 0, 0, 0]"]
    ccsum_internet_checksum [of "[0xFFFF, 0xFFFF, 0x0001, 0, 0, 0, 0, 0, 0, 0]"] by simp

section \<open>The Ethernet client as a whole\<close>

lemma get_mac_answered:
  assumes "length s_mac = 6" "length iface = 15" "NUL \<notin> set iface" "length mac = 6" "length pad = 8"
    and "ioctl (iface @ [g 15]) = Some (le16 1 @ mac @ pad)"
  shows "get_mac g ioctl s_mac (iface @ [NUL]) = Some mac"
proof -
  have "drop 15 (take 16 (fresh_block g 40)) = [g 15]" by (simp add: fresh_block_def numeral_eq_Suc upt_rec)
  then have "strncpy (take 16 (fresh_block g 40)) (iface @ [NUL]) 15 = Some (iface @ [g 15])"
    using assms(2,3) by (simp add: strncpy_def cstrn_Some put_bytes_def)
  moreover have "mac = [mac ! 0, mac ! 1, mac ! 2, mac ! 3, mac ! 4, mac ! 5]"
    using assms(4) by (auto simp: numeral_eq_Suc length_Suc_conv)
  then obtain a b c d e f where m: "mac = [a, b, c, d, e, f]" by blast
  obtain u v w x y z where "s_mac = [u, v, w, x, y, z]"
    using assms(1) by (auto simp: numeral_eq_Suc length_Suc_conv)
  ultimately show ?thesis
    using assms(5,6) by (simp add: get_mac_def put_bytes_def le16_def AF_INET_def m buf_get_def buf_set_def upt_rec)
qed

text \<open>
  The Ethernet client sends one frame of 74 bytes: from the address the kernel reports
  for its interface, with an IP header whose checksum is right, and in it the line that was
  typed with its newline, filled up with zeros; and it prints the text of the first packet
  for its port.
\<close>

theorem eth_frame:
  assumes line: "NL \<notin> set line" "NUL \<notin> set line" "length line \<le> 30"
    and mac: "length mac = 6" "length pad = 8" "\<forall>b. ioctl (''wlxbc0f9a2b4fc6'' @ [b]) = Some (le16 1 @ mac @ pad)"
    and net: "length ih = 34" "foreign_packets 34 74 skip" "length x \<le> 32" "cstr x = Some s"
  shows "eth_main g ioctl (line @ NL # rest) (skip @ udp_packet ih 3200 7777 x # later) =
      Some (map char_of [0x08 :: nat, 0, 0x27, 0x72, 0x4a, 0xac] @ mac @ be16 0x0800 @ eth_ip_header @
        udp_header 7777 3200 40 @ line @ NL # replicate (31 - length line) NUL, Some s) \<and>
    fold16 (sum_list (map unat (words_of eth_ip_header))) = 65535"
proof
  show "fold16 (sum_list (map unat (words_of eth_ip_header))) = 65535" by (rule eth_header_sum)
  have g: "get_mac (g 0) ioctl (fresh_block (g 1) 6) (''wlxbc0f9a2b4fc6'' @ [NUL]) = Some mac"
    using mac by (intro get_mac_answered) simp_all
  have f: "fgets (replicate 32 NUL) 32 (line @ NL # rest) = Some (line @ NL # NUL # drop (length line + 2) (replicate 32 NUL), rest)"
    using line by (intro fgets_line) simp_all
  have t: "NUL # drop (length line + 2) (replicate 32 NUL) = replicate (31 - length line) NUL"
    using line(3) by (simp add: Cons_replicate_eq)
  have "await_reply (length ih + 2) (length ih + 8 + 0) (replicate 74 NUL) (skip @ udp_packet ih 3200 7777 x # later) = Some (Some (drop 0 s))"
    using net by (intro await_reply_first) (auto simp: foreign_packets_def)
  then have a: "await_reply 36 42 (replicate 74 NUL) (skip @ udp_packet ih 3200 7777 x # later) = Some (Some s)"
    using net(1) by simp
  have h: "length eth_ip_header = 20" by (simp add: eth_ip_header_def ip_header_def be16_def le16_def Let_def)
  show "eth_main g ioctl (line @ NL # rest) (skip @ udp_packet ih 3200 7777 x # later) =
      Some (map char_of [0x08 :: nat, 0, 0x27, 0x72, 0x4a, 0xac] @ mac @ be16 0x0800 @ eth_ip_header @
        udp_header 7777 3200 40 @ line @ NL # replicate (31 - length line) NUL, Some s)"
    using g f a h mac(1) t
    by (simp add: eth_main_def eth_client_def Let_def memcpy_def put_bytes_def be16_def CLIENT_PORT_def SERVER_PORT_def)
qed

lemma eth_frame_witness:
  "\<exists>dg. eth_main (\<lambda>_ _. NUL) (\<lambda>_. Some (le16 1 @ ''abcdef'' @ replicate 8 NUL)) (''hi'' @ NL # [])
      ([] @ udp_packet (replicate 34 NUL) 3200 7777 (''HI'' @ [NUL]) # []) = Some (dg, Some ''HI'') \<and> take 6 (drop 6 dg) = ''abcdef''"
proof -
  have "cstr (''HI'' @ [NUL]) = Some ''HI''" by (simp add: cstr_Cons)
  then have "eth_main (\<lambda>_ _. NUL) (\<lambda>_. Some (le16 1 @ ''abcdef'' @ replicate 8 NUL)) (''hi'' @ NL # [])
      ([] @ udp_packet (replicate 34 NUL) 3200 7777 (''HI'' @ [NUL]) # []) =
      Some (map char_of [0x08 :: nat, 0, 0x27, 0x72, 0x4a, 0xac] @ ''abcdef'' @ be16 0x0800 @ eth_ip_header @
        udp_header 7777 3200 40 @ ''hi'' @ NL # replicate (31 - length ''hi'') NUL, Some ''HI'')"
    by (intro eth_frame [THEN conjunct1, of _ "''abcdef''" "replicate 8 NUL"]) (simp_all only: foreign_packets_Nil, simp_all)
  then show ?thesis by (intro exI conjI, assumption) simp
qed

end
