(* ===== verification/Traceroute.thy ===== *)
theory Traceroute
  imports Packets Stdio "HOL-Library.Sublist"
begin

text \<open>
  \<open>traceroute/traceroute.c\<close>: probes with a growing time to live, one line for the packet that
  is received after each.  Addresses are four bytes; \<open>inet_ntop\<close> and \<open>inet_pton\<close> are
  inverse to each other.  Every round opens a raw socket of its own, receives once from it and
  never closes it.  What the network delivers is a list: its element \<open>i\<close> is the first packet
  that the socket of round \<open>i\<close> receives, and a round for which there is none waits for ever.
  \<open>limit\<close> is the number of descriptors that are free when the program starts; a round that
  finds none free has \<open>socket\<close>, \<open>sendto\<close> and \<open>recvfrom\<close> fail, and judges the cleared buffer.
\<close>

section \<open>Addresses\<close>

fun dotted :: "string list \<Rightarrow> string" where
  "dotted [] = []"
| "dotted [w] = w"
| "dotted (w # ws) = w @ CHR ''.'' # dotted ws"

definition inet_ntop :: "string \<Rightarrow> string" where
  "inet_ntop a = dotted (map (\<lambda>c. show_nat (byte_of c)) a)"

fun split_dots :: "string \<Rightarrow> string list" where
  "split_dots [] = [[]]"
| "split_dots (c # cs) = (if c = CHR ''.'' then [] # split_dots cs
     else case split_dots cs of [] \<Rightarrow> [[c]] | w # ws \<Rightarrow> (c # w) # ws)"

text \<open>One of the four numbers: at most three digits, no leading zero, at most 255.\<close>

definition octet :: "string \<Rightarrow> char option" where
  "octet w = (if w \<noteq> [] \<and> list_all is_digit w \<and> length w \<le> 3 \<and> (length w = 1 \<or> hd w \<noteq> CHR ''0'') \<and> digits_value w \<le> 255
     then Some (char_of (nat (digits_value w))) else None)"

definition inet_pton :: "string \<Rightarrow> string option" where
  "inet_pton s = (case split_dots s of
       [a, b, c, d] \<Rightarrow> do { a \<leftarrow> octet a; b \<leftarrow> octet b; c \<leftarrow> octet c; d \<leftarrow> octet d; Some [a, b, c, d] }
     | _ \<Rightarrow> None)"

section \<open>The code\<close>

text \<open>The probe: \<open>time_to_live\<close> is 16 bits wide, its field of the header 8.\<close>

definition probe :: "16 word \<Rightarrow> string \<Rightarrow> buffer option" where
  "probe ttl daddr = do {
     let datagram = replicate 33 NUL;
     let udp_hdr = udp_header CLIENT_PORT 33434 (8 + 5);
     let ip_hdr = ip_header (le16 (28 + 5)) (le16 0) (unat ttl) IPPROTO_UDP (le16 0) (replicate 4 NUL) daddr;
     datagram \<leftarrow> memcpy datagram 0 ip_hdr 20;
     datagram \<leftarrow> memcpy datagram 20 udp_hdr 8;
     payload \<leftarrow> strncat (drop 28 datagram) (''test'' @ [NUL]) 5;
     Some (take 28 datagram @ payload)
   }"

text \<open>What the program looks at in the packet it received: the source address as text, the
  protocol of the IP header, the type of the ICMP header behind 20 bytes.\<close>

record reply =
  source :: string
  protocol :: nat
  icmp_type :: nat

definition reply_of :: "buffer \<Rightarrow> reply" where
  "reply_of buf = \<lparr> source = inet_ntop (take 4 (drop 12 buf)), protocol = byte_of (buf ! 9), icmp_type = byte_of (buf ! 20) \<rparr>"

definition receive :: "string \<Rightarrow> reply option" where
  "receive p = do { buf \<leftarrow> put_bytes (replicate 50 NUL) 0 (take 50 p); Some (reply_of buf) }"

datatype hop = Hop nat string | Reached nat string | Stars nat | Blocked

definition judge :: "string \<Rightarrow> 16 word \<Rightarrow> reply \<Rightarrow> hop" where
  "judge host ttl r =
     (if protocol r = 1 \<and> icmp_type r = 11 then Hop (unat ttl) (source r)
      else if protocol r = 1 \<and> icmp_type r = 3 \<and> take (length host) (source r) = host
      then Reached (unat ttl) (source r)
      else Stars (unat ttl))"

text \<open>One round of the outer loop: the probe that is sent, if any, and the line that is
  printed.  The state is \<open>time_to_live\<close>, the number of sockets that are open, and the packets
  of the rounds to come.\<close>

type_synonym trace_state = "16 word \<times> nat \<times> string list"

definition trace_round ::
  "nat \<Rightarrow> string \<Rightarrow> string \<Rightarrow> trace_state \<Rightarrow> ((string option \<times> hop) \<times> trace_state) option" where
  "trace_round limit host daddr = (\<lambda>(ttl, sockets, packets). do {
     let ttl = ttl + 1;
     datagram \<leftarrow> probe ttl daddr;
     (if sockets < limit then
        (case packets of
           [] \<Rightarrow> Some ((Some datagram, Blocked), (ttl, sockets + 1, []))
         | p # ps \<Rightarrow> do { r \<leftarrow> receive p; Some ((Some datagram, judge host ttl r), (ttl, sockets + 1, ps)) })
      else Some ((None, judge host ttl (reply_of (replicate 50 NUL))), (ttl, sockets, packets)))
   })"

fun over :: "string option \<times> hop \<Rightarrow> bool" where
  "over (_, Reached _ _) = True"
| "over (_, Blocked) = True"
| "over _ = False"

text \<open>\<open>main\<close>, for at most \<open>n\<close> rounds.  \<open>g\<close> is what \<open>d_addr\<close> holds before \<open>inet_pton\<close>, which
  does not set it when the operand is no address.\<close>

datatype trace = Missing_host_operand | Trace string "(string option \<times> hop) list"

definition traceroute :: "nat \<Rightarrow> (nat \<Rightarrow> char) \<Rightarrow> string list \<Rightarrow> string list \<Rightarrow> nat \<Rightarrow> trace option" where
  "traceroute limit g argv packets n = (case argv of
       [] \<Rightarrow> None
     | [prog] \<Rightarrow> Some Missing_host_operand
     | prog # host # _ \<Rightarrow> do {
         let d_addr = (case inet_pton host of None \<Rightarrow> fresh_block g 4 | Some a \<Rightarrow> a);
         (lines, st) \<leftarrow> iterate over (trace_round limit host d_addr) n (0, 0, packets);
         Some (Trace host lines)
       })"

section \<open>Addresses as text\<close>

lemma split_dots_word:
  "CHR ''.'' \<notin> set w \<Longrightarrow> split_dots (w @ CHR ''.'' # s) = w # split_dots s"
  "CHR ''.'' \<notin> set w \<Longrightarrow> split_dots w = [w]"
  by (induction w) auto

lemma split_dotted:
  "ws \<noteq> [] \<Longrightarrow> \<forall>w \<in> set ws. CHR ''.'' \<notin> set w \<Longrightarrow> split_dots (dotted ws) = ws"
  by (induction ws rule: dotted.induct) (simp_all add: split_dots_word)

lemma octet_show: "octet (show_nat (byte_of c)) = Some c"
proof -
  let ?n = "byte_of c"
  have n: "?n < 256" by simp
  have d: "list_all is_digit (show_nat ?n)" "show_nat ?n \<noteq> []" using show_nat_digits [of ?n] by simp_all
  have v: "digits_value (show_nat ?n) = int ?n" by (rule digits_value_show)
  have z: "digit_char k \<noteq> CHR ''0''" if "0 < k" "k < 10" for k
  proof
    assume "digit_char k = CHR ''0''"
    then have "byte_of (digit_char k) = byte_of (CHR ''0'')" by simp
    then show False using that by (simp add: digit_char_def)
  qed
  have "length (show_nat ?n) \<le> 3 \<and> (length (show_nat ?n) = 1 \<or> hd (show_nat ?n) \<noteq> CHR ''0'')"
  proof -
    consider "?n < 10" | "10 \<le> ?n" "?n < 100" | "100 \<le> ?n" by linarith
    then show ?thesis
    proof cases
      case 1
      then show ?thesis by (simp add: show_nat.simps [of ?n])
    next
      case 2
      then have "?n div 10 < 10" by simp
      with 2 have "show_nat ?n = [digit_char (?n div 10), digit_char (?n mod 10)]"
        by (simp add: show_nat.simps [of ?n] show_nat.simps [of "?n div 10"])
      then show ?thesis using z [of "?n div 10"] 2 by simp
    next
      case 3
      have "?n div 100 < 10" by (rule less_mult_imp_div_less) (use n in linarith)
      moreover have "\<not> ?n div 10 < 10" using 3 by simp
      ultimately have "show_nat ?n = [digit_char (?n div 100), digit_char (?n div 10 mod 10), digit_char (?n mod 10)]"
        using n by (simp add: show_nat.simps [of ?n] show_nat.simps [of "?n div 10"] show_nat.simps [of "?n div 100"]
          div_mult2_eq [of ?n 10 10, simplified, symmetric])
      moreover have "0 < ?n div 100" using 3 by (simp add: div_greater_zero_iff)
      ultimately show ?thesis using z [of "?n div 100"] \<open>?n div 100 < 10\<close> by simp
    qed
  qed
  moreover have "?n \<le> 255" using n by linarith
  ultimately show ?thesis using d v by (simp add: octet_def)
qed

lemma show_nat_no_dot: "CHR ''.'' \<notin> set (show_nat n)"
proof
  assume "CHR ''.'' \<in> set (show_nat n)"
  then have "is_digit (CHR ''.'')" using show_nat_digits [of n] by (auto simp: list_all_iff)
  then show False by (simp add: is_digit_def)
qed

lemma inet_roundtrip:
  assumes "length a = 4"
  shows "inet_pton (inet_ntop a) = Some a"
proof -
  obtain b c d e where a: "a = [b, c, d, e]"
    using assms by (auto simp: numeral_eq_Suc length_Suc_conv)
  have "split_dots (inet_ntop a) = map (\<lambda>c. show_nat (byte_of c)) a"
    unfolding inet_ntop_def by (rule split_dotted) (auto simp: a show_nat_no_dot)
  then show ?thesis by (simp add: inet_pton_def a octet_show)
qed

section \<open>Rounds\<close>

definition probe_bytes :: "16 word \<Rightarrow> string \<Rightarrow> string" where
  "probe_bytes ttl daddr = ip_header (le16 33) (le16 0) (unat ttl) IPPROTO_UDP (le16 0) (replicate 4 NUL) daddr @
     udp_header 7777 33434 13 @ ''test'' @ [NUL]"

lemma probe_sent:
  assumes "length daddr = 4"
  shows "probe ttl daddr = Some (probe_bytes ttl daddr)"
proof -
  let ?h = "ip_header (le16 33) (le16 0) (unat ttl) IPPROTO_UDP (le16 0) (replicate 4 NUL) daddr"
  have h: "length ?h = 20" using assms by (simp add: ip_header_def le16_def)
  have "cstr (''test'' @ [NUL]) = Some ''test''" by (simp add: cstr_Cons)
  then have "strncat (replicate 5 NUL) (''test'' @ [NUL]) 5 = Some (''test'' @ [NUL])"
    by (simp add: strncat_def cstrn_Some put_bytes_def)
  then show ?thesis
    using h by (simp add: probe_def probe_bytes_def Let_def memcpy_def put_bytes_def CLIENT_PORT_def)
qed

text \<open>
  What a packet means, from its bytes alone: byte 9 is the protocol of the IP header, 1 for
  ICMP, bytes 12 to 15 its source, byte 20 the type of the ICMP message, 11 for a time to live
  that ran out and 3 for an unreachable destination, of whatever code.  A byte that is not
  there is zero.
\<close>

definition packet_byte :: "string \<Rightarrow> nat \<Rightarrow> nat" where
  "packet_byte p k = (if k < length p then byte_of (p ! k) else 0)"

definition sender :: "string \<Rightarrow> string" where
  "sender p = inet_ntop (map (\<lambda>k. char_of (packet_byte p k)) [12, 13, 14, 15])"

definition expired :: "string \<Rightarrow> bool" where
  "expired p \<longleftrightarrow> packet_byte p 9 = 1 \<and> packet_byte p 20 = 11"

definition unreachable_from :: "string \<Rightarrow> string \<Rightarrow> bool" where
  "unreachable_from host p \<longleftrightarrow> packet_byte p 9 = 1 \<and> packet_byte p 20 = 3 \<and> prefix host (sender p)"

text \<open>The line of round \<open>i\<close> for a packet that does not end the program.\<close>

definition line_of :: "string \<Rightarrow> nat \<Rightarrow> string \<Rightarrow> string option \<times> hop" where
  "line_of a i p = (Some (probe_bytes (of_nat i) a), if expired p then Hop (i mod 65536) (sender p) else Stars (i mod 65536))"

definition trace_lines :: "string \<Rightarrow> nat \<Rightarrow> string list \<Rightarrow> (string option \<times> hop) list" where
  "trace_lines a k ps = map (\<lambda>(i, p). line_of a i p) (enumerate k ps)"

definition padded :: "string \<Rightarrow> string" where
  "padded p = take 50 p @ replicate (50 - length p) NUL"

lemma receive_packet: "receive p = Some (reply_of (padded p))"
  by (cases "length p \<le> 50") (simp_all add: receive_def padded_def put_bytes_def)

lemma padded_byte: "k < 50 \<Longrightarrow> byte_of (padded p ! k) = packet_byte p k"
  by (auto simp: padded_def packet_byte_def nth_append)

lemma reply_of_padded:
  "reply_of (padded p) = \<lparr> source = sender p, protocol = packet_byte p 9, icmp_type = packet_byte p 20 \<rparr>"
proof -
  have l: "length (padded p) = 50" by (simp add: padded_def)
  have c: "padded p ! k = char_of (packet_byte p k)" if "k < 50" for k
    using padded_byte [OF that, of p] by (metis char_of_char)
  have "take 4 (drop 12 (padded p)) = map (\<lambda>k. padded p ! k) [12, 13, 14, 15]"
    using l by (intro nth_equalityI) (auto simp: nth_append numeral_eq_Suc less_Suc_eq)
  then have "take 4 (drop 12 (padded p)) = map (\<lambda>k. char_of (packet_byte p k)) [12, 13, 14, 15]"
    by (simp add: c)
  then show ?thesis by (simp add: reply_of_def sender_def padded_byte)
qed

lemma unat_ttl: "unat (of_nat i :: 16 word) = i mod 65536"
  by (simp add: unat_of_nat)

lemma judge_packet:
  "judge host (of_nat i) (reply_of (padded p)) =
    (if unreachable_from host p then Reached (i mod 65536) (sender p)
     else if expired p then Hop (i mod 65536) (sender p) else Stars (i mod 65536))"
proof -
  have "take (length host) w = host \<longleftrightarrow> prefix host w" for w
    by (auto simp: prefix_def) (metis append_take_drop_id)
  then show ?thesis
    by (auto simp: judge_def reply_of_padded unat_ttl unreachable_from_def expired_def)
qed

lemma judge_cleared: "judge host (of_nat i) (reply_of (replicate 50 NUL)) = Stars (i mod 65536)"
  using judge_packet [of host i "[]"] by (simp add: padded_def unreachable_from_def expired_def packet_byte_def)

lemma trace_round_packet:
  assumes "length a = 4"
  shows "k < limit \<Longrightarrow> \<not> unreachable_from host p \<Longrightarrow> trace_round limit host a (of_nat k, k, p # ps) =
      Some (line_of a (Suc k) p, (of_nat (Suc k), Suc k, ps))"
    and "k < limit \<Longrightarrow> unreachable_from host p \<Longrightarrow> trace_round limit host a (of_nat k, k, p # ps) =
      Some ((Some (probe_bytes (of_nat (Suc k)) a), Reached (Suc k mod 65536) (sender p)), (of_nat (Suc k), Suc k, ps))"
    and "k < limit \<Longrightarrow> trace_round limit host a (of_nat k, k, []) =
      Some ((Some (probe_bytes (of_nat (Suc k)) a), Blocked), (of_nat (Suc k), Suc k, []))"
    and "limit \<le> q \<Longrightarrow> trace_round limit host a (of_nat k, q, ps) =
      Some ((None, Stars (Suc k mod 65536)), (of_nat (Suc k), q, ps))"
proof -
  have k: "of_nat k + 1 = (of_nat (Suc k) :: 16 word)" by simp
  note d = trace_round_def Let_def prod.case k
  show "k < limit \<Longrightarrow> \<not> unreachable_from host p \<Longrightarrow> trace_round limit host a (of_nat k, k, p # ps) =
      Some (line_of a (Suc k) p, (of_nat (Suc k), Suc k, ps))"
    "k < limit \<Longrightarrow> unreachable_from host p \<Longrightarrow> trace_round limit host a (of_nat k, k, p # ps) =
      Some ((Some (probe_bytes (of_nat (Suc k)) a), Reached (Suc k mod 65536) (sender p)), (of_nat (Suc k), Suc k, ps))"
    "k < limit \<Longrightarrow> trace_round limit host a (of_nat k, k, []) =
      Some ((Some (probe_bytes (of_nat (Suc k)) a), Blocked), (of_nat (Suc k), Suc k, []))"
    "limit \<le> q \<Longrightarrow> trace_round limit host a (of_nat k, q, ps) =
      Some ((None, Stars (Suc k mod 65536)), (of_nat (Suc k), q, ps))"
    unfolding d by (simp_all add: probe_sent [OF assms] receive_packet judge_packet judge_cleared line_of_def del: of_nat_Suc)
qed

lemma trace_lines_simps:
  "trace_lines a k [] = []"
  "trace_lines a k (p # ps) = line_of a k p # trace_lines a (Suc k) ps"
  by (simp_all add: trace_lines_def)

lemma line_of_not_over: "\<not> over (line_of a k p)"
  by (simp add: line_of_def)

lemma trace_rounds:
  assumes a: "length a = 4" and "\<forall>p \<in> set ps. \<not> unreachable_from host p" "k + length ps \<le> limit"
  shows "iterate over (trace_round limit host a) (length ps + n) (of_nat k, k, ps @ rs) =
    do { (ls, st) \<leftarrow> iterate over (trace_round limit host a) n (of_nat (k + length ps), k + length ps, rs);
         Some (trace_lines a (Suc k) ps @ ls, st) }"
  using assms(2,3)
proof (induction ps arbitrary: k)
  case (Cons p ps)
  then show ?case using Cons.IH [of "Suc k"] trace_round_packet(1) [OF a, of k limit host p "ps @ rs"]
    by (cases "iterate over (trace_round limit host a) n (of_nat (k + Suc (length ps)), k + Suc (length ps), rs)")
      (auto simp: trace_lines_simps line_of_not_over)
qed (simp add: trace_lines_simps split: bind_splits)

text \<open>With no descriptor left the rounds go on, sending nothing.\<close>

definition idle_lines :: "nat \<Rightarrow> nat \<Rightarrow> (string option \<times> hop) list" where
  "idle_lines k m = map (\<lambda>i. (None, Stars (i mod 65536))) [k ..< k + m]"

lemma idle_rounds:
  assumes "length a = 4" "limit \<le> q"
  shows "iterate over (trace_round limit host a) m (of_nat k, q, ps) = Some (idle_lines (Suc k) m, (of_nat (k + m), q, ps))"
proof (induction m arbitrary: k)
  case (Suc m)
  have "idle_lines (Suc k) (Suc m) = (None, Stars (Suc k mod 65536)) # idle_lines (Suc (Suc k)) m"
    by (simp add: idle_lines_def upt_rec [of "Suc k" "Suc (Suc (k + m))"] del: upt_Suc)
  then show ?case using Suc.IH [of "Suc k"] trace_round_packet(4) [OF assms, of host k ps] by simp
qed (simp add: idle_lines_def)

text \<open>
  C29.  For a host given as an address, round \<open>i\<close> sends a probe to it with time to live \<open>i\<close> and
  prints one line for the first packet its socket receives: the sender of an ICMP packet of
  type 11, or stars.  As long as there are descriptors, the program ends with the first ICMP
  packet of type 3, whatever its code, whose sender, as text, starts with the host, and not
  before, however many rounds that takes; and a round that receives nothing waits for ever.
  Every round keeps its socket, so after \<open>limit\<close> rounds the program sends nothing any more and
  prints stars without end, whatever answers there would be.  With no operand it only
  complains.
\<close>

theorem traceroute_rounds:
  assumes a: "length a = 4" "host = inet_ntop a" and ps: "\<forall>p \<in> set ps. \<not> unreachable_from host p"
  shows "(\<forall>n. length ps < limit \<and> length ps < n \<longrightarrow> traceroute limit g [prog, host] ps n =
      Some (Trace host (trace_lines a 1 ps @ [(Some (probe_bytes (of_nat (length ps + 1)) a), Blocked)]))) \<and>
    (\<forall>n p later. length ps < limit \<and> length ps < n \<and> unreachable_from host p \<longrightarrow>
      traceroute limit g [prog, host] (ps @ p # later) n = Some (Trace host (trace_lines a 1 ps @
        [(Some (probe_bytes (of_nat (length ps + 1)) a), Reached ((length ps + 1) mod 65536) (sender p))]))) \<and>
    (\<forall>m later. length ps = limit \<longrightarrow> traceroute limit g [prog, host] (ps @ later) (limit + m) =
      Some (Trace host (trace_lines a 1 ps @ idle_lines (limit + 1) m))) \<and>
    traceroute limit g [prog] ps n = Some Missing_host_operand"
proof (intro conjI allI impI)
  have pton: "inet_pton host = Some a" using inet_roundtrip a by simp
  note r = trace_rounds [OF a(1) ps, of 0 limit, simplified, folded One_nat_def]
    and one = trace_round_packet [OF a(1), of "length ps" limit host]
  have main: "traceroute limit g [prog, host] qs n = Some (Trace host ls)"
    if "iterate over (trace_round limit host a) n (0, 0, qs) = Some (ls, st)" for qs n ls st
    using that by (simp add: traceroute_def pton)
  show "traceroute limit g [prog] ps n = Some Missing_host_operand" by (simp add: traceroute_def)
  {
    fix n assume "length ps < limit \<and> length ps < n"
    then obtain m where n: "n = length ps + Suc m" and l: "length ps < limit" using less_iff_Suc_add by auto
    show "traceroute limit g [prog, host] ps n =
      Some (Trace host (trace_lines a 1 ps @ [(Some (probe_bytes (of_nat (length ps + 1)) a), Blocked)]))"
      by (rule main) (use r [of "Suc m" "[]"] one(3) l in \<open>simp add: n del: of_nat_Suc\<close>)
  }
  {
    fix n p later assume "length ps < limit \<and> length ps < n \<and> unreachable_from host p"
    then obtain m where n: "n = length ps + Suc m" and l: "length ps < limit" "unreachable_from host p"
      using less_iff_Suc_add by auto
    show "traceroute limit g [prog, host] (ps @ p # later) n = Some (Trace host (trace_lines a 1 ps @
        [(Some (probe_bytes (of_nat (length ps + 1)) a), Reached ((length ps + 1) mod 65536) (sender p))]))"
      by (rule main) (use r [of "Suc m" "p # later"] one(2) [of p later] l in \<open>simp add: n del: of_nat_Suc\<close>)
  }
  {
    fix m later assume l: "length ps = limit"
    show "traceroute limit g [prog, host] (ps @ later) (limit + m) =
      Some (Trace host (trace_lines a 1 ps @ idle_lines (limit + 1) m))"
      by (rule main) (use r [of m later] idle_rounds [OF a(1), of limit limit host m limit later] l in simp)
  }
qed

text \<open>A router answers the first probe; the second is answered by 10.0.0.17, which the program
  takes for 10.0.0.1.\<close>

definition icmp_packet :: "string \<Rightarrow> nat \<Rightarrow> string" where
  "icmp_packet src ty = ip_header (le16 28) (le16 0) 64 IPPROTO_ICMP (le16 0) src (replicate 4 NUL) @ [char_of ty]"

definition router_packet :: string where
  "router_packet = icmp_packet (map char_of [192 :: nat, 168, 1, 1]) 11"

definition neighbour_packet :: string where
  "neighbour_packet = icmp_packet (map char_of [10 :: nat, 0, 0, 17]) 3"

definition host_addr :: string where
  "host_addr = map char_of [10 :: nat, 0, 0, 1]"

lemma traceroute_rounds_witness:
  "traceroute 1021 (\<lambda>_. NUL) [''traceroute'', ''10.0.0.1''] [router_packet, neighbour_packet] 7 =
     Some (Trace ''10.0.0.1'' [(Some (probe_bytes 1 host_addr), Hop 1 ''192.168.1.1''),
       (Some (probe_bytes 2 host_addr), Reached 2 ''10.0.0.17'')]) \<and>
   traceroute 1 (\<lambda>_. NUL) [''traceroute'', ''10.0.0.1''] [router_packet, neighbour_packet] 3 =
     Some (Trace ''10.0.0.1'' [(Some (probe_bytes 1 host_addr), Hop 1 ''192.168.1.1''), (None, Stars 2), (None, Stars 3)])"
proof -
  have h: "''10.0.0.1'' = inet_ntop host_addr" "length host_addr = 4" by code_simp+
  have p: "sender router_packet = ''192.168.1.1''" "expired router_packet" "\<not> unreachable_from ''10.0.0.1'' router_packet"
    by code_simp+
  have q: "sender neighbour_packet = ''10.0.0.17''" "unreachable_from ''10.0.0.1'' neighbour_packet" by code_simp+
  have l: "trace_lines host_addr 1 [router_packet] = [(Some (probe_bytes 1 host_addr), Hop 1 ''192.168.1.1'')]"
    by (simp add: trace_lines_simps line_of_def p)
  have r: "\<forall>p \<in> set [router_packet]. \<not> unreachable_from ''10.0.0.1'' p" using p by simp
  note t = traceroute_rounds [OF h(2,1) r]
  have e: "length [router_packet] + 1 = 2" "(of_nat 2 :: 16 word) = 2" "(2 :: nat) mod 65536 = 2" by simp_all
  have "length [router_packet] < 1021 \<and> length [router_packet] < 7 \<and> unreachable_from ''10.0.0.1'' neighbour_packet"
    by (simp add: q(2))
  from t [THEN conjunct2, THEN conjunct1, THEN spec, THEN spec, THEN spec, THEN mp, OF this]
  have one: "traceroute 1021 (\<lambda>_. NUL) [''traceroute'', ''10.0.0.1''] ([router_packet] @ neighbour_packet # []) 7 =
      Some (Trace ''10.0.0.1'' (trace_lines host_addr 1 [router_packet] @
        [(Some (probe_bytes (of_nat (length [router_packet] + 1)) host_addr),
          Reached ((length [router_packet] + 1) mod 65536) (sender neighbour_packet))]))" .
  have "length [router_packet] = 1" by simp
  from t [THEN conjunct2, THEN conjunct2, THEN conjunct1, THEN spec, THEN spec, THEN mp, OF this]
  have two: "traceroute 1 (\<lambda>_. NUL) [''traceroute'', ''10.0.0.1''] ([router_packet] @ [neighbour_packet]) (1 + 2) =
      Some (Trace ''10.0.0.1'' (trace_lines host_addr 1 [router_packet] @ idle_lines (1 + 1) 2))" .
  have i: "idle_lines (1 + 1) 2 = [(None, Stars 2), (None, Stars 3)]"
    by (simp add: idle_lines_def upt_rec)
  have "(1 + 2 :: nat) = 3" by simp
  with one two show ?thesis by (simp only: e i l q append.simps)
qed

end
