(* ===== verification/EchoServers.thy ===== *)
theory EchoServers
  imports Packets Stdio
begin

text \<open>
  The servers that answer a request in capitals, with their clients: \<open>echo_TCP\<close>,
  \<open>echo_UDP\<close>, \<open>unix_sockets\<close>, and the senders and receivers of \<open>broadcast\<close> and
  \<open>multicast\<close>.  A server is what it does with one request (the bytes \<open>recv\<close> yields) on
  the buffer left by the one before; the buffer of the first request is uninitialised.
  All but the ones that only print are \<open>responder\<close>s.
\<close>

section \<open>Addresses\<close>

text \<open>Where a socket is bound or connected to.  \<open>peer_reaches\<close> says that what is sent to one
  endpoint arrives at the socket bound to the other.\<close>

datatype sock_kind = Stream | Dgram

datatype address = Inet nat nat | Unix string

type_synonym endpoint = "sock_kind \<times> address"

definition INADDR_ANY :: nat where "INADDR_ANY = 0"
definition INADDR_LOOPBACK :: nat where "INADDR_LOOPBACK = 0x7f000001"

text \<open>\<open>inet_addr("192.168.1.255")\<close> and \<open>inet_addr("224.0.0.1")\<close>, in host byte order.\<close>

definition BROADCAST_ADDR :: nat where "BROADCAST_ADDR = 0xc0a801ff"
definition MULTICAST_ADDR :: nat where "MULTICAST_ADDR = 0xe0000001"

fun address_reaches :: "address \<Rightarrow> address \<Rightarrow> bool" where
  "address_reaches (Inet a p) (Inet b q) \<longleftrightarrow> p = q \<and> (a = b \<or> b = INADDR_ANY)"
| "address_reaches (Unix a) (Unix b) \<longleftrightarrow> a = b"
| "address_reaches _ _ \<longleftrightarrow> False"

definition peer_reaches :: "endpoint \<Rightarrow> endpoint \<Rightarrow> bool" where
  "peer_reaches c s \<longleftrightarrow> fst c = fst s \<and> address_reaches (snd c) (snd s)"

section \<open>The servers\<close>

definition echo_tcp_serve :: "buffer \<Rightarrow> string \<Rightarrow> (string \<times> buffer) option" where
  "echo_tcp_serve buf req = do {
     (n, buf) \<leftarrow> recv_into buf 128 req;
     buf \<leftarrow> capitals n buf;
     let reply = take 128 buf;
     buf \<leftarrow> memset buf NUL 128;
     Some (reply, buf)
   }"

definition echo_udp_serve :: "buffer \<Rightarrow> string \<Rightarrow> (string \<times> buffer) option" where
  "echo_udp_serve buf req = do {
     (n, buf) \<leftarrow> recv_into buf 128 req;
     buf \<leftarrow> capitals n buf;
     let reply = take n buf;
     buf \<leftarrow> memset buf NUL 128;
     Some (reply, buf)
   }"

text \<open>\<open>s1.c\<close> also prints the request as a string.\<close>

definition unix_dgram_serve :: "buffer \<Rightarrow> string \<Rightarrow> ((string \<times> string) \<times> buffer) option" where
  "unix_dgram_serve buf req = do {
     (n, buf) \<leftarrow> recv_into buf 100 req;
     printed \<leftarrow> cstr buf;
     buf \<leftarrow> capitals n buf;
     let reply = take n buf;
     buf \<leftarrow> memset buf NUL 100;
     Some ((printed, reply), buf)
   }"

text \<open>\<open>socket1.c\<close> only prints the request.\<close>

definition unix_stream_serve :: "buffer \<Rightarrow> string \<Rightarrow> (string \<times> buffer) option" where
  "unix_stream_serve buf req = do {
     (n, buf) \<leftarrow> recv_into buf 100 req;
     printed \<leftarrow> cstr buf;
     buf \<leftarrow> memset buf NUL 100;
     Some (printed, buf)
   }"

text \<open>The receivers of broadcast and multicast messages clear their buffer first.\<close>

definition broadcast_receive :: "buffer \<Rightarrow> string \<Rightarrow> (string \<times> buffer) option" where
  "broadcast_receive buf msg = do {
     buf \<leftarrow> memset buf NUL 64;
     (n, buf) \<leftarrow> recv_into buf 64 msg;
     printed \<leftarrow> cstr buf;
     Some (printed, buf)
   }"

definition multicast_receive :: "buffer \<Rightarrow> string \<Rightarrow> (string \<times> buffer) option" where
  "multicast_receive buf msg = do {
     buf \<leftarrow> memset buf NUL 64;
     (n, buf) \<leftarrow> recv_into buf 64 msg;
     printed \<leftarrow> cstr buf;
     Some (printed, buf)
   }"

section \<open>The clients\<close>

text \<open>A client is what it sends for the line typed, and what it prints for the reply.\<close>

definition echo_tcp_request :: "(nat \<Rightarrow> char) \<Rightarrow> string \<Rightarrow> string option" where
  "echo_tcp_request g inp = do {
     str \<leftarrow> read_message (fresh_block g 128) 128 inp;
     Some (take 128 str)
   }"

definition echo_tcp_print :: "(nat \<Rightarrow> char) \<Rightarrow> string \<Rightarrow> string option" where
  "echo_tcp_print g reply = do { (n, buf) \<leftarrow> recv_into (fresh_block g 128) 128 reply; cstr buf }"

text \<open>\<open>echo_UDP/client.c\<close> means to cut off the newline, but writes the zero byte into \<open>buf\<close>.\<close>

definition echo_udp_request :: "(nat \<Rightarrow> nat \<Rightarrow> char) \<Rightarrow> string \<Rightarrow> (string \<times> buffer) option" where
  "echo_udp_request g inp = do {
     (str, rest) \<leftarrow> fgets (fresh_block (g 0) 128) 128 inp;
     n \<leftarrow> strlen str;
     buf \<leftarrow> (if n = 0 then None else buf_set (fresh_block (g 1) 128) (n - 1) NUL);
     Some (take 128 str, buf)
   }"

definition echo_udp_print :: "buffer \<Rightarrow> string \<Rightarrow> string option" where
  "echo_udp_print buf reply = do { (n, buf) \<leftarrow> recv_into buf 128 reply; cstr buf }"

definition unix_dgram_request :: "(nat \<Rightarrow> char) \<Rightarrow> string \<Rightarrow> string option" where
  "unix_dgram_request g inp = do { buf \<leftarrow> read_message (fresh_block g 100) 100 inp; cstr buf }"

definition unix_dgram_print :: "(nat \<Rightarrow> char) \<Rightarrow> string \<Rightarrow> string option" where
  "unix_dgram_print g reply = do { (n, resp) \<leftarrow> recv_into (fresh_block g 100) 100 reply; cstr resp }"

definition unix_stream_request :: "(nat \<Rightarrow> char) \<Rightarrow> string \<Rightarrow> string option" where
  "unix_stream_request g inp = do { buf \<leftarrow> read_message (fresh_block g 100) 100 inp; cstr buf }"

definition broadcast_send :: "string \<Rightarrow> string option" where
  "broadcast_send inp = do { (buf, rest) \<leftarrow> scanf_s (replicate 64 NUL) inp; Some (take 64 buf) }"

definition multicast_send :: "string \<Rightarrow> string option" where
  "multicast_send inp = do { (buf, rest) \<leftarrow> scanf_s (replicate 64 NUL) inp; Some (take 64 buf) }"

section \<open>Whole programs\<close>

text \<open>A server: the endpoint it binds and its answers; a client: the endpoint it talks to, its
  request, and what it prints when \<open>reply\<close> comes back.\<close>

definition echo_tcp_server :: "(nat \<Rightarrow> char) \<Rightarrow> string list \<Rightarrow> endpoint \<times> string list option" where
  "echo_tcp_server g reqs = ((Stream, Inet INADDR_ANY 3200), serve_all echo_tcp_serve (fresh_block g 128) reqs)"

definition echo_udp_server :: "(nat \<Rightarrow> char) \<Rightarrow> string list \<Rightarrow> endpoint \<times> string list option" where
  "echo_udp_server g reqs = ((Dgram, Inet INADDR_ANY 3200), serve_all echo_udp_serve (fresh_block g 128) reqs)"

definition unix_dgram_server :: "(nat \<Rightarrow> char) \<Rightarrow> string list \<Rightarrow> endpoint \<times> (string \<times> string) list option" where
  "unix_dgram_server g reqs = ((Dgram, Unix ''/tmp/server''), serve_all unix_dgram_serve (fresh_block g 100) reqs)"

definition unix_stream_server :: "string list \<Rightarrow> endpoint \<times> string list option" where
  "unix_stream_server reqs = ((Stream, Unix ''/tmp/mysock''), serve_all unix_stream_serve (replicate 100 NUL) reqs)"

definition broadcast_receiver :: "(nat \<Rightarrow> char) \<Rightarrow> string list \<Rightarrow> endpoint \<times> string list option" where
  "broadcast_receiver g msgs = ((Dgram, Inet BROADCAST_ADDR 3200), serve_all broadcast_receive (fresh_block g 64) msgs)"

definition multicast_receiver :: "(nat \<Rightarrow> char) \<Rightarrow> string list \<Rightarrow> endpoint \<times> string list option" where
  "multicast_receiver g msgs = ((Dgram, Inet MULTICAST_ADDR 3200), serve_all multicast_receive (fresh_block g 64) msgs)"

definition echo_tcp_client :: "(nat \<Rightarrow> nat \<Rightarrow> char) \<Rightarrow> string \<Rightarrow> string \<Rightarrow> (endpoint \<times> string \<times> string) option" where
  "echo_tcp_client g inp reply = do {
     req \<leftarrow> echo_tcp_request (g 0) inp;
     out \<leftarrow> echo_tcp_print (g 1) reply;
     Some ((Stream, Inet INADDR_LOOPBACK 3200), req, out)
   }"

definition echo_udp_client :: "(nat \<Rightarrow> nat \<Rightarrow> char) \<Rightarrow> string \<Rightarrow> string \<Rightarrow> (endpoint \<times> string \<times> string) option" where
  "echo_udp_client g inp reply = do {
     (req, buf) \<leftarrow> echo_udp_request g inp;
     out \<leftarrow> echo_udp_print buf reply;
     Some ((Dgram, Inet INADDR_ANY 3200), req, out)
   }"

text \<open>\<open>c1.c\<close> binds its own socket to \<open>/tmp/server.<pid>\<close>, so that the server can reply.\<close>

definition unix_dgram_client ::
  "(nat \<Rightarrow> nat \<Rightarrow> char) \<Rightarrow> string \<Rightarrow> string \<Rightarrow> string \<Rightarrow> (endpoint \<times> endpoint \<times> string \<times> string) option" where
  "unix_dgram_client g pid inp reply = do {
     req \<leftarrow> unix_dgram_request (g 0) inp;
     out \<leftarrow> unix_dgram_print (g 1) reply;
     Some ((Dgram, Unix (''/tmp/server.'' @ pid)), (Dgram, Unix ''/tmp/server''), req, out)
   }"

definition unix_stream_client :: "(nat \<Rightarrow> char) \<Rightarrow> string \<Rightarrow> (endpoint \<times> string) option" where
  "unix_stream_client g inp = do {
     req \<leftarrow> unix_stream_request g inp;
     Some ((Stream, Unix ''/tmp/mysock''), req)
   }"

definition broadcast_sender :: "string \<Rightarrow> (endpoint \<times> string) option" where
  "broadcast_sender inp = do { m \<leftarrow> broadcast_send inp; Some ((Dgram, Inet BROADCAST_ADDR 3200), m) }"

definition multicast_sender :: "string \<Rightarrow> (endpoint \<times> string) option" where
  "multicast_sender inp = do { m \<leftarrow> multicast_send inp; Some ((Dgram, Inet MULTICAST_ADDR 3200), m) }"

section \<open>Servers as responders\<close>

lemma echo_tcp_run:
  assumes "length buf = 128"
  shows "echo_tcp_serve buf req =
    Some (map toupper (take 128 req) @ drop (length (take 128 req)) buf, replicate 128 NUL)"
  using recv_into_Some [of 128 buf req] assms
  by (simp add: echo_tcp_serve_def capitals_Some memset_all)

lemma echo_udp_run:
  assumes "length buf = 128"
  shows "echo_udp_serve buf req = Some (map toupper (take 128 req), replicate 128 NUL)"
  using recv_into_Some [of 128 buf req] assms
  by (simp add: echo_udp_serve_def capitals_Some memset_all)

interpretation tcp: responder echo_tcp_serve "\<lambda>b. length b = 128" 128
  by unfold_locales (simp add: echo_tcp_run)

interpretation udp: responder echo_udp_serve "\<lambda>b. length b = 128" 128
  by unfold_locales (simp add: echo_udp_run)


section \<open>Clients and servers together\<close>

text \<open>
  The TCP server answers every request of a session, of any content and length, with
  its first 128 bytes in capitals and fills the reply up to 128 bytes: with zeros, so that
  no request leaks into the reply to a later one, except for the first reply of all, which
  carries whatever the uninitialised buffer held.
\<close>

theorem echo_tcp_no_leak:
  "snd (echo_tcp_server g (q # qs)) =
     Some ((map toupper (take 128 q) @ drop (length (take 128 q)) (fresh_block g 128)) #
       map (\<lambda>q. map toupper (take 128 q) @ replicate (128 - length q) NUL) qs)"
proof -
  have "serve_all echo_tcp_serve (replicate 128 NUL) qs =
      Some (map (\<lambda>q. map toupper (take 128 q) @ replicate (128 - length q) NUL) qs)" for qs
    by (induction qs) (simp_all add: echo_tcp_run min_def)
  then show ?thesis by (simp add: echo_tcp_server_def echo_tcp_run)
qed

lemma echo_tcp_request_line:
  assumes "NL \<notin> set line" "NUL \<notin> set line" "length line \<le> 126"
  shows "\<exists>z. echo_tcp_request g (line @ NL # rest) = Some (line @ NUL # z)"
proof -
  obtain r where r: "read_message (fresh_block g 128) 128 (line @ NL # rest) = Some (line @ NUL # r)"
    using read_message_line [OF assms(1,2), of 128] assms(3) by auto
  obtain k where "128 - length line = Suc k" using assms(3) by (cases "128 - length line") auto
  then have "take 128 (line @ NUL # r) = line @ NUL # take k r" using assms(3) by simp
  then show ?thesis using r by (simp add: echo_tcp_request_def)
qed

lemma echo_udp_request_line:
  assumes "NL \<notin> set line" "NUL \<notin> set line" "length line \<le> 126"
  shows "\<exists>z buf. echo_udp_request g (line @ NL # rest) = Some ((line @ [NL]) @ NUL # z, buf) \<and> length buf = 128"
proof -
  let ?r = "drop (length line + 2) (fresh_block (g 0) 128)"
  have f: "fgets (fresh_block (g 0) 128) 128 (line @ NL # rest) = Some (line @ NL # NUL # ?r, rest)"
    using assms by (intro fgets_line) simp_all
  have "cstr ((line @ [NL]) @ NUL # ?r) = Some (line @ [NL])" using assms(2) by (intro cstr_append) simp
  then have l: "strlen (line @ NL # NUL # ?r) = Some (length line + 1)" by (simp add: strlen_Some)
  have "take 128 (line @ NL # NUL # ?r) = (line @ [NL]) @ NUL # ?r" using assms(3) by simp
  then show ?thesis using f l assms(3) by (simp add: echo_udp_request_def buf_set_def)
qed

lemma echo_tcp_client_served:
  assumes line: "NL \<notin> set line" "NUL \<notin> set line" "length line \<le> 126" and b: "length b = 128"
  shows "\<exists>peer req reply b'. echo_tcp_serve b req = Some (reply, b') \<and>
      echo_tcp_client g (line @ NL # rest) reply = Some (peer, req, map toupper line) \<and>
      peer_reaches peer (fst (echo_tcp_server h reqs))"
proof -
  obtain z where z: "echo_tcp_request (g 0) (line @ NL # rest) = Some (line @ NUL # z)"
    using echo_tcp_request_line [OF line] by blast
  obtain r s' n c where r: "echo_tcp_serve b (line @ NUL # z) = Some (r, s')"
      "recv_into (fresh_block (g 1) 128) 128 r = Some (n, c)" "cstr c = Some (map toupper line)"
    using tcp.client_prints [OF b line(2), of "fresh_block (g 1) 128" z] line(3) by auto
  with z have "echo_tcp_client g (line @ NL # rest) r = Some ((Stream, Inet INADDR_LOOPBACK 3200), line @ NUL # z, map toupper line)"
    by (simp add: echo_tcp_client_def echo_tcp_print_def)
  moreover have "peer_reaches (Stream, Inet INADDR_LOOPBACK 3200) (fst (echo_tcp_server h reqs))"
    by (simp add: echo_tcp_server_def peer_reaches_def)
  ultimately show ?thesis using r by blast
qed

text \<open>
  C30.  The clients talk to the endpoint their server binds, and a line of at most 126 bytes
  typed into them comes back in capitals: over TCP exactly, over UDP with the newline the
  client forgets to cut off.
\<close>

theorem echo_roundtrips:
  assumes line: "NL \<notin> set line" "NUL \<notin> set line" "length line \<le> 126" and b: "length b = 128"
  shows "(\<exists>peer req reply b'. echo_tcp_serve b req = Some (reply, b') \<and>
      echo_tcp_client g (line @ NL # rest) reply = Some (peer, req, map toupper line) \<and>
      peer_reaches peer (fst (echo_tcp_server h reqs))) \<and>
    (\<exists>peer req reply b'. echo_udp_serve b req = Some (reply, b') \<and>
      echo_udp_client g (line @ NL # rest) reply = Some (peer, req, map toupper line @ [NL]) \<and>
      peer_reaches peer (fst (echo_udp_server h reqs)))"
proof
  show "\<exists>peer req reply b'. echo_tcp_serve b req = Some (reply, b') \<and>
      echo_tcp_client g (line @ NL # rest) reply = Some (peer, req, map toupper line) \<and>
      peer_reaches peer (fst (echo_tcp_server h reqs))" by (rule echo_tcp_client_served [OF line b])
next
  obtain z buf where z: "echo_udp_request g (line @ NL # rest) = Some ((line @ [NL]) @ NUL # z, buf)" "length buf = 128"
    using echo_udp_request_line [OF line] by blast
  have n: "NUL \<notin> set (line @ [NL])" using line(2) by simp
  have up: "toupper NL = NL" by code_simp
  obtain r s' k c where r: "echo_udp_serve b ((line @ [NL]) @ NUL # z) = Some (r, s')"
      "recv_into buf 128 r = Some (k, c)" "cstr c = Some (map toupper (line @ [NL]))"
    using udp.client_prints [OF b n, of buf z] line(3) z(2) by auto
  with z up have "echo_udp_client g (line @ NL # rest) r =
      Some ((Dgram, Inet INADDR_ANY 3200), (line @ [NL]) @ NUL # z, map toupper line @ [NL])"
    by (simp add: echo_udp_client_def echo_udp_print_def)
  moreover have "peer_reaches (Dgram, Inet INADDR_ANY 3200) (fst (echo_udp_server h reqs))"
    by (simp add: echo_udp_server_def peer_reaches_def)
  ultimately show "\<exists>peer req reply b'. echo_udp_serve b req = Some (reply, b') \<and>
      echo_udp_client g (line @ NL # rest) reply = Some (peer, req, map toupper line @ [NL]) \<and>
      peer_reaches peer (fst (echo_udp_server h reqs))" using r by blast
qed

lemma echo_roundtrips_witness:
  "\<exists>peer req reply b'. echo_tcp_serve (replicate 128 NUL) req = Some (reply, b') \<and>
      echo_tcp_client (\<lambda>_ _. NUL) (''hi'' @ NL # []) reply = Some (peer, req, map toupper ''hi'') \<and>
      peer_reaches peer (fst (echo_tcp_server (\<lambda>_. NUL) []))"
  using echo_roundtrips [of "''hi''" "replicate 128 NUL" "\<lambda>_ _. NUL" "[]" "\<lambda>_. NUL" "[]"] by simp

lemma other_peers:
  "peer_reaches (Dgram, Unix ''/tmp/server'') (fst (unix_dgram_server g reqs))"
  "peer_reaches (Stream, Unix ''/tmp/mysock'') (fst (unix_stream_server reqs))"
  "broadcast_sender inp = Some (e, m) \<Longrightarrow> peer_reaches e (fst (broadcast_receiver g msgs))"
  "multicast_sender inp = Some (e, m) \<Longrightarrow> peer_reaches e (fst (multicast_receiver g msgs))"
  by (auto simp: peer_reaches_def unix_dgram_server_def unix_stream_server_def broadcast_sender_def
      broadcast_receiver_def multicast_sender_def multicast_receiver_def split: bind_splits)

text \<open>The datagram sockets: a reply has no zero byte, so what the client prints depends on
  the uninitialised array behind it.\<close>

lemma unix_dgram_run:
  assumes "length buf = 100" "cstr (take 100 req @ drop (length (take 100 req)) buf) = Some s"
  shows "unix_dgram_serve buf req = Some ((s, map toupper (take 100 req)), replicate 100 NUL)"
  using recv_into_Some [of 100 buf req] assms
  by (simp add: unix_dgram_serve_def capitals_Some memset_all)

text \<open>Broadcast and multicast carry any word of less than 64 bytes unchanged.\<close>

lemma broadcast_word:
  assumes "scan_word inp = (w, rest)" "w \<noteq> []" "NUL \<notin> set w" "length w < 64" "length buf = 64"
  shows "\<exists>m buf'. broadcast_send inp = Some m \<and> broadcast_receive buf m = Some (w, buf') \<and>
    multicast_send inp = Some m \<and> multicast_receive buf m = Some (w, buf')"
proof -
  let ?m = "w @ NUL # drop (Suc (length w)) (replicate 64 NUL)"
  have s: "scanf_s (replicate 64 NUL) inp = Some (?m, rest)" using scanf_s_scan [OF assms(1,2)] assms(4) by simp
  have len: "length ?m = 64" using assms(4) by simp
  have "recv_into (replicate 64 NUL) 64 ?m = Some (64, ?m)" using recv_into_Some [of 64 "replicate 64 NUL" ?m] len by simp
  then have "broadcast_receive buf ?m = Some (w, ?m)" "multicast_receive buf ?m = Some (w, ?m)"
    using assms(3,5) by (simp_all add: broadcast_receive_def multicast_receive_def memset_all)
  moreover have "broadcast_send inp = Some ?m" "multicast_send inp = Some ?m"
    using s len by (simp_all add: broadcast_send_def multicast_send_def)
  ultimately show ?thesis by blast
qed

end
