(* ===== verification/Descriptors.thy ===== *)
theory Descriptors
  imports EchoServers
begin

text \<open>
  The descriptor table of a server process and the socket calls on it, for the models of
  the servers whose threads pass descriptors around: \<open>accept\<close> returns the lowest free
  number, \<open>recv\<close> and \<open>send\<close> fail on a number that is no connection, and a closed number is
  given away again.
\<close>

section \<open>The table\<close>

text \<open>What a descriptor stands for; a connection is known by the number of its \<open>accept\<close>.\<close>

datatype open_file = Terminal | Clients | Listening | Conn nat

type_synonym fd_table = "(nat \<times> open_file) list"

definition lowest_free :: "fd_table \<Rightarrow> nat" where
  "lowest_free tbl = hd (filter (\<lambda>d. d \<notin> fst ` set tbl) [0..<Suc (length tbl)])"

definition conn_at :: "fd_table \<Rightarrow> int \<Rightarrow> nat option" where
  "conn_at tbl d = (if d < 0 then None else case map_of tbl (nat d) of Some (Conn c) \<Rightarrow> Some c | _ \<Rightarrow> None)"

fun is_conn :: "open_file \<Rightarrow> bool" where
  "is_conn (Conn c) = True"
| "is_conn f = False"

definition conns :: "fd_table \<Rightarrow> fd_table" where
  "conns tbl = filter (\<lambda>e. is_conn (snd e)) tbl"

section \<open>Calls\<close>

text \<open>\<open>recv\<close> and the loop after it; on a descriptor that is no connection \<open>recv\<close> returns -1 and
  the loop does nothing.\<close>

definition recv_request :: "(nat \<Rightarrow> string) \<Rightarrow> fd_table \<Rightarrow> int \<Rightarrow> buffer \<Rightarrow> (nat option \<times> buffer) option" where
  "recv_request request tbl d b = (case conn_at tbl d of
       None \<Rightarrow> Some (None, b)
     | Some c \<Rightarrow> do { (n, b) \<leftarrow> recv_into b 128 (request c); b \<leftarrow> capitals n b; Some (Some c, b) })"

definition send_reply :: "fd_table \<Rightarrow> int \<Rightarrow> nat option \<Rightarrow> buffer \<Rightarrow> (nat \<times> nat option \<times> string) list" where
  "send_reply tbl d c b = (case conn_at tbl d of None \<Rightarrow> [] | Some c' \<Rightarrow> [(c', c, take 128 b)])"

definition close_fd :: "int \<Rightarrow> fd_table \<Rightarrow> fd_table" where
  "close_fd d tbl = filter (\<lambda>e. int (fst e) \<noteq> d) tbl"

text \<open>What every one of the four servers owes a request: 128 bytes that begin with the first 128
  bytes of the request in capitals.\<close>

definition answers :: "string \<Rightarrow> string \<Rightarrow> bool" where
  "answers req r \<longleftrightarrow> length r = 128 \<and> take (length (take 128 req)) r = map toupper (take 128 req)"

definition replies_ok :: "(nat \<Rightarrow> string) \<Rightarrow> (nat \<times> nat option \<times> string) list \<Rightarrow> bool" where
  "replies_ok request rs \<longleftrightarrow> (\<forall>(c', c, r) \<in> set rs. c = Some c' \<and> answers (request c') r)"

section \<open>Facts\<close>

lemma lowest_free:
  "lowest_free tbl \<le> length tbl" "lowest_free tbl \<notin> fst ` set tbl"
proof -
  let ?P = "\<lambda>d. d \<notin> fst ` set tbl"
  have "filter ?P [0..<Suc (length tbl)] \<noteq> []"
  proof
    assume "filter ?P [0..<Suc (length tbl)] = []"
    then have "{0..<Suc (length tbl)} \<subseteq> fst ` set tbl" by (auto simp del: upt_Suc simp: filter_empty_conv)
    then have "card {0..<Suc (length tbl)} \<le> card (fst ` set tbl)" by (intro card_mono) simp_all
    also have "\<dots> \<le> length tbl" using card_image_le [of "set tbl" fst] card_length [of tbl] by simp
    finally show False by simp
  qed
  then have "lowest_free tbl \<in> set (filter ?P [0..<Suc (length tbl)])"
    unfolding lowest_free_def by (rule hd_in_set)
  then show "lowest_free tbl \<le> length tbl" "lowest_free tbl \<notin> fst ` set tbl"
    unfolding set_filter set_upt by simp_all
qed

lemma conn_at_iff: "distinct (map fst tbl) \<Longrightarrow> conn_at tbl d = Some c \<longleftrightarrow> 0 \<le> d \<and> (nat d, Conn c) \<in> set tbl"
  by (auto simp: conn_at_def map_of_eq_Some_iff split: option.splits open_file.splits
      dest: map_of_is_SomeI eq_key_imp_eq_value)

lemma conn_at_Cons: "e \<noteq> int d \<Longrightarrow> conn_at ((d, f) # tbl) e = conn_at tbl e"
  by (auto simp: conn_at_def)

lemma conn_at_close: "e \<noteq> d \<Longrightarrow> conn_at (close_fd d tbl) e = conn_at tbl e"
proof -
  assume "e \<noteq> d"
  then have "map_of (close_fd d tbl) (nat e) = map_of tbl (nat e)" if "0 \<le> e"
    using that unfolding close_fd_def by (induction tbl) auto
  then show ?thesis by (simp add: conn_at_def)
qed

lemma recv_request_some:
  assumes "recv_request request tbl d b = Some (c, b')" "length b = 128"
  shows "c = conn_at tbl d \<and> length b' = 128 \<and> (\<forall>k. c = Some k \<longrightarrow> answers (request k) b')"
proof (cases "conn_at tbl d")
  case None
  then show ?thesis using assms by (simp add: recv_request_def)
next
  case (Some k)
  let ?n = "length (take 128 (request k))"
  have "b' = map toupper (take 128 (request k)) @ drop ?n b"
    using assms Some recv_into_Some [of 128 b "request k"] by (simp add: recv_request_def capitals_Some)
  moreover have "c = Some k" using assms(1) Some by (auto simp: recv_request_def split: bind_splits)
  ultimately show ?thesis using Some assms(2) by (simp add: answers_def)
qed

end
