(* ===== verification/ServerModels.thy ===== *)
theory ServerModels
  imports Descriptors MsgQueue
begin

text \<open>
  The four ways to serve several clients of \<open>server models/\<close>: a thread per connection (1),
  ten threads that accept (2), ten threads fed by a message queue (3), ten threads that
  select among five sockets (4).  All of them answer as the TCP echo server does, with a
  buffer per thread; their clients are copies of its client.  Here are the clients, the messages
  of the third model and one round of the fourth; the servers with their threads are the
  theories ThreadServer, AcceptServer, QueueServer and SelectServer.
\<close>

section \<open>The clients\<close>

definition model1_client :: "(nat \<Rightarrow> nat \<Rightarrow> char) \<Rightarrow> string \<Rightarrow> string \<Rightarrow> (endpoint \<times> string \<times> string) option" where
  "model1_client g inp reply = echo_tcp_client g inp reply"

definition model2_client :: "(nat \<Rightarrow> nat \<Rightarrow> char) \<Rightarrow> string \<Rightarrow> string \<Rightarrow> (endpoint \<times> string \<times> string) option" where
  "model2_client g inp reply = echo_tcp_client g inp reply"

definition model3_client :: "(nat \<Rightarrow> nat \<Rightarrow> char) \<Rightarrow> string \<Rightarrow> string \<Rightarrow> (endpoint \<times> string \<times> string) option" where
  "model3_client g inp reply = echo_tcp_client g inp reply"

definition model4_client :: "(nat \<Rightarrow> nat \<Rightarrow> char) \<Rightarrow> string \<Rightarrow> string \<Rightarrow> (endpoint \<times> string \<times> string) option" where
  "model4_client g inp reply = echo_tcp_client g inp reply"

section \<open>Model 3: a queue of connections\<close>

text \<open>\<open>main\<close> sends the descriptor as one \<open>char\<close>, which is signed, and a zero byte.\<close>

definition fd_message :: "nat \<Rightarrow> string" where
  "fd_message cfd = [char_of cfd, NUL]"

definition fd_of_message :: "buffer \<Rightarrow> int" where
  "fd_of_message m = (let b = int (byte_of (m ! 0)) in if b < 128 then b else b - 256)"

text \<open>The queue is opened without \<open>O_NONBLOCK\<close>: \<open>main\<close> waits while it is full (\<open>None\<close>), a
  thread while it is empty.\<close>

definition model3_accept :: "nat \<Rightarrow> mq \<Rightarrow> mq option" where
  "model3_accept cfd q =
     (if length (mq_msgs q) < mq_maxmsg q then mq_send q (fd_message cfd) 2 else None)"

definition model3_take :: "mq \<Rightarrow> (int \<times> mq) option" where
  "model3_take q = do {
     (ok, message, q') \<leftarrow> mq_receive q [NUL, NUL] 2;
     (if ok then Some (fd_of_message message, q') else None)
   }"

definition model3_queue :: mq where
  "model3_queue = \<lparr> mq_maxmsg = 10, mq_msgsize = 2, mq_msgs = [] \<rparr>"

fun takes :: "nat \<Rightarrow> mq \<Rightarrow> (int list \<times> mq) option" where
  "takes 0 q = Some ([], q)"
| "takes (Suc n) q = do { (c, q) \<leftarrow> model3_take q; (cs, q) \<leftarrow> takes n q; Some (c # cs, q) }"

lemma fd_roundtrip: "cfd < 256 \<Longrightarrow> fd_of_message (fd_message cfd) = (if cfd < 128 then int cfd else int cfd - 256)"
  by (simp add: fd_of_message_def fd_message_def Let_def)

lemma accepts_queue:
  assumes "mq_msgsize q = 2" "length (mq_msgs q) + length cs \<le> mq_maxmsg q"
  shows "fold_opt model3_accept cs q = Some (q \<lparr> mq_msgs := mq_msgs q @ map fd_message cs \<rparr>)"
  using assms
proof (induction cs arbitrary: q)
  case (Cons c cs)
  have "model3_accept c q = Some (q \<lparr> mq_msgs := mq_msgs q @ [fd_message c] \<rparr>)"
    using Cons.prems by (simp add: model3_accept_def mq_send_def mq_push_def mq_fits_def fd_message_def)
  then show ?case using Cons by simp
qed simp

lemma takes_queue:
  "mq_msgsize q = 2 \<Longrightarrow> mq_msgs q = map fd_message cs \<Longrightarrow>
   takes (length cs) q = Some (map (\<lambda>c. fd_of_message (fd_message c)) cs, q \<lparr> mq_msgs := [] \<rparr>)"
proof (induction cs arbitrary: q)
  case (Cons c cs)
  have "model3_take q = Some (fd_of_message (fd_message c), q \<lparr> mq_msgs := map fd_message cs \<rparr>)"
    using Cons.prems by (simp add: model3_take_def mq_receive_def mq_pop_def put_bytes_def fd_message_def)
  then show ?case using Cons.IH [of "q \<lparr> mq_msgs := map fd_message cs \<rparr>"] Cons.prems by simp
qed simp

text \<open>
  Up to ten waiting connections are handed to the threads in the order in which they
  were accepted, each under its own descriptor if and only if that is below 128: a
  descriptor from 128 to 255 arrives as a negative number and is never served.
\<close>

theorem model3_dispatch:
  assumes "length cs \<le> 10" "\<forall>c \<in> set cs. c < 256"
  shows "\<exists>q ds. fold_opt model3_accept cs model3_queue = Some q \<and> takes (length cs) q = Some (ds, model3_queue) \<and>
    (ds = map int cs \<longleftrightarrow> (\<forall>c \<in> set cs. c < 128)) \<and>
    (\<forall>i < length cs. 128 \<le> cs ! i \<longrightarrow> ds ! i < 0)"
proof -
  let ?q = "model3_queue \<lparr> mq_msgs := map fd_message cs \<rparr>"
  let ?ds = "map (\<lambda>c. fd_of_message (fd_message c)) cs"
  have "fold_opt model3_accept cs model3_queue = Some ?q"
    using accepts_queue [of model3_queue cs] assms(1) by (simp add: model3_queue_def)
  moreover have "takes (length cs) ?q = Some (?ds, model3_queue)"
    using takes_queue [of ?q cs] by (simp add: model3_queue_def)
  moreover have r: "fd_of_message (fd_message c) = (if c < 128 then int c else int c - 256)" if "c \<in> set cs" for c
    using assms(2) that by (intro fd_roundtrip) simp
  then have "?ds = map int cs \<longleftrightarrow> (\<forall>c \<in> set cs. c < 128)" by (auto simp: map_eq_conv split: if_splits)
  moreover have "?ds ! i < 0" if "i < length cs" "128 \<le> cs ! i" for i
  proof -
    have "cs ! i \<in> set cs" "cs ! i < 256" using that(1) assms(2) by simp_all
    then show ?thesis using r [of "cs ! i"] that by simp
  qed
  ultimately show ?thesis by blast
qed

lemma model3_dispatch_witness:
  "\<exists>q ds. fold_opt model3_accept [5, 130] model3_queue = Some q \<and> takes 2 q = Some (ds, model3_queue) \<and>
    ds \<noteq> map int [5, 130] \<and> ds ! 1 < 0"
proof -
  obtain q ds where "fold_opt model3_accept [5, 130] model3_queue = Some q" "takes (length [5, 130 :: nat]) q = Some (ds, model3_queue)"
    "(ds = map int [5, 130]) = (\<forall>c \<in> set [5, 130 :: nat]. c < 128)"
    "\<forall>i < length [5, 130 :: nat]. 128 \<le> [5, 130 :: nat] ! i \<longrightarrow> ds ! i < 0"
    using model3_dispatch [of "[5, 130]"] by auto
  then show ?thesis by (intro exI [of _ q] exI [of _ ds]) (auto simp: numeral_2_eq_2)
qed

text \<open>What a thread does with the descriptor it took is what the echo server does.\<close>

definition model3_service :: "buffer \<Rightarrow> mq \<Rightarrow> (int \<Rightarrow> string) \<Rightarrow> (int \<times> string \<times> buffer \<times> mq) option" where
  "model3_service buf q request = do {
     (cfd, q) \<leftarrow> model3_take q;
     (r, buf) \<leftarrow> echo_tcp_serve buf (request cfd);
     Some (cfd, r, buf, q)
   }"

section \<open>Model 4: five sockets and \<open>select\<close>\<close>

definition create_socket :: "nat \<Rightarrow> endpoint" where
  "create_socket i = (Stream, Inet INADDR_ANY (3200 + i))"

definition model4_sockets :: "endpoint list" where
  "model4_sockets = map create_socket [0..<5]"

text \<open>One round of a thread: \<open>ready i\<close> says that \<open>select\<close> reported socket \<open>i\<close>, \<open>request i\<close> is
  what the connection accepted from it sends; the buffer is shared by the five sockets.\<close>

definition model4_round :: "(nat \<Rightarrow> bool) \<Rightarrow> (nat \<Rightarrow> string) \<Rightarrow> buffer \<Rightarrow> ((nat \<times> string) list \<times> buffer) option" where
  "model4_round ready request buf =
     fold_opt (\<lambda>i (out, b). if ready i
         then do { (r, b) \<leftarrow> echo_tcp_serve b (request i); Some (out @ [(i, r)], b) }
         else Some (out, b)) [0..<5] ([], buf)"

text \<open>
  A round of the fourth server answers exactly the sockets that were reported ready, in
  their order, each with its own request in capitals, and after the first reply of the
  thread without bytes of other requests; of the five ports only the first is the one
  the shipped clients connect to.
\<close>

theorem model4_round_answers:
  "(\<exists>buf. model4_round ready request (replicate 128 NUL) =
     Some ([(i, map toupper (take 128 (request i)) @ replicate (128 - length (request i)) NUL). i \<leftarrow> [0..<5], ready i], buf)
     \<and> length buf = 128) \<and>
   (model4_client g inp reply = Some (peer, req, out) \<longrightarrow>
     (\<forall>i < 5. peer_reaches peer (model4_sockets ! i) \<longleftrightarrow> i = 0))"
proof
  let ?r = "\<lambda>i. map toupper (take 128 (request i)) @ replicate (128 - length (request i)) NUL"
  have "fold_opt (\<lambda>i (out, b). if ready i
         then do { (r, b) \<leftarrow> echo_tcp_serve b (request i); Some (out @ [(i, r)], b) }
         else Some (out, b)) is (out, replicate 128 NUL) =
       Some (out @ [(i, ?r i). i \<leftarrow> is, ready i], replicate 128 NUL)" for "is" out
    by (induction "is" arbitrary: out) (simp_all add: echo_tcp_run min_def)
  then show "\<exists>buf. model4_round ready request (replicate 128 NUL) = Some ([(i, ?r i). i \<leftarrow> [0..<5], ready i], buf) \<and> length buf = 128"
    unfolding model4_round_def by simp
  show "model4_client g inp reply = Some (peer, req, out) \<longrightarrow> (\<forall>i < 5. peer_reaches peer (model4_sockets ! i) \<longleftrightarrow> i = 0)"
    by (auto simp: model4_client_def echo_tcp_client_def model4_sockets_def create_socket_def peer_reaches_def
        split: bind_splits)
qed


lemma model4_round_answers_witness:
  "\<exists>peer req reply out. model4_client (\<lambda>_ _. NUL) (''hi'' @ NL # []) reply = Some (peer, req, out) \<and>
     (\<forall>i < 5. peer_reaches peer (model4_sockets ! i) \<longleftrightarrow> i = 0)"
proof -
  have "\<exists>peer req reply b'. echo_tcp_serve (replicate 128 NUL) req = Some (reply, b') \<and>
      echo_tcp_client (\<lambda>_ _. NUL) (''hi'' @ NL # []) reply = Some (peer, req, map toupper ''hi'') \<and>
      peer_reaches peer (fst (echo_tcp_server (\<lambda>_. NUL) []))"
    by (rule echo_tcp_client_served) simp_all
  then obtain peer req reply where
    "echo_tcp_client (\<lambda>_ _. NUL) (''hi'' @ NL # []) reply = Some (peer, req, map toupper ''hi'')" by blast
  then have "model4_client (\<lambda>_ _. NUL) (''hi'' @ NL # []) reply = Some (peer, req, map toupper ''hi'')"
    by (simp add: model4_client_def)
  with model4_round_answers [of "\<lambda>_. True" "\<lambda>_. []" "\<lambda>_ _. NUL" "''hi'' @ NL # []" reply] show ?thesis by blast
qed

end
