(* ===== verification/Threads.thy ===== *)
theory Threads
  imports Prelude "HOL-Library.Multiset"
begin

text \<open>
  Lists of threads: how a sum over the threads changes when one of them takes a step, and
  the contract \<open>finishing\<close> of a system whose steps use up a measure and of which some thread
  can go on until the goal is reached; it gives that every run is short and that the goal
  can be reached, or is reached by every run that cannot go on.  \<open>simulation\<close> is the contract
  of a system that refines another.
\<close>

section \<open>Sums over threads\<close>

lemma sum_mset_update:
  assumes "i < length xs"
  shows "(\<Sum>x \<in># mset (xs[i := y]). f x) + f (xs ! i) = (\<Sum>x \<in># mset xs. f x) + (f y :: 'a :: comm_monoid_add)"
proof -
  have "mset xs = add_mset (xs ! i) (mset xs - {#xs ! i#})" using assms by (simp add: nth_mem_mset)
  then have "(\<Sum>x \<in># mset xs. f x) = f (xs ! i) + (\<Sum>x \<in># mset xs - {#xs ! i#}. f x)"
    by (metis image_mset_add_mset sum_mset.insert)
  then show ?thesis using assms by (simp add: mset_update ac_simps)
qed

lemma set_update_all: "\<forall>x \<in> set xs. P x \<Longrightarrow> P y \<Longrightarrow> \<forall>x \<in> set (xs[i := y]). P x"
  using set_update_subset_insert [of xs i y] by auto

lemma tasks_split:
  assumes "i < length xs" "j < length xs" "i \<noteq> j"
  shows "(\<Sum>x \<in># mset xs. f x) = f (xs ! i) + f (xs ! j) + (\<Sum>x \<in># mset xs - {#xs ! i#} - {#xs ! j#}. f x :: 'a :: comm_monoid_add)"
proof -
  let ?M = "mset xs"
  have i: "?M = add_mset (xs ! i) (?M - {#xs ! i#})" using assms(1) by (simp add: nth_mem_mset)
  have "xs ! j \<in># ?M - {#xs ! i#}"
  proof -
    have "mset (take i xs @ drop (Suc i) xs) = ?M - {#xs ! i#}"
      using arg_cong [OF id_take_nth_drop [OF assms(1)], of mset] by simp
    moreover have "xs ! j \<in> set (take i xs @ drop (Suc i) xs)"
      using assms by (cases "j < i") (auto simp: in_set_conv_nth intro: exI [of _ j] exI [of _ "j - Suc i"])
    ultimately show ?thesis by (metis set_mset_mset)
  qed
  then have "?M = add_mset (xs ! i) (add_mset (xs ! j) (?M - {#xs ! i#} - {#xs ! j#}))" using i by (metis insert_DiffM)
  then show ?thesis by (metis add.assoc image_mset_add_mset sum_mset.insert)
qed

lemma distinct_sub: "mset xs \<subseteq># mset ys \<Longrightarrow> distinct ys \<Longrightarrow> distinct xs"
proof -
  assume "mset xs \<subseteq># mset ys" "distinct ys"
  then obtain zs where "mset ys = mset (xs @ zs)" by (metis mset_append subset_mset.add_diff_inverse ex_mset)
  then have "distinct (xs @ zs)" using \<open>distinct ys\<close> by (metis mset_eq_imp_distinct_iff)
  then show "distinct xs" by simp
qed

section \<open>Systems that finish\<close>

lemma steps_Cons: "r s t \<Longrightarrow> r\<^sup>*\<^sup>* t u \<Longrightarrow> r\<^sup>*\<^sup>* s u"
  by (rule converse_rtranclp_into_rtranclp)

locale finishing =
  fixes step :: "'s \<Rightarrow> 's \<Rightarrow> bool"
    and inv :: "'s \<Rightarrow> bool"
    and left :: "'s \<Rightarrow> nat"
    and goal :: "'s \<Rightarrow> bool"
  assumes step_inv: "inv s \<Longrightarrow> step s t \<Longrightarrow> inv t"
    and step_left: "inv s \<Longrightarrow> step s t \<Longrightarrow> left t < left s"
    and goes_on: "inv s \<Longrightarrow> \<not> goal s \<Longrightarrow> \<exists>t. step s t"
begin

lemma steps_inv: "step\<^sup>*\<^sup>* s t \<Longrightarrow> inv s \<Longrightarrow> inv t"
  by (induction rule: rtranclp_induct) (auto intro: step_inv)

lemma finishes: "inv s \<Longrightarrow> \<exists>t. step\<^sup>*\<^sup>* s t \<and> goal t \<and> inv t"
proof (induction "left s" arbitrary: s rule: less_induct)
  case less
  show ?case
  proof (cases "goal s")
    case True
    then show ?thesis using less.prems by blast
  next
    case False
    then obtain t where t: "step s t" using goes_on less.prems by blast
    from less.hyps [OF step_left [OF less.prems t] step_inv [OF less.prems t]] t show ?thesis
      by (auto intro: converse_rtranclp_into_rtranclp)
  qed
qed

lemma short_runs: "inv s \<Longrightarrow> (step ^^ n) s t \<Longrightarrow> n + left t \<le> left s \<and> inv t"
proof (induction n arbitrary: t)
  case (Suc n)
  then obtain u where u: "(step ^^ n) s u" "step u t" by auto
  with Suc.IH [OF Suc.prems(1) u(1)] step_left [of u t] step_inv [of u t] show ?case by simp
qed simp

lemma stops: "inv s \<Longrightarrow> \<exists>t. step\<^sup>*\<^sup>* s t \<and> (\<forall>u. \<not> step t u)"
proof (induction "left s" arbitrary: s rule: less_induct)
  case less
  show ?case
  proof (cases "\<exists>t. step s t")
    case True
    then obtain t where t: "step s t" by blast
    from less.hyps [OF step_left [OF less.prems t] step_inv [OF less.prems t]] t show ?thesis
      by (auto intro: converse_rtranclp_into_rtranclp)
  qed blast
qed

lemma stops_at_goal: "inv s \<Longrightarrow> step\<^sup>*\<^sup>* s t \<Longrightarrow> (\<forall>u. \<not> step t u) \<Longrightarrow> goal t"
  using steps_inv goes_on by blast

end

section \<open>Systems that simulate others\<close>

text \<open>Each step of the concrete system is a sequence of steps of an abstract one, whose invariant
  may be used to show it.\<close>

locale simulation = transition_system initial step inv
  for initial :: "'s \<Rightarrow> bool" and step :: "'s \<Rightarrow> 's \<Rightarrow> bool" and inv :: "'s \<Rightarrow> bool" +
  fixes cinitial :: "'c \<Rightarrow> bool"
    and cstep :: "'c \<Rightarrow> 'c \<Rightarrow> bool"
    and cinv :: "'c \<Rightarrow> bool"
    and abs :: "'c \<Rightarrow> 's"
  assumes start: "cinitial c \<Longrightarrow> cinv c \<and> initial (abs c)"
    and simulate: "cstep c d \<Longrightarrow> cinv c \<Longrightarrow> inv (abs c) \<Longrightarrow> cinv d \<and> step\<^sup>*\<^sup>* (abs c) (abs d)"
begin

lemma simulated: "cstep\<^sup>*\<^sup>* c d \<Longrightarrow> cinitial c \<Longrightarrow> cinv d \<and> inv (abs d) \<and> step\<^sup>*\<^sup>* (abs c) (abs d)"
proof (induction rule: rtranclp_induct)
  case base
  then show ?case using start initial_inv by blast
next
  case (step d e)
  then have d: "cinv d" "inv (abs d)" "step\<^sup>*\<^sup>* (abs c) (abs d)" by blast+
  from simulate [OF step.hyps(2) d(1,2)] have e: "cinv e" "step\<^sup>*\<^sup>* (abs d) (abs e)" by blast+
  from steps_keep [OF e(2) d(2)] e d(3) show ?case by (blast intro: rtranclp_trans)
qed

end

end
