(* ===== verification/ThreadServer.thy ===== *)
theory ThreadServer
  imports ServerModels Threads
begin

text \<open>
  The first server model, \<open>server models/1\<close>: \<open>main\<close> starts a thread per connection and hands it
  a pointer into the table \<open>cfds\<close>.  Every access to the shared \<open>client_count\<close> and \<open>cfds\<close> is a
  step of its own, so that \<open>client_count++\<close> and \<open>client_count--\<close> read and write in two steps.
  The server is right until it has closed a connection, and wrong after it.
\<close>

section \<open>State\<close>

text \<open>\<open>main\<close> is in \<open>accept\<close>, about to read or write the counter (the number is what it has
  read), at the test, about to store the descriptor, or about to start the thread: \<open>client_count\<close> is read once for
  \<open>&t[client_count - 1]\<close>, and again for \<open>&cfds[client_count - 1]\<close> (with the index into \<open>t\<close> at hand).\<close>

datatype main_at = Accepting | Counting int | Adding int int | Checking int | Storing int | Creating int | Starting int nat | Exiting

text \<open>A thread has started, has received a request (from which connection is a ghost), has
  replied, has closed, or has read the counter.\<close>

datatype stage = Started | Received "nat option" buffer | Replied | Closed | Subtracting int | Finished

text \<open>\<open>slot\<close> is the index of the pointer a thread was given.  \<open>own\<close> is the descriptor it was
  started for and \<open>customer\<close> its connection; both are ghosts.\<close>

record service =
  slot :: nat
  own :: int
  customer :: "nat option"
  stage :: stage

record model1 =
  main :: main_at
  client_count :: int
  cfds :: "int option list"
  fds :: fd_table
  services :: "service list"
  accepted :: nat
  replies :: "(nat \<times> nat option \<times> string) list"

definition model1_start :: model1 where
  "model1_start = \<lparr> main = Accepting, client_count = 0, cfds = replicate 10 None,
     fds = [(0, Terminal), (1, Terminal), (2, Terminal), (3, Listening)], services = [], accepted = 0, replies = [] \<rparr>"

section \<open>Steps\<close>

text \<open>The elements \<open>client_count - 1\<close> of \<open>cfds\<close> and of \<open>t\<close>: \<open>None\<close> outside the arrays.\<close>

definition last_slot :: "model1 \<Rightarrow> nat option" where
  "last_slot s = (let i = client_count s - 1 in if 0 \<le> i \<and> i < 10 then Some (nat i) else None)"

definition main_step :: "model1 \<Rightarrow> model1 option" where
  "main_step s = (case main s of
       Accepting \<Rightarrow> (if map_of (fds s) 3 = Some Listening
         then let d = lowest_free (fds s) in
           Some (s \<lparr> fds := (d, Conn (accepted s)) # fds s, accepted := accepted s + 1, main := Counting (int d) \<rparr>)
         else None)
     | Counting cfd \<Rightarrow> Some (s \<lparr> main := Adding cfd (client_count s) \<rparr>)
     | Adding cfd n \<Rightarrow> Some (s \<lparr> client_count := n + 1, main := Checking cfd \<rparr>)
     | Checking cfd \<Rightarrow> Some (s \<lparr> main := (if client_count s > 10 then Exiting else Storing cfd) \<rparr>)
     | Storing cfd \<Rightarrow> do {
         i \<leftarrow> last_slot s;
         Some (s \<lparr> cfds := (cfds s)[i := Some cfd], main := Creating cfd \<rparr>)
       }
     | Creating cfd \<Rightarrow> do {
         k \<leftarrow> last_slot s;
         Some (s \<lparr> main := Starting cfd k \<rparr>)
       }
     | Starting cfd k \<Rightarrow> do {
         i \<leftarrow> last_slot s;
         Some (s \<lparr> services := services s @ [\<lparr> slot = i, own = cfd, customer = conn_at (fds s) cfd, stage = Started \<rparr>],
           main := Accepting \<rparr>)
       }
     | Exiting \<Rightarrow> None)"

text \<open>A failed \<open>accept\<close> is not tested.\<close>

definition accept_fails :: "model1 \<Rightarrow> model1 option" where
  "accept_fails s = (if main s = Accepting then Some (s \<lparr> main := Counting (-1) \<rparr>) else None)"

text \<open>\<open>*cfd\<close>, read at every use; \<open>None\<close> for a slot that was never written.\<close>

definition read_slot :: "model1 \<Rightarrow> service \<Rightarrow> int option" where
  "read_slot s v = Option.bind (buf_get (cfds s) (slot v)) (\<lambda>d. d)"

text \<open>\<open>h\<close> is the uninitialised buffer of the thread, \<open>request c\<close> what the client of
  connection \<open>c\<close> sends.\<close>

definition customer_service :: "(nat \<Rightarrow> string) \<Rightarrow> (nat \<Rightarrow> char) \<Rightarrow> nat \<Rightarrow> model1 \<Rightarrow> model1 option" where
  "customer_service request h t s = (if t < length (services s) then
     (let v = services s ! t; at = (\<lambda>st s. s \<lparr> services := (services s)[t := v \<lparr> stage := st \<rparr>] \<rparr>) in
      case stage v of
        Started \<Rightarrow> do {
          cfd \<leftarrow> read_slot s v;
          (c, buf) \<leftarrow> recv_request request (fds s) cfd (fresh_block h 128);
          Some (at (Received c buf) s)
        }
      | Received c buf \<Rightarrow> do {
          cfd \<leftarrow> read_slot s v;
          memset buf NUL 128;
          Some (at Replied (s \<lparr> replies := replies s @ send_reply (fds s) cfd c buf \<rparr>))
        }
      | Replied \<Rightarrow> do {
          cfd \<leftarrow> read_slot s v;
          Some (at Closed (s \<lparr> fds := close_fd cfd (fds s) \<rparr>))
        }
      | Closed \<Rightarrow> Some (at (Subtracting (client_count s)) s)
      | Subtracting n \<Rightarrow> Some (at Finished (s \<lparr> client_count := n - 1 \<rparr>))
      | Finished \<Rightarrow> None)
     else None)"

text \<open>Who goes on is the scheduler's choice; after \<open>exit\<close> nobody does.\<close>

datatype choice = Main | Failing_accept | Thread nat

definition model1_do :: "(nat \<Rightarrow> string) \<Rightarrow> (nat \<Rightarrow> nat \<Rightarrow> char) \<Rightarrow> choice \<Rightarrow> model1 \<Rightarrow> model1 option" where
  "model1_do request g e s = (if main s = Exiting then None else case e of
       Main \<Rightarrow> main_step s
     | Failing_accept \<Rightarrow> accept_fails s
     | Thread t \<Rightarrow> customer_service request (g t) t s)"

definition model1_step :: "(nat \<Rightarrow> string) \<Rightarrow> (nat \<Rightarrow> nat \<Rightarrow> char) \<Rightarrow> model1 \<Rightarrow> model1 \<Rightarrow> bool" where
  "model1_step request g s s' \<longleftrightarrow> (\<exists>e. model1_do request g e s = Some s')"

lemma schedule_steps:
  "fold_opt (model1_do request g) es s = Some s' \<Longrightarrow> (model1_step request g)\<^sup>*\<^sup>* s s'"
proof (induction es arbitrary: s)
  case (Cons e es)
  then obtain u where "model1_do request g e s = Some u" "fold_opt (model1_do request g) es u = Some s'"
    by (auto split: bind_splits)
  with Cons.IH [of u] show ?case unfolding model1_step_def by (blast intro: converse_rtranclp_into_rtranclp)
qed simp

section \<open>Before the first close\<close>

fun before_close :: "stage \<Rightarrow> bool" where
  "before_close Closed = False"
| "before_close (Subtracting n) = False"
| "before_close Finished = False"
| "before_close st = True"

definition nobody_closed :: "model1 \<Rightarrow> bool" where
  "nobody_closed s \<longleftrightarrow> (\<forall>v \<in> set (services s). before_close (stage v))"

fun in_hand :: "main_at \<Rightarrow> int option" where
  "in_hand (Counting d) = Some d"
| "in_hand (Adding d n) = Some d"
| "in_hand (Checking d) = Some d"
| "in_hand (Storing d) = Some d"
| "in_hand (Creating d) = Some d"
| "in_hand (Starting d i) = Some d"
| "in_hand m = None"

fun counted :: "main_at \<Rightarrow> int" where
  "counted (Checking d) = 1"
| "counted (Storing d) = 1"
| "counted (Creating d) = 1"
| "counted (Starting d i) = 1"
| "counted Exiting = 1"
| "counted m = 0"

abbreviation opt_mset :: "'a option \<Rightarrow> 'a multiset" where
  "opt_mset x \<equiv> case x of None \<Rightarrow> {#} | Some a \<Rightarrow> {#a#}"

fun answered_conn :: "service \<Rightarrow> nat multiset" where
  "answered_conn v = (if stage v = Replied then opt_mset (customer v) else {#})"

definition known :: "fd_table \<Rightarrow> int \<Rightarrow> bool" where
  "known tbl d \<longleftrightarrow> d = -1 \<or> conn_at tbl d \<noteq> None"

definition main_inv :: "model1 \<Rightarrow> bool" where
  "main_inv s \<longleftrightarrow> client_count s = int (length (services s)) + counted (main s) \<and>
     (case main s of
        Adding d n \<Rightarrow> n = client_count s
      | Storing d \<Rightarrow> length (services s) < 10
      | Creating d \<Rightarrow> length (services s) < 10 \<and> cfds s ! length (services s) = Some d
      | Starting d i \<Rightarrow> i < 10 \<and> length (services s) < 10 \<and> cfds s ! length (services s) = Some d
      | Exiting \<Rightarrow> length (services s) = 10
      | _ \<Rightarrow> True)"

definition service_inv :: "(nat \<Rightarrow> string) \<Rightarrow> int option list \<Rightarrow> fd_table \<Rightarrow> nat \<Rightarrow> service \<Rightarrow> bool" where
  "service_inv request tbl files t v \<longleftrightarrow> slot v = t \<and> tbl ! t = Some (own v) \<and> known files (own v) \<and>
     customer v = conn_at files (own v) \<and>
     (\<forall>c buf. stage v = Received c buf \<longrightarrow> c = customer v \<and> length buf = 128 \<and> (\<forall>k. c = Some k \<longrightarrow> answers (request k) buf))"

definition hand_mset :: "model1 \<Rightarrow> nat multiset" where
  "hand_mset s = opt_mset (Option.bind (in_hand (main s)) (conn_at (fds s)))"

definition calm_inv :: "(nat \<Rightarrow> string) \<Rightarrow> model1 \<Rightarrow> bool" where
  "calm_inv request s \<longleftrightarrow> length (cfds s) = 10 \<and> length (services s) \<le> 10 \<and> main_inv s \<and>
     (\<forall>d. in_hand (main s) = Some d \<longrightarrow> known (fds s) d) \<and>
     (\<forall>t < length (services s). service_inv request (cfds s) (fds s) t (services s ! t)) \<and>
     replies_ok request (replies s) \<and>
     mset (map fst (replies s)) = (\<Sum>v \<in># mset (services s). answered_conn v) \<and>
     (\<Sum>v \<in># mset (services s). opt_mset (customer v)) + hand_mset s \<subseteq># mset [0..<accepted s]"

lemma calm_main:
  assumes "calm_inv request s"
    and "cfds s' = cfds s" "fds s' = fds s" "services s' = services s" "accepted s' = accepted s" "replies s' = replies s"
    and "main_inv s'"
    and hand: "in_hand (main s') = in_hand (main s) \<or> in_hand (main s') = None \<or> in_hand (main s') = Some (-1)"
  shows "calm_inv request s'"
proof -
  have "hand_mset s' \<subseteq># hand_mset s"
    using assms(3) hand by (auto simp: hand_mset_def conn_at_def split: option.splits)
  moreover have "known (fds s) d" if "in_hand (main s') = Some d" for d
  proof (cases "in_hand (main s) = Some d")
    case True
    then show ?thesis using assms(1) unfolding calm_inv_def by blast
  next
    case False
    then show ?thesis using hand that by (auto simp: known_def)
  qed
  ultimately show ?thesis using assms(1-7) unfolding calm_inv_def
    by (auto elim: subset_mset.order_trans [rotated] intro: subset_mset.add_left_mono)
qed

lemma conn_at_accept:
  assumes "known tbl d" "d' = lowest_free tbl"
  shows "conn_at ((d', f) # tbl) d = conn_at tbl d"
proof (cases "d = int d'")
  case True
  then have "conn_at tbl d \<noteq> None" using assms(1) by (simp add: known_def)
  then have "map_of tbl d' \<noteq> None" using True by (auto simp: conn_at_def split: option.splits)
  then have "d' \<in> fst ` set tbl" by (simp add: map_of_eq_None_iff)
  then show ?thesis using lowest_free(2) [of tbl] assms(2) by simp
qed (simp add: conn_at_Cons)

lemma calm_accept:
  assumes inv: "calm_inv request s" and m: "main s = Accepting"
    and s': "s' = s \<lparr> fds := (d, Conn (accepted s)) # fds s, accepted := accepted s + 1, main := Counting (int d) \<rparr>"
    and d: "d = lowest_free (fds s)"
  shows "calm_inv request s'"
proof -
  have new: "conn_at (fds s') (int d) = Some (accepted s)" by (simp add: s' conn_at_def)
  have "service_inv request (cfds s') (fds s') t v" if "service_inv request (cfds s) (fds s) t v" for t v
    using that conn_at_accept [OF _ d, of "own v"] unfolding service_inv_def known_def s' by auto
  moreover have "hand_mset s = {#}" "hand_mset s' = {#accepted s#}" using new by (simp_all add: hand_mset_def m s')
  ultimately show ?thesis using inv m new unfolding calm_inv_def by (auto simp: s' main_inv_def known_def)
qed

lemma calm_store:
  assumes inv: "calm_inv request s" and m: "main s = Storing d" and i: "last_slot s = Some i"
    and s': "s' = s \<lparr> cfds := (cfds s)[i := Some d], main := Creating d \<rparr>"
  shows "calm_inv request s'"
proof -
  have "i = length (services s)" "length (services s) < 10"
    using inv m i by (auto simp: calm_inv_def main_inv_def last_slot_def Let_def split: if_splits)
  then show ?thesis using inv m unfolding calm_inv_def by (auto simp: s' main_inv_def service_inv_def hand_mset_def)
qed

lemma calm_create:
  assumes inv: "calm_inv request s" and m: "main s = Starting d k" and i: "last_slot s = Some i"
    and s': "s' = s \<lparr> services := services s @ [\<lparr> slot = i, own = d, customer = conn_at (fds s) d, stage = Started \<rparr>],
      main := Accepting \<rparr>"
  shows "calm_inv request s'"
proof -
  have "i = length (services s)" "length (services s) < 10" "cfds s ! i = Some d"
    using inv m i by (auto simp: calm_inv_def main_inv_def last_slot_def Let_def split: if_splits)
  then show ?thesis using inv m unfolding calm_inv_def
    by (auto simp: s' main_inv_def service_inv_def hand_mset_def nth_append less_Suc_eq ac_simps)
qed
lemma calm_thread:
  assumes inv: "calm_inv request s" and t: "t < length (services s)" "v = services s ! t"
    and s': "s' = s \<lparr> replies := replies s @ rs, services := (services s)[t := v \<lparr> stage := st \<rparr>] \<rparr>"
    and own: "service_inv request (cfds s) (fds s) t (v \<lparr> stage := st \<rparr>)"
    and rs: "replies_ok request rs" "mset (map fst rs) + answered_conn v = answered_conn (v \<lparr> stage := st \<rparr>)"
  shows "calm_inv request s'"
proof -
  let ?vs = "(services s)[t := v \<lparr> stage := st \<rparr>]"
  have "(\<Sum>v \<in># mset ?vs. answered_conn v) = mset (map fst rs) + (\<Sum>v \<in># mset (services s). answered_conn v)"
    using sum_mset_update [OF t(1), of answered_conn "v \<lparr> stage := st \<rparr>"] unfolding t(2) [symmetric] rs(2) [symmetric]
    by (metis add.assoc add_right_imp_eq add.commute)
  moreover have "(\<Sum>v \<in># mset ?vs. opt_mset (customer v)) = (\<Sum>v \<in># mset (services s). opt_mset (customer v))"
    using sum_mset_update [OF t(1), of "\<lambda>v. opt_mset (customer v)" "v \<lparr> stage := st \<rparr>"] t(2) by simp
  moreover have "main_inv s'" using inv by (auto simp: calm_inv_def main_inv_def s' split: main_at.splits)
  moreover have "service_inv request (cfds s) (fds s) u (?vs ! u)" if "u < length (services s)" for u
    using inv own that by (cases "u = t") (simp_all add: calm_inv_def)
  ultimately show ?thesis using inv rs(1) unfolding calm_inv_def s'
    by (auto simp: hand_mset_def replies_ok_def ac_simps simp del: answered_conn.simps)
qed

lemma calm_service:
  "calm_inv request s \<Longrightarrow> t < length (services s) \<Longrightarrow> service_inv request (cfds s) (fds s) t (services s ! t)"
  by (simp add: calm_inv_def)

lemma calm_slot:
  "calm_inv request s \<Longrightarrow> t < length (services s) \<Longrightarrow> read_slot s (services s ! t) = Some (own (services s ! t))"
  by (auto simp: calm_inv_def service_inv_def read_slot_def buf_get_def)

lemma calm_customer_service:
  assumes inv: "calm_inv request s" and step: "customer_service request h t s = Some s'" and calm: "nobody_closed s'"
  shows "calm_inv request s'"
proof -
  let ?v = "services s ! t"
  have t: "t < length (services s)" using step by (simp add: customer_service_def split: if_splits)
  note own = calm_service [OF inv t] and slot = calm_slot [OF inv t]
  have upd: "v \<in> set ((services s)[t := v])" for v using t by (rule set_update_memI)
  show ?thesis
  proof (cases "stage ?v")
    case Started
    then obtain c buf where r: "recv_request request (fds s) (own ?v) (fresh_block h 128) = Some (c, buf)"
      "s' = s \<lparr> replies := replies s @ [], services := (services s)[t := ?v \<lparr> stage := Received c buf \<rparr>] \<rparr>"
      using step t slot by (auto simp: customer_service_def Let_def split: bind_splits)
    from recv_request_some [OF r(1)] own Started show ?thesis
      by (intro calm_thread [OF inv t refl r(2)]) (auto simp: service_inv_def replies_ok_def)
  next
    case (Received c buf)
    then have s': "s' = s \<lparr> replies := replies s @ send_reply (fds s) (own ?v) c buf,
        services := (services s)[t := ?v \<lparr> stage := Replied \<rparr>] \<rparr>"
      using step t slot by (auto simp: customer_service_def Let_def split: bind_splits)
    from own Received show ?thesis
      by (intro calm_thread [OF inv t refl s']) (auto simp: service_inv_def replies_ok_def send_reply_def split: option.splits)
  next
    case Replied
    then have "?v \<lparr> stage := Closed \<rparr> \<in> set (services s')"
      using step t slot upd by (auto simp: customer_service_def Let_def split: bind_splits)
    then show ?thesis using calm by (auto simp: nobody_closed_def)
  next
    case Closed
    then have "?v \<lparr> stage := Subtracting (client_count s) \<rparr> \<in> set (services s')"
      using step t upd by (auto simp: customer_service_def Let_def)
    then show ?thesis using calm by (auto simp: nobody_closed_def)
  next
    case (Subtracting n)
    then have "?v \<lparr> stage := Finished \<rparr> \<in> set (services s')"
      using step t upd by (auto simp: customer_service_def Let_def)
    then show ?thesis using calm by (auto simp: nobody_closed_def)
  qed (use step t in \<open>simp add: customer_service_def Let_def\<close>)
qed

lemma calm_main_step:
  assumes inv: "calm_inv request s" and step: "main_step s = Some s'"
  shows "calm_inv request s'"
proof (cases "main s")
  case Accepting
  then show ?thesis using step by (intro calm_accept [OF inv]) (auto simp: main_step_def Let_def split: if_splits)
next
  case (Counting d)
  have "main_inv s" using inv by (simp add: calm_inv_def)
  then show ?thesis using step Counting by (intro calm_main [OF inv]) (auto simp: main_step_def main_inv_def)
next
  case (Adding d n)
  have "main_inv s" using inv by (simp add: calm_inv_def)
  then show ?thesis using step Adding by (intro calm_main [OF inv]) (auto simp: main_step_def main_inv_def)
next
  case (Checking d)
  have "main_inv s" "length (services s) \<le> 10" using inv by (simp_all add: calm_inv_def)
  then show ?thesis using step Checking by (intro calm_main [OF inv]) (auto simp: main_step_def main_inv_def split: if_splits)
next
  case (Storing d)
  then show ?thesis using step calm_store [OF inv] by (auto simp: main_step_def split: bind_splits)
next
  case (Creating d)
  have "main_inv s" using inv by (simp add: calm_inv_def)
  then show ?thesis using step Creating
    by (intro calm_main [OF inv]) (auto simp: main_step_def main_inv_def last_slot_def Let_def split: bind_splits if_splits)
next
  case (Starting d k)
  then show ?thesis using step calm_create [OF inv] by (auto simp: main_step_def split: bind_splits)
qed (use step in \<open>simp add: main_step_def\<close>)

lemma calm_accept_fails:
  assumes inv: "calm_inv request s" and step: "accept_fails s = Some s'"
  shows "calm_inv request s'"
proof -
  have "main_inv s" using inv by (simp add: calm_inv_def)
  then show ?thesis using step by (intro calm_main [OF inv]) (auto simp: accept_fails_def main_inv_def split: if_splits)
qed

lemma calm_step:
  assumes "nobody_closed s \<longrightarrow> calm_inv request s" "model1_step request g s s'"
  shows "nobody_closed s' \<longrightarrow> calm_inv request s'"
proof
  assume calm: "nobody_closed s'"
  obtain e where e: "model1_do request g e s = Some s'" using assms(2) by (auto simp: model1_step_def)
  have "nobody_closed s"
  proof (cases e)
    case Main
    then show ?thesis using e calm unfolding nobody_closed_def
      by (cases "main s") (auto simp: model1_do_def main_step_def Let_def split: if_splits bind_splits)
  next
    case Failing_accept
    then show ?thesis using e calm by (auto simp: model1_do_def accept_fails_def nobody_closed_def split: if_splits)
  next
    case (Thread t)
    then have s: "customer_service request (g t) t s = Some s'" using e by (simp add: model1_do_def split: if_splits)
    then have t: "t < length (services s)" by (simp add: customer_service_def split: if_splits)
    have "\<exists>v. services s' = (services s)[t := v] \<and> (before_close (stage v) \<longrightarrow> before_close (stage (services s ! t)))"
      using s t by (cases "stage (services s ! t)") (auto simp: customer_service_def Let_def split: bind_splits)
    then obtain v where v: "services s' = (services s)[t := v]" "before_close (stage v) \<longrightarrow> before_close (stage (services s ! t))"
      by blast
    have all: "before_close (stage (services s' ! u))" if "u < length (services s)" for u
      using calm that v(1) unfolding nobody_closed_def by simp
    have "before_close (stage (services s ! u))" if "u < length (services s)" for u
      using all [OF that] v t by (cases "u = t") simp_all
    then show ?thesis by (simp add: nobody_closed_def all_set_conv_all_nth)
  qed
  then have "calm_inv request s" using assms(1) by blast
  then show "calm_inv request s'"
  proof (cases e)
    case Main
    with e show ?thesis by (intro calm_main_step [OF \<open>calm_inv request s\<close>]) (simp add: model1_do_def split: if_splits)
  next
    case Failing_accept
    with e show ?thesis by (intro calm_accept_fails [OF \<open>calm_inv request s\<close>]) (simp add: model1_do_def split: if_splits)
  next
    case (Thread t)
    with e show ?thesis
      by (intro calm_customer_service [OF \<open>calm_inv request s\<close> _ calm, of "g t" t]) (simp add: model1_do_def split: if_splits)
  qed
qed

lemma calm_start: "calm_inv request model1_start"
  by (simp add: calm_inv_def model1_start_def main_inv_def hand_mset_def replies_ok_def)

interpretation model1: transition_system "\<lambda>s. s = model1_start" "model1_step request g"
  "\<lambda>s. nobody_closed s \<longrightarrow> calm_inv request s" for request g
  using calm_start calm_step by unfold_locales blast+

lemma fresh_recv: "\<exists>c buf. recv_request request tbl d (fresh_block h 128) = Some (c, buf)"
  by (auto simp: recv_request_def recv_into_Some capitals_Some split: option.splits)

lemma calm_no_fault:
  assumes inv: "calm_inv request s" and calm: "nobody_closed s"
  shows "main s = Storing d \<or> main s = Creating d \<or> main s = Starting d k \<Longrightarrow> main_step s \<noteq> None"
    and "t < length (services s) \<Longrightarrow> customer_service request h t s \<noteq> None"
proof -
  show "main_step s \<noteq> None" if "main s = Storing d \<or> main s = Creating d \<or> main s = Starting d k"
    using inv that by (auto simp: calm_inv_def main_inv_def main_step_def last_slot_def Let_def)
next
  assume t: "t < length (services s)"
  then have b: "before_close (stage (services s ! t))" using calm by (simp add: nobody_closed_def)
  show "customer_service request h t s \<noteq> None"
  proof (cases "stage (services s ! t)")
    case Started
    obtain c buf where "recv_request request (fds s) (own (services s ! t)) (fresh_block h 128) = Some (c, buf)"
      using fresh_recv by blast
    with Started show ?thesis using t calm_slot [OF inv t] by (simp add: customer_service_def Let_def)
  next
    case (Received c buf)
    then have "length buf = 128" using calm_service [OF inv t] by (simp add: service_inv_def)
    with Received show ?thesis using t calm_slot [OF inv t] by (simp add: customer_service_def memset_all Let_def)
  qed (use t b calm_slot [OF inv t] in \<open>simp_all add: customer_service_def Let_def\<close>)
qed

lemma calm_distinct:
  assumes "calm_inv request s"
  shows "distinct (map fst (replies s))"
proof -
  have "answered_conn v \<subseteq># opt_mset (customer v)" for v by simp
  then have "(\<Sum>v \<in># M. answered_conn v) \<subseteq># (\<Sum>v \<in># M. opt_mset (customer v))" for M
    by (induction M) (simp_all del: answered_conn.simps add: subset_mset.add_mono)
  then have "mset (map fst (replies s)) \<subseteq># (\<Sum>v \<in># mset (services s). opt_mset (customer v)) + hand_mset s"
    using assms unfolding calm_inv_def by (metis mset_subset_eq_add_left subset_mset.order_trans)
  then have "mset (map fst (replies s)) \<subseteq># mset [0..<accepted s]"
    using assms unfolding calm_inv_def by (metis subset_mset.order_trans)
  then show ?thesis by (rule distinct_sub) simp
qed

text \<open>
  C31.  Until it closes a connection the first server is right, in every interleaving: it has
  at most ten threads and exits exactly at the eleventh connection, no thread and no store of
  \<open>main\<close> leaves the table, every reply goes to the connection whose request it answers and is
  that request in capitals, and no connection is answered twice.
\<close>

theorem model1_safe_until_close:
  assumes "(model1_step request g)\<^sup>*\<^sup>* model1_start s" "nobody_closed s"
  shows "length (services s) \<le> 10 \<and> (main s = Exiting \<longrightarrow> length (services s) = 10) \<and>
    (\<forall>d k. main s = Storing d \<or> main s = Creating d \<or> main s = Starting d k \<longrightarrow> main_step s \<noteq> None) \<and>
    (\<forall>t < length (services s). customer_service request (g t) t s \<noteq> None) \<and>
    (\<forall>(c', c, r) \<in> set (replies s). c = Some c' \<and> answers (request c') r) \<and> distinct (map fst (replies s))"
proof -
  have inv: "calm_inv request s" using model1.reachable_inv [OF refl assms(1)] assms(2) by blast
  then have "length (services s) \<le> 10" "main s = Exiting \<longrightarrow> length (services s) = 10"
    "\<forall>(c', c, r) \<in> set (replies s). c = Some c' \<and> answers (request c') r"
    by (auto simp: calm_inv_def main_inv_def replies_ok_def)
  then show ?thesis using calm_no_fault [OF inv assms(2)] calm_distinct [OF inv] by blast
qed

section \<open>After it\<close>

lemma recv_open:
  assumes "conn_at tbl d = Some c"
  shows "recv_request request tbl d (fresh_block h 128) =
    Some (Some c, map toupper (take 128 (request c)) @ drop (length (take 128 (request c))) (fresh_block h 128))"
  using assms by (simp add: recv_request_def recv_into_Some capitals_Some)

lemma recv_closed: "conn_at tbl d = None \<Longrightarrow> recv_request request tbl d b = Some (None, b)"
  by (simp add: recv_request_def)

abbreviation first_files :: fd_table where
  "first_files \<equiv> [(0, Terminal), (1, Terminal), (2, Terminal), (3, Listening)]"

lemma first_free:
  "lowest_free first_files = 4" "lowest_free ((4, Conn 0) # first_files) = 5"
  "lowest_free ((5, Conn 1) # first_files) = 4"
  by code_simp+

definition whole_accept :: "choice list" where
  "whole_accept = [Main, Main, Main, Main, Main, Main, Main]"

lemmas run_simps = whole_accept_def model1_do_def main_step_def customer_service_def Let_def read_slot_def last_slot_def
  buf_get_def memset_all conn_at_def send_reply_def close_fd_def

text \<open>Three clients, of which the first is gone when the third is accepted; one client whose
  thread and the \<open>accept\<close> of the next both update the counter.\<close>

definition overtaken :: "choice list" where
  "overtaken = whole_accept @ whole_accept @ [Thread 1, Thread 0, Thread 0, Thread 0, Thread 0, Thread 0] @ whole_accept @
     [Thread 1, Thread 1, Thread 1, Thread 1, Thread 2, Thread 2, Thread 2, Thread 2, Thread 2]"

definition crossed :: "choice list" where
  "crossed = whole_accept @ [Thread 0, Thread 0, Thread 0, Thread 0, Main, Main, Main, Thread 0, Main]"

text \<open>
  C32.  Once connections are closed the first server is wrong.  With three clients the reply to
  the second can go to the third, which is then closed unheard, while the second is never
  answered nor closed although all threads have finished; and a decrement that overlaps an
  increment leaves the counter at 0 while \<open>main\<close> is about to store in \<open>cfds[client_count - 1]\<close>.
\<close>

theorem model1_races:
  "(\<exists>s r. (model1_step request g)\<^sup>*\<^sup>* model1_start s \<and> (2, Some 1, r) \<in> set (replies s) \<and> answers (request 1) r \<and>
      map stage (services s) = [Finished, Finished, Finished] \<and> main s = Accepting \<and>
      1 \<notin> fst ` set (replies s) \<and> conn_at (fds s) 5 = Some 1) \<and>
   (\<exists>s cfd. (model1_step request g)\<^sup>*\<^sup>* model1_start s \<and> main s = Storing cfd \<and> client_count s = 0 \<and> main_step s = None)"
proof
  note start = run_simps model1_start_def first_free [unfolded One_nat_def] recv_open recv_closed
  let ?r = "\<lambda>i. map toupper (take 128 (request i)) @ drop (length (take 128 (request i))) (fresh_block (g i) 128)"
  let ?v = "\<lambda>n d c. \<lparr> slot = n, own = d, customer = Some c, stage = Finished \<rparr>"
  let ?s = "model1_start \<lparr> cfds := (replicate 10 None)[0 := Some 4, 1 := Some 4], fds := (5, Conn 1) # first_files,
      services := [?v 0 4 0, ?v 1 5 1, ?v 1 4 (Suc (Suc 0))], accepted := Suc (Suc (Suc 0)),
      replies := [(0, Some 0, ?r 0), (Suc (Suc 0), Some 1, ?r 1)] \<rparr>"
  have "fold_opt (model1_do request g) overtaken model1_start = Some ?s" by (simp add: overtaken_def start)
  then have "(model1_step request g)\<^sup>*\<^sup>* model1_start ?s" by (rule schedule_steps)
  moreover have "answers (request 1) (?r 1)" by (simp add: answers_def)
  moreover have "(2, Some 1, ?r 1) \<in> set (replies ?s)" "1 \<notin> fst ` set (replies ?s)" by (simp_all add: numeral_2_eq_2)
  moreover have "map stage (services ?s) = [Finished, Finished, Finished]" "main ?s = Accepting" "conn_at (fds ?s) 5 = Some 1"
    by (simp_all add: model1_start_def conn_at_def)
  ultimately show "\<exists>s r. (model1_step request g)\<^sup>*\<^sup>* model1_start s \<and> (2, Some 1, r) \<in> set (replies s) \<and> answers (request 1) r \<and>
      map stage (services s) = [Finished, Finished, Finished] \<and> main s = Accepting \<and>
      1 \<notin> fst ` set (replies s) \<and> conn_at (fds s) 5 = Some 1"
    by (intro exI [of _ ?s] exI [of _ "?r 1"] conjI)
next
  note start = run_simps model1_start_def first_free [unfolded One_nat_def] recv_open
  obtain s where s: "fold_opt (model1_do request g) crossed model1_start = Some s" "main s = Storing 4" "client_count s = 0"
    by (simp add: crossed_def start)
  moreover have "main_step s = None" using s(2,3) by (simp add: main_step_def last_slot_def)
  ultimately show "\<exists>s cfd. (model1_step request g)\<^sup>*\<^sup>* model1_start s \<and> main s = Storing cfd \<and> client_count s = 0 \<and> main_step s = None"
    by (intro exI [of _ s] exI [of _ 4] conjI) (rule schedule_steps)
qed
lemma model1_safe_until_close_witness:
  "\<exists>s. (model1_step (\<lambda>_. ''hi'') (\<lambda>_ _. NUL))\<^sup>*\<^sup>* model1_start s \<and> nobody_closed s \<and> map fst (replies s) = [0] \<and>
     customer_service (\<lambda>_. ''hi'') (\<lambda>_. NUL) 0 s \<noteq> None"
proof -
  obtain s where s: "fold_opt (model1_do (\<lambda>_. ''hi'') (\<lambda>_ _. NUL)) (whole_accept @ [Thread 0, Thread 0]) model1_start = Some s"
    "nobody_closed s" "map fst (replies s) = [0]" "length (services s) = 1"
    by (simp add: run_simps model1_start_def first_free [unfolded One_nat_def] recv_open nobody_closed_def)
  then have r: "(model1_step (\<lambda>_. ''hi'') (\<lambda>_ _. NUL))\<^sup>*\<^sup>* model1_start s" by (intro schedule_steps)
  from model1_safe_until_close [OF r s(2)] s(4) have "customer_service (\<lambda>_. ''hi'') (\<lambda>_. NUL) 0 s \<noteq> None" by simp
  then show ?thesis using r s(2,3) by (intro exI [of _ s] conjI)
qed

end
