(* ===== verification/QueueServer.thy ===== *)
theory QueueServer
  imports ServerModels Threads
begin

text \<open>
  The third server model, \<open>server models/3\<close>, with all its threads: \<open>main\<close> accepts a
  connection and waits until the queue \<open>/clients\<close> has room for its descriptor; ten threads
  take a descriptor, receive, send and close.  The descriptor table of the process is part
  of the state, because the descriptors travel as one \<open>char\<close>: \<open>open\<close>, \<open>socket\<close> and
  \<open>accept\<close> return the lowest free number.  The header of the root theory says what is shown.
\<close>

section \<open>State\<close>

text \<open>A thread waits in \<open>mq_receive\<close>, has taken a descriptor, has received from it (from which
  connection is a ghost), or has answered and is about to close it.\<close>

datatype task = Waiting | Taken int | Heard int "nat option" | Answered int

record worker =
  task :: task
  bytes :: buffer

text \<open>\<open>sending\<close> is the \<open>cfd\<close> for which \<open>main\<close> is in \<open>mq_send\<close>.  \<open>replies\<close> lists what was sent:
  to which connection, for the request of which connection, and the bytes.\<close>

record pool =
  fds :: fd_table
  queue :: mq
  sending :: "int option"
  workers :: "worker list"
  accepted :: nat
  replies :: "(nat \<times> nat option \<times> string) list"

definition first_fds :: fd_table where
  "first_fds = [(0, Terminal), (1, Terminal), (2, Terminal), (3, Clients), (4, Listening)]"

definition pool_start :: "(nat \<Rightarrow> nat \<Rightarrow> char) \<Rightarrow> pool" where
  "pool_start g = \<lparr> fds = first_fds, queue = model3_queue, sending = None,
     workers = map (\<lambda>i. \<lparr> task = Waiting, bytes = fresh_block (g i) 128 \<rparr>) [0..<10], accepted = 0, replies = [] \<rparr>"

section \<open>System calls\<close>

text \<open>\<open>(char) cfd\<close>, as a byte.\<close>

definition narrow :: "int \<Rightarrow> nat" where
  "narrow d = nat (d mod 256)"

section \<open>Steps\<close>

text \<open>\<open>accept\<close> can fail, for instance because \<open>len\<close> is never initialised; \<open>main\<close> does not test
  its result and sends -1.\<close>

inductive pool_step :: "(nat \<Rightarrow> string) \<Rightarrow> pool \<Rightarrow> pool \<Rightarrow> bool" for request where
  accept: "sending s = None \<Longrightarrow> map_of (fds s) 4 = Some Listening \<Longrightarrow> d = lowest_free (fds s) \<Longrightarrow>
    pool_step request s (s \<lparr> fds := (d, Conn (accepted s)) # fds s, accepted := accepted s + 1, sending := Some (int d) \<rparr>)"
| accept_fails: "sending s = None \<Longrightarrow> pool_step request s (s \<lparr> sending := Some (-1) \<rparr>)"
| enqueue: "sending s = Some d \<Longrightarrow> model3_accept (narrow d) (queue s) = Some q \<Longrightarrow>
    pool_step request s (s \<lparr> queue := q, sending := None \<rparr>)"
| dequeue: "i < length (workers s) \<Longrightarrow> task (workers s ! i) = Waiting \<Longrightarrow> model3_take (queue s) = Some (d, q) \<Longrightarrow>
    pool_step request s (s \<lparr> queue := q, workers := (workers s)[i := (workers s ! i) \<lparr> task := Taken d \<rparr>] \<rparr>)"
| recv: "i < length (workers s) \<Longrightarrow> task (workers s ! i) = Taken d \<Longrightarrow>
    recv_request request (fds s) d (bytes (workers s ! i)) = Some (c, b) \<Longrightarrow>
    pool_step request s (s \<lparr> workers := (workers s)[i := \<lparr> task = Heard d c, bytes = b \<rparr>] \<rparr>)"
| send: "i < length (workers s) \<Longrightarrow> task (workers s ! i) = Heard d c \<Longrightarrow>
    memset (bytes (workers s ! i)) NUL 128 = Some b \<Longrightarrow>
    pool_step request s (s \<lparr> replies := replies s @ send_reply (fds s) d c (bytes (workers s ! i)),
      workers := (workers s)[i := \<lparr> task = Answered d, bytes = b \<rparr>] \<rparr>)"
| close: "i < length (workers s) \<Longrightarrow> task (workers s ! i) = Answered d \<Longrightarrow>
    pool_step request s (s \<lparr> fds := close_fd d (fds s), workers := (workers s)[i := (workers s ! i) \<lparr> task := Waiting \<rparr>] \<rparr>)"

inductive_cases pool_stepE: "pool_step request s s'"

section \<open>Descriptors in flight\<close>

text \<open>The descriptors some thread still has to close, and those whose request is unanswered.\<close>

fun of_task :: "task \<Rightarrow> int multiset" where
  "of_task Waiting = {#}"
| "of_task (Taken d) = {#d#}"
| "of_task (Heard d c) = {#d#}"
| "of_task (Answered d) = {#d#}"

fun unanswered_of_task :: "task \<Rightarrow> int multiset" where
  "unanswered_of_task (Answered d) = {#}"
| "unanswered_of_task t = of_task t"

definition before_workers :: "pool \<Rightarrow> int multiset" where
  "before_workers s = (case sending s of None \<Rightarrow> {#} | Some d \<Rightarrow> {#d#}) + mset (map fd_of_message (mq_msgs (queue s)))"

definition in_flight :: "pool \<Rightarrow> int multiset" where
  "in_flight s = before_workers s + (\<Sum>w \<in># mset (workers s). of_task (task w))"

definition unanswered :: "pool \<Rightarrow> int multiset" where
  "unanswered s = before_workers s + (\<Sum>w \<in># mset (workers s). unanswered_of_task (task w))"

abbreviation valid :: "int multiset \<Rightarrow> int multiset" where
  "valid M \<equiv> filter_mset (\<lambda>d. 0 \<le> d) M"

lemma in_flight_worker:
  assumes "i < length (workers s)" "workers s' = (workers s)[i := w]" "before_workers s' = before_workers s"
  shows "in_flight s' + of_task (task (workers s ! i)) = in_flight s + of_task (task w)"
    and "unanswered s' + unanswered_of_task (task (workers s ! i)) = unanswered s + unanswered_of_task (task w)"
  using sum_mset_update [OF assms(1), of "\<lambda>w. of_task (task w)" w]
    sum_mset_update [OF assms(1), of "\<lambda>w. unanswered_of_task (task w)" w] assms(2,3)
  by (simp_all add: in_flight_def unanswered_def ac_simps)

lemma unanswered_in_flight: "unanswered s \<subseteq># in_flight s"
proof -
  have "unanswered_of_task t \<subseteq># of_task t" for t by (cases t) simp_all
  then have "(\<Sum>w \<in># M. unanswered_of_task (task w)) \<subseteq># (\<Sum>w \<in># M. of_task (task w))" for M
    by (induction M) (simp_all add: subset_mset.add_mono)
  then show ?thesis by (simp add: unanswered_def in_flight_def subset_mset.add_mono)
qed

lemma valid_sub: "M \<subseteq># N \<Longrightarrow> d \<in># valid M \<Longrightarrow> d \<in># valid N"
  using mset_subset_eqD by fastforce

section \<open>Descriptor tables\<close>

definition fds_ok :: "fd_table \<Rightarrow> nat \<Rightarrow> bool" where
  "fds_ok tbl n \<longleftrightarrow> distinct (map fst tbl) \<and> filter (\<lambda>e. \<not> is_conn (snd e)) tbl = first_fds \<and>
     (\<forall>e \<in> set tbl. fst e < 26) \<and> distinct (map snd (conns tbl)) \<and> (\<forall>e \<in> set (conns tbl). \<exists>c < n. snd e = Conn c)"

lemma fds_length: "fds_ok tbl n \<Longrightarrow> length tbl = 5 + length (conns tbl)"
  using sum_length_filter_compl [of "\<lambda>e. is_conn (snd e)" tbl]
  by (simp add: fds_ok_def conns_def first_fds_def)

lemma conns_conn_at:
  assumes "fds_ok tbl n" "d \<in># image_mset int (mset (map fst (conns tbl)))"
  shows "0 \<le> d \<and> d < 26 \<and> (\<exists>c < n. conn_at tbl d = Some c)"
proof -
  obtain e where e: "e \<in> set (conns tbl)" "d = int (fst e)" using assms(2) by auto
  then obtain c where "c < n" "snd e = Conn c" using assms(1) by (auto simp: fds_ok_def)
  moreover have "e \<in> set tbl" using e(1) by (simp add: conns_def)
  moreover have "conn_at tbl d = Some c"
    using assms(1) e(2) \<open>snd e = Conn c\<close> \<open>e \<in> set tbl\<close> by (cases e) (simp add: fds_ok_def conn_at_iff)
  ultimately show ?thesis using assms(1) e(2) by (auto simp: fds_ok_def)
qed

lemma conns_distinct: "fds_ok tbl n \<Longrightarrow> distinct (map fst (conns tbl))"
  by (simp add: fds_ok_def conns_def distinct_map_filter)

lemma fds_ok_accept:
  assumes "fds_ok tbl n" "length (conns tbl) \<le> 20"
  shows "fds_ok ((lowest_free tbl, Conn n) # tbl) (Suc n)"
proof -
  have "lowest_free tbl < 26" using lowest_free(1) [of tbl] fds_length [OF assms(1)] assms(2) by simp
  moreover have "conns ((lowest_free tbl, Conn n) # tbl) = (lowest_free tbl, Conn n) # conns tbl" by (simp add: conns_def)
  moreover have "\<forall>e \<in> set (conns tbl). \<exists>c < Suc n. snd e = Conn c" using assms(1) unfolding fds_ok_def by (meson less_SucI)
  moreover have "Conn n \<notin> snd ` set (conns tbl)" using assms(1) unfolding fds_ok_def by fastforce
  ultimately show ?thesis using assms(1) lowest_free(2) [of tbl] unfolding fds_ok_def by simp
qed

lemma fds_ok_close:
  assumes "fds_ok tbl n" "0 \<le> d \<longrightarrow> d \<in># image_mset int (mset (map fst (conns tbl)))"
  shows "fds_ok (close_fd d tbl) n"
    and "mset (map fst (conns (close_fd d tbl))) = mset (map fst (conns tbl)) - (if 0 \<le> d then {#nat d#} else {#})"
proof -
  have c: "conns (close_fd d tbl) = filter (\<lambda>e. int (fst e) \<noteq> d) (conns tbl)"
    by (simp add: conns_def close_fd_def conj_commute)
  have keep: "int (fst e) \<noteq> d" if "e \<in> set tbl" "\<not> is_conn (snd e)" for e
  proof
    assume e: "int (fst e) = d"
    then obtain e' where e': "e' \<in> set tbl" "is_conn (snd e')" "fst e' = fst e" using assms(2) by (auto simp: conns_def)
    have "e' = e" using assms(1) that(1) e'(1,3) unfolding fds_ok_def by (auto simp: distinct_map dest: inj_onD)
    then show False using that(2) e'(2) by simp
  qed
  have "filter (\<lambda>e. \<not> is_conn (snd e)) (close_fd d tbl) = filter (\<lambda>e. \<not> is_conn (snd e)) tbl"
    unfolding close_fd_def filter_filter using keep by (intro filter_cong) auto
  then show "fds_ok (close_fd d tbl) n"
    using assms(1) unfolding fds_ok_def c by (auto simp: close_fd_def distinct_map_filter)
  have "map fst (conns (close_fd d tbl)) = filter (\<lambda>k. int k \<noteq> d) (map fst (conns tbl))"
    by (simp add: c filter_map comp_def)
  also have "mset \<dots> = mset (map fst (conns tbl)) - (if 0 \<le> d then {#nat d#} else {#})"
  proof (cases "0 \<le> d")
    case True
    then have "(\<lambda>k. int k \<noteq> d) = (\<lambda>k. nat d \<noteq> k)" by auto
    then show ?thesis
      using conns_distinct [OF assms(1)] True
      by (simp add: removeAll_filter_not_eq [symmetric] distinct_remove1_removeAll [symmetric])
  next
    case False
    then have "filter (\<lambda>k. int k \<noteq> d) (map fst (conns tbl)) = map fst (conns tbl)" by (auto simp: filter_id_conv)
    with False show ?thesis by (simp del: filter_mset_image_mset)
  qed
  finally show "mset (map fst (conns (close_fd d tbl))) = mset (map fst (conns tbl)) - (if 0 \<le> d then {#nat d#} else {#})" .
qed

section \<open>The invariant\<close>

definition worker_ok :: "(nat \<Rightarrow> string) \<Rightarrow> fd_table \<Rightarrow> worker \<Rightarrow> bool" where
  "worker_ok request tbl w \<longleftrightarrow> length (bytes w) = 128 \<and>
     (\<forall>d c. task w = Heard d c \<longrightarrow> c = conn_at tbl d \<and> (\<forall>k. c = Some k \<longrightarrow> answers (request k) (bytes w)))"

definition queue_ok :: "mq \<Rightarrow> bool" where
  "queue_ok q \<longleftrightarrow> mq_maxmsg q = 10 \<and> mq_msgsize q = 2 \<and> length (mq_msgs q) \<le> 10 \<and> (\<forall>m \<in> set (mq_msgs q). length m = 2)"

definition flight_ok :: "fd_table \<Rightarrow> int multiset \<Rightarrow> bool" where
  "flight_ok tbl M \<longleftrightarrow> (\<forall>d \<in># M. -1 \<le> d) \<and> valid M = image_mset int (mset (map fst (conns tbl)))"

definition accounted :: "pool \<Rightarrow> bool" where
  "accounted s \<longleftrightarrow>
     image_mset (\<lambda>d. the (conn_at (fds s) d)) (valid (unanswered s)) + mset (map fst (replies s)) = mset [0..<accepted s]"

definition pool_inv :: "(nat \<Rightarrow> string) \<Rightarrow> pool \<Rightarrow> bool" where
  "pool_inv request s \<longleftrightarrow> length (workers s) = 10 \<and> queue_ok (queue s) \<and> fds_ok (fds s) (accepted s) \<and>
     flight_ok (fds s) (in_flight s) \<and> (\<forall>w \<in> set (workers s). worker_ok request (fds s) w) \<and>
     replies_ok request (replies s) \<and> accounted s"

lemmas pool_inv_parts = pool_inv_def queue_ok_def flight_ok_def replies_ok_def accounted_def

lemma flight_conn:
  assumes "pool_inv request s" "d \<in># in_flight s" "0 \<le> d"
  shows "d < 26 \<and> (\<exists>c < accepted s. conn_at (fds s) d = Some c)"
proof -
  have "d \<in># valid (in_flight s)" using assms(2,3) by simp
  then have "d \<in># image_mset int (mset (map fst (conns (fds s))))"
    using assms(1) unfolding pool_inv_def flight_ok_def by metis
  then show ?thesis using conns_conn_at [of "fds s" "accepted s" d] assms(1) by (simp add: pool_inv_def)
qed

lemma flight_unique:
  assumes "pool_inv request s" "in_flight s = add_mset d M" "0 \<le> d"
  shows "d \<notin># M"
proof
  assume "d \<in># M"
  then obtain N where "M = add_mset d N" by (metis insert_DiffM)
  then have v: "valid (in_flight s) = add_mset d (add_mset d (valid N))" using assms(2,3) by simp
  have "image_mset int (mset (map fst (conns (fds s)))) = mset (map int (map fst (conns (fds s))))" by (simp only: mset_map)
  then have "mset (map int (map fst (conns (fds s)))) = mset (d # d # sorted_list_of_multiset (valid N))"
    using v assms(1) by (simp add: pool_inv_def flight_ok_def)
  moreover have "distinct (map int (map fst (conns (fds s))))"
    using conns_distinct assms(1) by (auto simp: pool_inv_def distinct_map inj_on_def)
  ultimately have "distinct (d # d # sorted_list_of_multiset (valid N))" by (metis mset_eq_imp_distinct_iff)
  then show False by simp
qed

lemma size_tasks: "size (\<Sum>w \<in># M. of_task (task w)) \<le> size M"
proof (induction M)
  case (add w M)
  have "size (of_task (task w)) \<le> 1" by (cases "task w") simp_all
  with add show ?case by simp
qed simp

lemma conns_bound:
  assumes "pool_inv request s" "sending s = None"
  shows "length (conns (fds s)) \<le> 20"
proof -
  have "length (conns (fds s)) = size (valid (in_flight s))"
    using assms(1) by (simp add: pool_inv_def flight_ok_def)
  also have "\<dots> \<le> size (in_flight s)" by (simp add: size_filter_mset_lesseq)
  also have "\<dots> \<le> 20"
    using size_tasks [of "mset (workers s)"] assms by (simp add: in_flight_def before_workers_def pool_inv_parts)
  finally show ?thesis .
qed

lemma conn_in_flight_cong:
  assumes "\<And>d. d \<in># valid M \<Longrightarrow> conn_at tbl d = conn_at tbl' d"
  shows "image_mset (\<lambda>d. the (conn_at tbl d)) (valid M) = image_mset (\<lambda>d. the (conn_at tbl' d)) (valid M)"
  using assms by (intro image_mset_cong) simp

lemma narrow_roundtrip: "-1 \<le> d \<Longrightarrow> d < 128 \<Longrightarrow> fd_of_message (fd_message (narrow d)) = d"
proof -
  assume d: "-1 \<le> d" "d < 128"
  show ?thesis
  proof (cases "d = -1")
    case True
    then show ?thesis using fd_roundtrip [of 255] by (simp add: narrow_def)
  next
    case False
    then show ?thesis using d fd_roundtrip [of "nat d"] by (simp add: narrow_def)
  qed
qed

section \<open>Every step keeps the invariant\<close>

lemma accept_inv:
  assumes inv: "pool_inv request s" and idle: "sending s = None"
    and s': "s' = s \<lparr> fds := (lowest_free (fds s), Conn (accepted s)) # fds s, accepted := accepted s + 1,
      sending := Some (int (lowest_free (fds s))) \<rparr>"
  shows "pool_inv request s'"
proof -
  let ?d = "lowest_free (fds s)"
  have bw: "before_workers s' = add_mset (int ?d) (before_workers s)" by (simp add: before_workers_def s' idle)
  then have fl: "in_flight s' = add_mset (int ?d) (in_flight s)"
    and un: "unanswered s' = add_mset (int ?d) (unanswered s)" by (simp_all add: in_flight_def unanswered_def s')
  have fresh: "d \<noteq> int ?d" if "d \<in># in_flight s" "0 \<le> d" for d
  proof
    assume d: "d = int ?d"
    obtain c where "conn_at (fds s) (int ?d) = Some c" using flight_conn [OF inv \<open>d \<in># in_flight s\<close> \<open>0 \<le> d\<close>] d by auto
    then have "?d \<in> fst ` set (fds s)" using inv by (force simp: pool_inv_def fds_ok_def conn_at_iff)
    then show False using lowest_free(2) by blast
  qed
  have same: "conn_at (fds s') d = conn_at (fds s) d" if "d \<noteq> int ?d" for d
    using that by (simp add: s' conn_at_Cons)
  have new: "conn_at (fds s') (int ?d) = Some (accepted s)" by (simp add: s' conn_at_def)
  have "conns (fds s') = (?d, Conn (accepted s)) # conns (fds s)" by (simp add: conns_def s')
  then have 1: "flight_ok (fds s') (in_flight s')" using inv unfolding pool_inv_def flight_ok_def fl by simp
  have "conn_at (fds s') d = conn_at (fds s) d" if "d \<in># valid (unanswered s)" for d
    using valid_sub [OF unanswered_in_flight that] fresh same by simp
  then have "image_mset (\<lambda>d. the (conn_at (fds s') d)) (valid (unanswered s')) =
      add_mset (accepted s) (image_mset (\<lambda>d. the (conn_at (fds s) d)) (valid (unanswered s)))"
    using conn_in_flight_cong [of "unanswered s" "fds s'" "fds s"] new by (simp add: un)
  then have 2: "accounted s'" using inv unfolding pool_inv_def accounted_def by (simp add: s')
  have "worker_ok request (fds s') w" if "w \<in> set (workers s)" for w
  proof -
    have "conn_at (fds s') d = conn_at (fds s) d" if "task w = Heard d c" for d c
    proof (cases "0 \<le> d")
      case True
      have "d \<in># (\<Sum>w \<in># mset (workers s). of_task (task w))"
        using \<open>w \<in> set (workers s)\<close> that by (auto intro!: bexI [of _ w])
      then show ?thesis using fresh [of d] same [of d] True by (simp add: in_flight_def)
    qed (simp add: conn_at_def)
    then show ?thesis using inv that unfolding pool_inv_def worker_ok_def by fastforce
  qed
  then have 3: "\<forall>w \<in> set (workers s'). worker_ok request (fds s') w" by (simp add: s')
  have "fds_ok (fds s') (accepted s')"
    using fds_ok_accept [OF _ conns_bound [OF inv idle], of "accepted s"] inv by (simp add: s' pool_inv_def)
  then show ?thesis using inv 1 2 3 unfolding pool_inv_def by (simp add: s')
qed

text \<open>The steps that leave the descriptor table as it is.\<close>

lemma worker_inv: "pool_inv request s \<Longrightarrow> i < length (workers s) \<Longrightarrow> worker_ok request (fds s) (workers s ! i)"
  unfolding pool_inv_def by simp

lemma workers_update:
  assumes "pool_inv request s" "worker_ok request (fds s) w"
  shows "\<forall>v \<in> set ((workers s)[i := w]). worker_ok request (fds s) v"
  using assms unfolding pool_inv_def by (intro set_update_all) simp_all

lemma same_fds_inv:
  assumes inv: "pool_inv request s" and fds: "fds s' = fds s" "accepted s' = accepted s"
    and "length (workers s') = 10" "queue_ok (queue s')" "\<forall>w \<in> set (workers s'). worker_ok request (fds s) w"
    and fl: "valid (in_flight s') = valid (in_flight s)" "\<forall>d \<in># in_flight s'. -1 \<le> d"
    and "replies_ok request (replies s')"
    and acc: "image_mset (\<lambda>d. the (conn_at (fds s) d)) (valid (unanswered s')) + mset (map fst (replies s')) =
      image_mset (\<lambda>d. the (conn_at (fds s) d)) (valid (unanswered s)) + mset (map fst (replies s))"
  shows "pool_inv request s'"
  using assms unfolding pool_inv_def flight_ok_def accounted_def by simp

lemma accept_fails_inv:
  assumes "pool_inv request s" "sending s = None" "s' = s \<lparr> sending := Some (-1) \<rparr>"
  shows "pool_inv request s'"
proof -
  have "in_flight s' = add_mset (-1) (in_flight s)" "unanswered s' = add_mset (-1) (unanswered s)"
    using assms by (simp_all add: in_flight_def unanswered_def before_workers_def)
  then show ?thesis using assms by (intro same_fds_inv [OF assms(1)]) (auto simp: pool_inv_def flight_ok_def)
qed

lemma enqueue_inv:
  assumes inv: "pool_inv request s" and s: "sending s = Some d" "model3_accept (narrow d) (queue s) = Some q"
    and s': "s' = s \<lparr> queue := q, sending := None \<rparr>"
  shows "pool_inv request s'"
proof -
  have "d \<in># in_flight s" by (simp add: in_flight_def before_workers_def s)
  then have "-1 \<le> d" "d < 128"
    using inv flight_conn [OF inv, of d] by (auto simp: pool_inv_def flight_ok_def) linarith
  then have rt: "fd_of_message (fd_message (narrow d)) = d" by (rule narrow_roundtrip)
  have room: "length (mq_msgs (queue s)) < 10"
    using s(2) inv by (auto simp: model3_accept_def pool_inv_parts split: if_splits)
  have q: "q = queue s \<lparr> mq_msgs := mq_msgs (queue s) @ [fd_message (narrow d)] \<rparr>"
    using s(2) inv by (auto simp: model3_accept_def mq_send_def mq_push_def mq_fits_def fd_message_def pool_inv_parts split: if_splits)
  have "before_workers s' = before_workers s" by (simp add: before_workers_def s' q s(1) rt)
  then have "in_flight s' = in_flight s" "unanswered s' = unanswered s" by (simp_all add: in_flight_def unanswered_def s')
  moreover have "queue_ok q" using inv room by (auto simp: pool_inv_def queue_ok_def q fd_message_def)
  ultimately show ?thesis using inv unfolding s' by (intro same_fds_inv [OF inv]) (simp_all add: pool_inv_def flight_ok_def)
qed

lemma model3_take_some:
  assumes "model3_take q = Some (d, q')" "mq_msgsize q = 2" "\<forall>m \<in> set (mq_msgs q). length m = 2"
  shows "\<exists>m ms. mq_msgs q = m # ms \<and> q' = q \<lparr> mq_msgs := ms \<rparr> \<and> d = fd_of_message m"
proof (cases "mq_msgs q")
  case Nil
  then show ?thesis using assms by (simp add: model3_take_def mq_receive_def mq_pop_def)
next
  case (Cons m ms)
  then have "put_bytes [NUL, NUL] 0 m = Some m" using assms(3) by (simp add: put_bytes_def)
  then show ?thesis using assms(1,2) Cons by (simp add: model3_take_def mq_receive_def mq_pop_def)
qed

lemma dequeue_inv:
  assumes inv: "pool_inv request s" and s: "i < length (workers s)" "task (workers s ! i) = Waiting" "model3_take (queue s) = Some (d, q)"
    and s': "s' = s \<lparr> queue := q, workers := (workers s)[i := (workers s ! i) \<lparr> task := Taken d \<rparr>] \<rparr>"
  shows "pool_inv request s'"
proof -
  let ?s1 = "s \<lparr> queue := q \<rparr>"
  obtain m ms where m: "mq_msgs (queue s) = m # ms" "q = queue s \<lparr> mq_msgs := ms \<rparr>" "d = fd_of_message m"
    using model3_take_some [OF s(3)] inv by (auto simp: pool_inv_def queue_ok_def)
  have "in_flight s = add_mset d (in_flight ?s1)" "unanswered s = add_mset d (unanswered ?s1)"
    by (simp_all add: in_flight_def unanswered_def before_workers_def m)
  moreover have "before_workers s' = before_workers ?s1" by (simp add: before_workers_def s')
  ultimately have same: "in_flight s' = in_flight s" "unanswered s' = unanswered s"
    using in_flight_worker [of i ?s1 s' "(workers s ! i) \<lparr> task := Taken d \<rparr>"] s(1,2) by (simp_all add: s')
  have "worker_ok request (fds s) ((workers s ! i) \<lparr> task := Taken d \<rparr>)"
    using worker_inv [OF inv s(1)] by (simp add: worker_ok_def)
  then have "\<forall>w \<in> set (workers s'). worker_ok request (fds s) w"
    using workers_update [OF inv] by (simp add: s')
  moreover have "queue_ok q" using inv m(1,2) by (auto simp: pool_inv_def queue_ok_def)
  ultimately show ?thesis using inv same by (intro same_fds_inv [OF inv]) (simp_all add: s' pool_inv_def flight_ok_def)
qed

lemma recv_inv:
  assumes inv: "pool_inv request s" and s: "i < length (workers s)" "task (workers s ! i) = Taken d"
      "recv_request request (fds s) d (bytes (workers s ! i)) = Some (c, b)"
    and s': "s' = s \<lparr> workers := (workers s)[i := \<lparr> task = Heard d c, bytes = b \<rparr>] \<rparr>"
  shows "pool_inv request s'"
proof -
  have "before_workers s' = before_workers s" by (simp add: before_workers_def s')
  then have same: "in_flight s' = in_flight s" "unanswered s' = unanswered s"
    using in_flight_worker [of i s s' "\<lparr> task = Heard d c, bytes = b \<rparr>"] s(1,2) by (simp_all add: s')
  have "length (bytes (workers s ! i)) = 128" using worker_inv [OF inv s(1)] by (simp add: worker_ok_def)
  then have "worker_ok request (fds s) \<lparr> task = Heard d c, bytes = b \<rparr>"
    using recv_request_some [OF s(3)] by (simp add: worker_ok_def)
  then have "\<forall>w \<in> set (workers s'). worker_ok request (fds s) w" using workers_update [OF inv] by (simp add: s')
  then show ?thesis using inv same by (intro same_fds_inv [OF inv]) (simp_all add: s' pool_inv_def flight_ok_def)
qed

lemma send_inv:
  assumes inv: "pool_inv request s" and s: "i < length (workers s)" "task (workers s ! i) = Heard d c"
      "memset (bytes (workers s ! i)) NUL 128 = Some b"
    and s': "s' = s \<lparr> replies := replies s @ send_reply (fds s) d c (bytes (workers s ! i)),
      workers := (workers s)[i := \<lparr> task = Answered d, bytes = b \<rparr>] \<rparr>"
  shows "pool_inv request s'"
proof -
  let ?b = "bytes (workers s ! i)"
  have "before_workers s' = before_workers s" by (simp add: before_workers_def s')
  then have same: "in_flight s' = in_flight s" and un: "unanswered s = add_mset d (unanswered s')"
    using in_flight_worker [of i s s' "\<lparr> task = Answered d, bytes = b \<rparr>"] s(1,2) by (simp_all add: s')
  have w: "length ?b = 128" "c = conn_at (fds s) d" "\<And>k. c = Some k \<Longrightarrow> answers (request k) ?b"
    using worker_inv [OF inv s(1)] s(2) by (simp_all add: worker_ok_def)
  have "b = replicate 128 NUL" using s(3) w(1) memset_all [of ?b 128 NUL] by simp
  then have "worker_ok request (fds s) \<lparr> task = Answered d, bytes = b \<rparr>" by (simp add: worker_ok_def)
  then have 1: "\<forall>w \<in> set (workers s'). worker_ok request (fds s) w" using workers_update [OF inv] by (simp add: s')
  have 2: "replies_ok request (replies s')"
    using inv w by (auto simp: s' pool_inv_def replies_ok_def send_reply_def split: option.splits)
  have "d \<in># in_flight s" using un valid_sub unanswered_in_flight mset_subset_eqD by (metis union_single_eq_member)
  then have "image_mset (\<lambda>d. the (conn_at (fds s) d)) (valid (unanswered s')) + mset (map fst (replies s')) =
      image_mset (\<lambda>d. the (conn_at (fds s) d)) (valid (unanswered s)) + mset (map fst (replies s))"
    using flight_conn [OF inv, of d] by (auto simp: un s' send_reply_def conn_at_def)
  then show ?thesis using inv same 1 2 by (intro same_fds_inv [OF inv]) (simp_all add: s' pool_inv_def flight_ok_def)
qed

lemma close_inv:
  assumes inv: "pool_inv request s" and s: "i < length (workers s)" "task (workers s ! i) = Answered d"
    and s': "s' = s \<lparr> fds := close_fd d (fds s), workers := (workers s)[i := (workers s ! i) \<lparr> task := Waiting \<rparr>] \<rparr>"
  shows "pool_inv request s'"
proof -
  have "before_workers s' = before_workers s" by (simp add: before_workers_def s')
  then have fl: "in_flight s = add_mset d (in_flight s')" and un: "unanswered s' = unanswered s"
    using in_flight_worker [of i s s' "(workers s ! i) \<lparr> task := Waiting \<rparr>"] s(1,2) by (simp_all add: s')
  have other: "conn_at (fds s') e = conn_at (fds s) e" if "e \<in># in_flight s'" for e
  proof (cases "e = d")
    case True
    then have "\<not> 0 \<le> d" using flight_unique [OF inv fl] that by auto
    then show ?thesis using True by (simp add: conn_at_def)
  qed (simp add: s' conn_at_close)
  have v: "valid (in_flight s) = image_mset int (mset (map fst (conns (fds s))))"
    using inv unfolding pool_inv_def flight_ok_def by blast
  have "0 \<le> d \<longrightarrow> d \<in># image_mset int (mset (map fst (conns (fds s))))" unfolding v [symmetric] by (simp add: fl)
  note closed = fds_ok_close [OF _ this, of "accepted s"]
  have ok: "fds_ok (fds s) (accepted s)" using inv by (simp add: pool_inv_def)
  have "valid (in_flight s') = valid (in_flight s) - (if 0 \<le> d then {#d#} else {#})" by (simp add: fl)
  also have "\<dots> = image_mset int (mset (map fst (conns (fds s'))))"
  proof (cases "0 \<le> d")
    case True
    have "d \<in># valid (in_flight s)" using True by (simp add: fl)
    then have "nat d \<in># mset (map fst (conns (fds s)))" unfolding v by (auto intro: rev_image_eqI)
    then have "image_mset int (mset (map fst (conns (fds s))) - {#nat d#}) =
        image_mset int (mset (map fst (conns (fds s)))) - {#int (nat d)#}" by (simp add: image_mset_Diff)
    then show ?thesis using True closed(2) [OF ok] v by (simp add: s')
  next
    case False
    then show ?thesis using closed(2) [OF ok] v by (simp add: s')
  qed
  finally have 1: "flight_ok (fds s') (in_flight s')" using inv fl by (simp add: pool_inv_def flight_ok_def)
  have 2: "\<forall>w \<in> set (workers s'). worker_ok request (fds s') w"
  proof
    fix w assume w: "w \<in> set (workers s')"
    have "worker_ok request (fds s) ((workers s ! i) \<lparr> task := Waiting \<rparr>)"
      using worker_inv [OF inv s(1)] by (simp add: worker_ok_def)
    then have ok: "worker_ok request (fds s) w" using workers_update [OF inv] w by (simp add: s')
    have "conn_at (fds s') e = conn_at (fds s) e" if "task w = Heard e c" for e c
      using that w by (intro other) (auto simp: in_flight_def intro!: bexI [of _ w])
    then show "worker_ok request (fds s') w" using ok by (auto simp: worker_ok_def)
  qed
  have "image_mset (\<lambda>d. the (conn_at (fds s') d)) (valid (unanswered s)) =
      image_mset (\<lambda>d. the (conn_at (fds s) d)) (valid (unanswered s))"
    using other mset_subset_eqD [OF unanswered_in_flight, of _ s'] by (intro conn_in_flight_cong) (simp add: un)
  then have 3: "accounted s'" using inv un by (simp add: pool_inv_def accounted_def s')
  show ?thesis using inv 1 2 3 closed(1) [OF ok] by (simp add: pool_inv_def s')
qed

lemma pool_step_inv:
  assumes "pool_inv request s" "pool_step request s s'"
  shows "pool_inv request s'"
  using assms(2)
proof cases
  case (accept d)
  then show ?thesis using accept_inv [OF assms(1)] by simp
qed (use assms(1) in \<open>blast intro: accept_fails_inv enqueue_inv dequeue_inv recv_inv send_inv close_inv\<close>)+

lemma pool_start_inv: "pool_inv request (pool_start g)"
proof -
  have "(\<Sum>w \<in># mset (map (\<lambda>i. \<lparr> task = Waiting, bytes = fresh_block (g i) 128 \<rparr>) xs). of_task (task w)) = {#}"
    "(\<Sum>w \<in># mset (map (\<lambda>i. \<lparr> task = Waiting, bytes = fresh_block (g i) 128 \<rparr>) xs). unanswered_of_task (task w)) = {#}"
    for xs :: "nat list" by (induction xs) simp_all
  then have "in_flight (pool_start g) = {#}" "unanswered (pool_start g) = {#}"
    unfolding in_flight_def unanswered_def by (simp_all add: pool_start_def before_workers_def model3_queue_def del: upt_rec_numeral)
  then show ?thesis
    by (auto simp: pool_inv_parts fds_ok_def conns_def first_fds_def worker_ok_def pool_start_def model3_queue_def)
qed

interpretation pool: transition_system "\<lambda>s. s = pool_start g" "pool_step request" "pool_inv request" for request g
  by unfold_locales (auto intro: pool_start_inv pool_step_inv)

section \<open>What the invariant says\<close>

fun descriptor :: "task \<Rightarrow> int option" where
  "descriptor Waiting = None"
| "descriptor (Taken d) = Some d"
| "descriptor (Heard d c) = Some d"
| "descriptor (Answered d) = Some d"

definition serving :: "pool \<Rightarrow> nat \<Rightarrow> nat option" where
  "serving s i = Option.bind (descriptor (task (workers s ! i))) (conn_at (fds s))"

lemma serving_in_flight:
  assumes "i < length (workers s)" "serving s i = Some c"
  obtains d where "of_task (task (workers s ! i)) = {#d#}" "conn_at (fds s) d = Some c"
  using assms by (cases "task (workers s ! i)") (auto simp: serving_def)

lemma serving_injective:
  assumes inv: "pool_inv request s" and ij: "i < 10" "j < 10" "i \<noteq> j" and "serving s i = Some c"
  shows "serving s j \<noteq> Some c"
proof
  assume "serving s j = Some c"
  have l: "length (workers s) = 10" using inv by (simp add: pool_inv_def)
  obtain d where d: "of_task (task (workers s ! i)) = {#d#}" "conn_at (fds s) d = Some c"
    using serving_in_flight [of i s c] assms(5) ij l by auto
  obtain e where e: "of_task (task (workers s ! j)) = {#e#}" "conn_at (fds s) e = Some c"
    using serving_in_flight [of j s c] \<open>serving s j = Some c\<close> ij l by auto
  have fl: "\<exists>M. in_flight s = add_mset d (add_mset e M)"
    using tasks_split [of i "workers s" j "\<lambda>w. of_task (task w)"] ij l d(1) e(1) by (simp add: in_flight_def)
  have pos: "0 \<le> d" "0 \<le> e" using d(2) e(2) by (auto simp: conn_at_def split: if_splits)
  have "d = e"
  proof -
    have ok: "distinct (map fst (fds s))" "distinct (map snd (conns (fds s)))"
      using inv by (simp_all add: pool_inv_def fds_ok_def)
    have "(nat d, Conn c) \<in> set (conns (fds s))" "(nat e, Conn c) \<in> set (conns (fds s))"
      using d(2) e(2) ok(1) by (simp_all add: conns_def conn_at_iff)
    then have "nat d = nat e" using ok(2) inj_onD [of snd "set (conns (fds s))" "(nat d, Conn c)" "(nat e, Conn c)"] by (simp add: distinct_map)
    then show ?thesis using pos by simp
  qed
  then show False using fl flight_unique [OF inv _ pos(1)] by auto
qed

lemma pool_replies:
  assumes inv: "pool_inv request s"
  shows "\<forall>(c', c, r) \<in> set (replies s). c' < accepted s \<and> c = Some c' \<and> answers (request c') r"
    and "distinct (map fst (replies s))"
proof -
  have acc: "mset (map fst (replies s)) \<subseteq># mset [0..<accepted s]"
    using inv mset_subset_eq_add_right unfolding pool_inv_def accounted_def by metis
  have "fst x < accepted s" if "x \<in> set (replies s)" for x
    using mset_subset_eqD [OF acc, of "fst x"] that by auto
  then show "\<forall>(c', c, r) \<in> set (replies s). c' < accepted s \<and> c = Some c' \<and> answers (request c') r"
    using inv unfolding pool_inv_def replies_ok_def by fastforce
  show "distinct (map fst (replies s))" by (rule distinct_sub [OF acc]) simp
qed

text \<open>
  C35.  The third server, with its queue, descriptor table and ten threads in any interleaving:
  every reply goes to the connection whose request it answers and is that request in
  capitals, no connection is answered twice, and no two threads serve the same one.
\<close>

theorem queue_server_safe:
  assumes "(pool_step request)\<^sup>*\<^sup>* (pool_start g) s"
  shows "(\<forall>(c', c, r) \<in> set (replies s). c' < accepted s \<and> c = Some c' \<and> answers (request c') r) \<and>
    distinct (map fst (replies s)) \<and>
    (\<forall>i < 10. \<forall>j < 10. i \<noteq> j \<longrightarrow> serving s i \<noteq> None \<longrightarrow> serving s i \<noteq> serving s j)"
proof (intro conjI)
  have inv: "pool_inv request s" by (rule pool.reachable_inv [OF refl assms])
  show "\<forall>(c', c, r) \<in> set (replies s). c' < accepted s \<and> c = Some c' \<and> answers (request c') r" "distinct (map fst (replies s))"
    by (fact pool_replies [OF inv])+
  show "\<forall>i < 10. \<forall>j < 10. i \<noteq> j \<longrightarrow> serving s i \<noteq> None \<longrightarrow> serving s i \<noteq> serving s j"
    using serving_injective [OF inv] by (metis option.exhaust)
qed

text \<open>
  C36.  Although a descriptor travels as one signed \<open>char\<close>, none is ever mangled: since \<open>main\<close>
  waits while the queue is full, at most 21 connections are open at a time, all descriptors
  are below 26, and what waits in the queue is the descriptor of an open connection, or the
  -1 of a failed \<open>accept\<close>.
\<close>

theorem queue_server_descriptors:
  assumes "(pool_step request)\<^sup>*\<^sup>* (pool_start g) s"
  shows "length (conns (fds s)) \<le> 21 \<and> (\<forall>d \<in> set (map fst (fds s)). d < 26) \<and>
    (\<forall>m \<in> set (mq_msgs (queue s)). fd_of_message m = -1 \<or> conn_at (fds s) (fd_of_message m) \<noteq> None)"
proof (intro conjI)
  have inv: "pool_inv request s" by (rule pool.reachable_inv [OF refl assms])
  have "length (fds s) \<le> 26"
  proof -
    have d: "distinct (map fst (fds s))" and "\<forall>e \<in> set (fds s). fst e < 26"
      using inv by (simp_all add: pool_inv_def fds_ok_def)
    then have "set (map fst (fds s)) \<subseteq> {..<26}" by auto
    then have "card (set (map fst (fds s))) \<le> 26" using card_mono [of "{..<26 :: nat}"] by fastforce
    then show ?thesis using distinct_card [OF d] by simp
  qed
  then show "length (conns (fds s)) \<le> 21" using fds_length inv by (fastforce simp: pool_inv_def)
  show "\<forall>d \<in> set (map fst (fds s)). d < 26" using inv by (simp add: pool_inv_def fds_ok_def)
  show "\<forall>m \<in> set (mq_msgs (queue s)). fd_of_message m = -1 \<or> conn_at (fds s) (fd_of_message m) \<noteq> None"
  proof
    fix m assume "m \<in> set (mq_msgs (queue s))"
    then have m: "fd_of_message m \<in># in_flight s" by (simp add: in_flight_def before_workers_def)
    then have "-1 \<le> fd_of_message m" using inv by (simp add: pool_inv_def flight_ok_def)
    then show "fd_of_message m = -1 \<or> conn_at (fds s) (fd_of_message m) \<noteq> None"
      using flight_conn [OF inv m] by (cases "0 \<le> fd_of_message m") auto
  qed
qed

section \<open>Every accepted connection can be answered\<close>

fun task_left :: "task \<Rightarrow> nat" where
  "task_left Waiting = 0"
| "task_left (Answered d) = 1"
| "task_left (Heard d c) = 2"
| "task_left (Taken d) = 3"

definition work_left :: "pool \<Rightarrow> nat" where
  "work_left s = (case sending s of None \<Rightarrow> 0 | Some d \<Rightarrow> 5) + 4 * length (mq_msgs (queue s)) +
     (\<Sum>w \<in># mset (workers s). task_left (task w))"

lemma work_left_worker:
  assumes "i < length (workers s)" "workers s' = (workers s)[i := w]" "sending s' = sending s" "queue s' = queue s"
  shows "work_left s' + task_left (task (workers s ! i)) = work_left s + task_left (task w)"
  using sum_mset_update [OF assms(1), of "\<lambda>w. task_left (task w)" w] assms(2-4) by (simp add: work_left_def)

definition progresses :: "(nat \<Rightarrow> string) \<Rightarrow> pool \<Rightarrow> bool" where
  "progresses request s \<longleftrightarrow> (\<exists>s'. pool_step request s s' \<and> accepted s' = accepted s \<and> work_left s' < work_left s)"

lemma progressesI:
  "pool_step request s s' \<Longrightarrow> accepted s' = accepted s \<Longrightarrow> work_left s' < work_left s \<Longrightarrow> progresses request s"
  unfolding progresses_def by blast

lemma busy_worker_progresses:
  assumes inv: "pool_inv request s" and i: "i < length (workers s)" "task (workers s ! i) \<noteq> Waiting"
  shows "progresses request s"
proof -
  have b: "length (bytes (workers s ! i)) = 128" using worker_inv [OF inv i(1)] by (simp add: worker_ok_def)
  have left: "work_left s' < work_left s"
    if "workers s' = (workers s)[i := w]" "sending s' = sending s" "queue s' = queue s"
      "task_left (task w) < task_left (task (workers s ! i))" for s' w
    using work_left_worker [OF i(1) that(1-3)] that(4) by simp
  show ?thesis
  proof (cases "task (workers s ! i)")
    case (Taken d)
    have "\<exists>c b. recv_request request (fds s) d (bytes (workers s ! i)) = Some (c, b)"
      using b by (auto simp: recv_request_def recv_into_Some capitals_Some split: option.splits)
    then obtain c b where r: "recv_request request (fds s) d (bytes (workers s ! i)) = Some (c, b)" by blast
    show ?thesis
      by (rule progressesI [OF recv [OF i(1) Taken r] _ left [of _ "\<lparr> task = Heard d c, bytes = b \<rparr>"]]) (simp_all add: Taken)
  next
    case (Heard d c)
    show ?thesis
      by (rule progressesI [OF send [OF i(1) Heard memset_all [OF b, of NUL]] _
            left [of _ "\<lparr> task = Answered d, bytes = replicate 128 NUL \<rparr>"]]) (simp_all add: Heard)
  next
    case (Answered d)
    show ?thesis
      by (rule progressesI [OF close [OF i(1) Answered] _ left [of _ "(workers s ! i) \<lparr> task := Waiting \<rparr>"]])
         (simp_all add: Answered)
  qed (use i(2) in simp)
qed

lemma idle_workers_progress:
  assumes inv: "pool_inv request s" and idle: "\<forall>i < length (workers s). task (workers s ! i) = Waiting"
    and "0 < work_left s"
  shows "progresses request s"
proof (cases "mq_msgs (queue s)")
  case (Cons m ms)
  have q: "mq_msgsize (queue s) = 2" "length m = 2" and i: "0 < length (workers s)"
    using inv Cons by (auto simp: pool_inv_def queue_ok_def)
  then have t: "model3_take (queue s) = Some (fd_of_message m, queue s \<lparr> mq_msgs := ms \<rparr>)"
    using Cons by (simp add: model3_take_def mq_receive_def mq_pop_def put_bytes_def)
  let ?w = "(workers s ! 0) \<lparr> task := Taken (fd_of_message m) \<rparr>"
  have w: "task (workers s ! 0) = Waiting" using idle i by blast
  have "(\<Sum>w \<in># mset ((workers s)[0 := ?w]). task_left (task w)) = (\<Sum>w \<in># mset (workers s). task_left (task w)) + 3"
    using sum_mset_update [OF i, of "\<lambda>w. task_left (task w)" ?w] w by simp
  then show ?thesis by (intro progressesI [OF dequeue [OF i w t]]) (simp_all add: work_left_def Cons)
next
  case Nil
  have "(\<Sum>w \<in># mset (workers s). task_left (task w)) = 0"
    using idle by (auto simp: sum_mset_0_iff in_set_conv_nth)
  then obtain d where d: "sending s = Some d" using assms(3) Nil by (cases "sending s") (simp_all add: work_left_def del: sum_mset_0_iff)
  have "mq_maxmsg (queue s) = 10" "mq_msgsize (queue s) = 2" using inv by (simp_all add: pool_inv_def queue_ok_def)
  then have "model3_accept (narrow d) (queue s) = Some (queue s \<lparr> mq_msgs := [fd_message (narrow d)] \<rparr>)"
    using Nil by (simp add: model3_accept_def mq_send_def mq_push_def mq_fits_def fd_message_def)
  from progressesI [OF enqueue [OF d this]] show ?thesis by (simp add: work_left_def d Nil)
qed

interpretation pool_work: finishing
  "\<lambda>s t. pool_step request s t \<and> accepted t = accepted s \<and> work_left t < work_left s"
  "pool_inv request" work_left "\<lambda>s. work_left s = 0" for request
proof
  fix s assume "pool_inv request s" "work_left s \<noteq> 0"
  then have "progresses request s" using busy_worker_progresses idle_workers_progress by blast
  then show "\<exists>t. pool_step request s t \<and> accepted t = accepted s \<and> work_left t < work_left s"
    unfolding progresses_def .
qed (auto intro: pool_step_inv)

lemma pool_finishes:
  assumes "pool_inv request s"
  shows "\<exists>s'. (pool_step request)\<^sup>*\<^sup>* s s' \<and> accepted s' = accepted s \<and> work_left s' = 0 \<and> pool_inv request s'"
proof -
  obtain s' where s': "(\<lambda>s t. pool_step request s t \<and> accepted t = accepted s \<and> work_left t < work_left s)\<^sup>*\<^sup>* s s'"
    "work_left s' = 0" "pool_inv request s'"
    using pool_work.finishes [OF assms] by blast
  from s'(1) have "(pool_step request)\<^sup>*\<^sup>* s s' \<and> accepted s' = accepted s" by induction auto
  with s'(2,3) show ?thesis by blast
qed

lemma no_work_left:
  assumes inv: "pool_inv request s" and "work_left s = 0"
  shows "mset (map fst (replies s)) = mset [0..<accepted s] \<and> fds s = first_fds"
proof -
  have "task w = Waiting" if "w \<in> set (workers s)" for w
    using assms(2) that by (cases "task w") (force simp: work_left_def)+
  then have "in_flight s = {#}"
    using assms(2) by (auto simp: in_flight_def before_workers_def work_left_def split: option.splits)
  moreover have "unanswered s = {#}" using unanswered_in_flight [of s] \<open>in_flight s = {#}\<close> by simp
  ultimately have "mset (map fst (replies s)) = mset [0..<accepted s]" "conns (fds s) = []"
    using inv by (simp_all add: pool_inv_def accounted_def flight_ok_def)
  moreover have "filter (\<lambda>e. is_conn (snd e)) (fds s) = [] \<Longrightarrow> filter (\<lambda>e. \<not> is_conn (snd e)) (fds s) = fds s"
    by (simp add: filter_empty_conv filter_id_conv)
  ultimately show ?thesis using inv by (simp add: pool_inv_def fds_ok_def conns_def)
qed

text \<open>
  C37.  The third server never gets stuck: from every reachable state its threads can go on,
  without a further client, until every accepted connection has been answered once and
  closed, and the descriptor table is the one it started with.
\<close>

theorem queue_server_progress:
  assumes "(pool_step request)\<^sup>*\<^sup>* (pool_start g) s"
  shows "\<exists>s'. (pool_step request)\<^sup>*\<^sup>* s s' \<and> accepted s' = accepted s \<and> fds s' = first_fds \<and>
    mset (map fst (replies s')) = mset [0..<accepted s]"
proof -
  have "pool_inv request s" by (rule pool.reachable_inv [OF refl assms])
  then obtain s' where s': "(pool_step request)\<^sup>*\<^sup>* s s'" "accepted s' = accepted s" "work_left s' = 0" "pool_inv request s'"
    using pool_finishes by blast
  then show ?thesis using no_work_left [OF s'(4,3)] by auto
qed

text \<open>Two clients are accepted, the second finds its descriptor queued behind the first.\<close>

definition two_clients :: "(nat \<Rightarrow> nat \<Rightarrow> char) \<Rightarrow> pool" where
  "two_clients g = (pool_start g) \<lparr> fds := [(6, Conn 1), (5, Conn 0)] @ first_fds, accepted := 2, sending := Some 6,
     queue := model3_queue \<lparr> mq_msgs := [fd_message 5] \<rparr> \<rparr>"

lemma two_clients_reached: "(pool_step request)\<^sup>*\<^sup>* (pool_start g) (two_clients g)"
proof -
  let ?s1 = "(pool_start g) \<lparr> fds := (5, Conn 0) # first_fds, accepted := 1, sending := Some 5 \<rparr>"
  let ?s2 = "?s1 \<lparr> queue := model3_queue \<lparr> mq_msgs := [fd_message 5] \<rparr>, sending := None \<rparr>"
  have "lowest_free first_fds = 5" "lowest_free ((5, Conn 0) # first_fds) = 6" by code_simp+
  moreover have "map_of first_fds 4 = Some Listening" "map_of ((5, Conn 0) # first_fds) 4 = Some Listening" by code_simp+
  ultimately have "pool_step request (pool_start g) ?s1" "pool_step request ?s2 (two_clients g)"
    using accept [of "pool_start g" 5 request] accept [of ?s2 6 request]
    by (simp_all add: pool_start_def two_clients_def numeral_2_eq_2)
  moreover have "model3_accept (narrow 5) (queue ?s1) = Some (model3_queue \<lparr> mq_msgs := [fd_message 5] \<rparr>)"
    by (simp add: pool_start_def) code_simp
  then have "pool_step request ?s1 ?s2" using enqueue [of ?s1 5 _ request] by (simp add: pool_start_def)
  ultimately show ?thesis by (meson converse_rtranclp_into_rtranclp r_into_rtranclp)
qed

lemma queue_server_safe_witness:
  "distinct (map fst (replies (two_clients (\<lambda>_ _. NUL)))) \<and> (pool_step (\<lambda>_. ''hi''))\<^sup>*\<^sup>* (pool_start (\<lambda>_ _. NUL)) (two_clients (\<lambda>_ _. NUL))"
  using queue_server_safe [OF two_clients_reached, of "\<lambda>_ _. NUL" "\<lambda>_. ''hi''"] two_clients_reached by blast

lemma queue_server_descriptors_witness:
  "length (conns (fds (two_clients (\<lambda>_ _. NUL)))) \<le> 21 \<and> mq_msgs (queue (two_clients (\<lambda>_ _. NUL))) = [fd_message 5]"
  using queue_server_descriptors [OF two_clients_reached, of "\<lambda>_ _. NUL"] by (simp add: two_clients_def)

lemma queue_server_progress_witness:
  "\<exists>s'. (pool_step (\<lambda>_. ''hi''))\<^sup>*\<^sup>* (two_clients (\<lambda>_ _. NUL)) s' \<and> mset (map fst (replies s')) = {#0, 1#}"
proof -
  obtain s' where "(pool_step (\<lambda>_. ''hi''))\<^sup>*\<^sup>* (two_clients (\<lambda>_ _. NUL)) s'"
    "mset (map fst (replies s')) = mset [0..<accepted (two_clients (\<lambda>_ _. NUL))]"
    using queue_server_progress [OF two_clients_reached] by blast
  moreover have "mset [0..<accepted (two_clients (\<lambda>_ _. NUL))] = {#0, 1#}" by (simp add: two_clients_def upt_rec)
  ultimately show ?thesis by (intro exI [of _ s']) simp
qed

end
