(* ===== verification/AcceptServer.thy ===== *)
theory AcceptServer
  imports QueueServer
begin

text \<open>
  The second server model, \<open>server models/2\<close>: ten threads that call \<open>accept\<close> themselves, while
  \<open>main\<close> waits for a key that ends the process.  It is proved to be a refinement of the third
  model: an \<open>accept\<close> of a thread is an \<open>accept\<close> of that server's \<open>main\<close> whose descriptor goes
  through the queue to that thread at once.
\<close>

section \<open>State and steps\<close>

text \<open>The threads are those of the third server; \<open>Waiting\<close> is here waiting in \<open>accept\<close>.\<close>

record crew =
  files :: fd_table
  threads :: "worker list"
  taken :: nat
  sent :: "(nat \<times> nat option \<times> string) list"
  running :: bool

definition first_files :: fd_table where
  "first_files = [(0, Terminal), (1, Terminal), (2, Terminal), (3, Listening)]"

definition crew_start :: "(nat \<Rightarrow> nat \<Rightarrow> char) \<Rightarrow> crew" where
  "crew_start g = \<lparr> files = first_files, threads = map (\<lambda>i. \<lparr> task = Waiting, bytes = fresh_block (g i) 128 \<rparr>) [0..<10],
     taken = 0, sent = [], running = True \<rparr>"

inductive crew_step :: "(nat \<Rightarrow> string) \<Rightarrow> crew \<Rightarrow> crew \<Rightarrow> bool" for request where
  take_client: "running s \<Longrightarrow> i < length (threads s) \<Longrightarrow> task (threads s ! i) = Waiting \<Longrightarrow>
    map_of (files s) 3 = Some Listening \<Longrightarrow> d = lowest_free (files s) \<Longrightarrow>
    crew_step request s (s \<lparr> files := (d, Conn (taken s)) # files s, taken := taken s + 1,
      threads := (threads s)[i := (threads s ! i) \<lparr> task := Taken (int d) \<rparr>] \<rparr>)"
| take_fails: "running s \<Longrightarrow> i < length (threads s) \<Longrightarrow> task (threads s ! i) = Waiting \<Longrightarrow>
    crew_step request s (s \<lparr> threads := (threads s)[i := (threads s ! i) \<lparr> task := Taken (-1) \<rparr>] \<rparr>)"
| hear: "running s \<Longrightarrow> i < length (threads s) \<Longrightarrow> task (threads s ! i) = Taken d \<Longrightarrow>
    recv_request request (files s) d (bytes (threads s ! i)) = Some (c, b) \<Longrightarrow>
    crew_step request s (s \<lparr> threads := (threads s)[i := \<lparr> task = Heard d c, bytes = b \<rparr>] \<rparr>)"
| answer: "running s \<Longrightarrow> i < length (threads s) \<Longrightarrow> task (threads s ! i) = Heard d c \<Longrightarrow>
    memset (bytes (threads s ! i)) NUL 128 = Some b \<Longrightarrow>
    crew_step request s (s \<lparr> sent := sent s @ send_reply (files s) d c (bytes (threads s ! i)),
      threads := (threads s)[i := \<lparr> task = Answered d, bytes = b \<rparr>] \<rparr>)"
| hang_up: "running s \<Longrightarrow> i < length (threads s) \<Longrightarrow> task (threads s ! i) = Answered d \<Longrightarrow>
    crew_step request s (s \<lparr> files := close_fd d (files s), threads := (threads s)[i := (threads s ! i) \<lparr> task := Waiting \<rparr>] \<rparr>)"
| key: "running s \<Longrightarrow> crew_step request s (s \<lparr> running := False \<rparr>)"

inductive_cases crew_stepE: "crew_step request s s'"

section \<open>The abstraction\<close>

text \<open>The third server has the queue open as descriptor 3, so that its descriptors from 3 on are
  greater by one.\<close>

definition shift :: "int \<Rightarrow> int" where
  "shift d = (if 3 \<le> d then d + 1 else d)"

fun shift_entry :: "nat \<times> open_file \<Rightarrow> fd_table" where
  "shift_entry (d, Listening) = [(3, Clients), (4, Listening)]"
| "shift_entry (d, f) = [(nat (shift (int d)), f)]"

definition shift_files :: "fd_table \<Rightarrow> fd_table" where
  "shift_files tbl = concat (map shift_entry tbl)"

fun shift_task :: "task \<Rightarrow> task" where
  "shift_task Waiting = Waiting"
| "shift_task (Taken d) = Taken (shift d)"
| "shift_task (Heard d c) = Heard (shift d) c"
| "shift_task (Answered d) = Answered (shift d)"

definition shift_worker :: "worker \<Rightarrow> worker" where
  "shift_worker w = w \<lparr> task := shift_task (task w) \<rparr>"

definition as_pool :: "crew \<Rightarrow> pool" where
  "as_pool s = \<lparr> fds = shift_files (files s), queue = model3_queue, sending = None,
     workers = map shift_worker (threads s), accepted = taken s, replies = sent s \<rparr>"

definition plain :: "int \<Rightarrow> bool" where
  "plain d \<longleftrightarrow> d = -1 \<or> 4 \<le> d"

definition crew_ok :: "crew \<Rightarrow> bool" where
  "crew_ok s \<longleftrightarrow> (\<forall>e \<in> set (files s). 4 \<le> fst e \<longleftrightarrow> is_conn (snd e)) \<and>
     filter (\<lambda>e. \<not> is_conn (snd e)) (files s) = first_files \<and>
     (\<forall>w \<in> set (threads s). \<forall>d. descriptor (task w) = Some d \<longrightarrow> plain d)"

lemma lowest_free_below: "m < lowest_free tbl \<Longrightarrow> m \<in> fst ` set tbl"
proof -
  assume m: "m < lowest_free tbl"
  let ?P = "\<lambda>d. d \<notin> fst ` set tbl"
  have "sorted (filter ?P [0..<Suc (length tbl)])" by (simp add: sorted_wrt_filter del: upt_Suc)
  moreover have "m \<in> set (filter ?P [0..<Suc (length tbl)])" if "m \<notin> fst ` set tbl"
    using that m lowest_free(1) [of tbl] by (simp del: upt_Suc)
  ultimately have "lowest_free tbl \<le> m" if "m \<notin> fst ` set tbl"
    using that unfolding lowest_free_def by (cases "filter ?P [0..<Suc (length tbl)]") (auto simp del: upt_Suc)
  then show ?thesis using m by force
qed

lemma lowest_free_eq: "n \<notin> fst ` set tbl \<Longrightarrow> (\<And>m. m < n \<Longrightarrow> m \<in> fst ` set tbl) \<Longrightarrow> lowest_free tbl = n"
  by (metis lowest_free(2) lowest_free_below linorder_neqE_nat)
lemma crew_low:
  assumes "crew_ok s"
  shows "e \<in> set first_files \<longleftrightarrow> e \<in> set (files s) \<and> \<not> is_conn (snd e)"
proof -
  have "set first_files = {e \<in> set (files s). \<not> is_conn (snd e)}"
    using assms unfolding crew_ok_def by (metis set_filter)
  then show ?thesis by simp
qed

lemma crew_files:
  assumes "crew_ok s"
  shows "{0, 1, 2, 3} \<subseteq> fst ` set (files s)" and "map_of (files s) 3 = Some Listening"
    and "\<And>d. (d, Listening) \<in> set (files s) \<Longrightarrow> d = 3"
proof -
  note f = crew_low [OF assms]
  show "{0, 1, 2, 3} \<subseteq> fst ` set (files s)"
    using f [of "(0, Terminal)"] f [of "(1, Terminal)"] f [of "(2, Terminal)"] f [of "(3, Listening)"]
    by (force simp: first_files_def)
  show l: "d = 3" if "(d, Listening) \<in> set (files s)" for d
    using f [of "(d, Listening)"] that by (simp add: first_files_def)
  have "(3, x) \<in> set (files s) \<Longrightarrow> x = Listening" for x
    using f [of "(3, x)"] assms by (auto simp: crew_ok_def first_files_def)
  moreover have "(3, Listening) \<in> set (files s)" using f [of "(3, Listening)"] by (simp add: first_files_def)
  ultimately show "map_of (files s) 3 = Some Listening"
    by (metis map_of_SomeD map_of_eq_None_iff not_None_eq image_eqI fst_conv)
qed

abbreviation sane :: "fd_table \<Rightarrow> bool" where
  "sane tbl \<equiv> \<forall>e \<in> set tbl. 4 \<le> fst e \<longleftrightarrow> is_conn (snd e)"

lemma shift_entry_conn: "4 \<le> d \<Longrightarrow> is_conn f \<Longrightarrow> shift_entry (d, f) = [(Suc d, f)]"
  by (cases f) (simp_all add: shift_def nat_add_distrib)

lemma shift_entry_low: "e \<in> set (shift_entry (d, f)) \<Longrightarrow> d < 4 \<Longrightarrow> fst e \<le> 4"
  by (cases f) (auto simp: shift_def)

lemma shift_Cons: "shift_files (e # tbl) = shift_entry e @ shift_files tbl"
  by (simp add: shift_files_def)

lemma map_of_shift: "sane tbl \<Longrightarrow> 4 \<le> k \<Longrightarrow> map_of (shift_files tbl) (Suc k) = map_of tbl k"
proof (induction tbl)
  case (Cons e tbl)
  obtain d f where e: "e = (d, f)" by fastforce
  show ?case
  proof (cases "4 \<le> d")
    case True
    then show ?thesis using Cons by (simp add: e shift_Cons shift_entry_conn)
  next
    case False
    then have "map_of (shift_entry (d, f)) (Suc k) = None"
      using shift_entry_low [of _ d f] Cons.prems(2) by (fastforce simp: map_of_eq_None_iff)
    then show ?thesis using Cons False by (simp add: e shift_Cons map_add_def)
  qed
qed (simp add: shift_files_def)

lemma conn_at_shift:
  assumes "sane tbl" "plain d"
  shows "conn_at (shift_files tbl) (shift d) = conn_at tbl d"
proof (cases "4 \<le> d")
  case True
  then have "nat (shift d) = Suc (nat d)" "4 \<le> nat d" by (simp_all add: shift_def nat_add_distrib)
  then show ?thesis using True map_of_shift [OF assms(1), of "nat d"] by (simp add: conn_at_def shift_def)
next
  case False
  then show ?thesis using assms(2) by (simp add: conn_at_def plain_def shift_def)
qed

lemma close_shift: "sane tbl \<Longrightarrow> plain d \<Longrightarrow> close_fd (shift d) (shift_files tbl) = shift_files (close_fd d tbl)"
proof (induction tbl)
  case (Cons e tbl)
  obtain k f where e: "e = (k, f)" by fastforce
  have app: "close_fd x (a @ b) = close_fd x a @ close_fd x b" for x a b by (simp add: close_fd_def)
  have one: "close_fd (shift d) (shift_entry e) = (if int k = d then [] else shift_entry e)"
  proof (cases "4 \<le> k")
    case True
    then show ?thesis using Cons.prems by (auto simp: e shift_entry_conn close_fd_def shift_def plain_def)
  next
    case False
    then have "int (fst x) \<noteq> shift d" if "x \<in> set (shift_entry (k, f))" for x
      using shift_entry_low [OF that] Cons.prems(2) by (auto simp: plain_def shift_def)
    then have "close_fd (shift d) (shift_entry (k, f)) = shift_entry (k, f)" by (simp add: close_fd_def filter_id_conv)
    then show ?thesis using False Cons.prems(2) by (auto simp: e plain_def)
  qed
  have "close_fd d (e # tbl) = (if int k = d then close_fd d tbl else e # close_fd d tbl)" by (simp add: close_fd_def e)
  then show ?case using Cons one by (simp add: shift_Cons app)
qed (simp add: close_fd_def shift_files_def)

lemma keys_shift:
  assumes "crew_ok s"
  shows "fst ` set (shift_files (files s)) = {0, 1, 2, 3, 4} \<union> Suc ` {k \<in> fst ` set (files s). 4 \<le> k}"
proof -
  have sane: "sane (files s)" using assms by (simp add: crew_ok_def)
  have k: "k \<in> fst ` set (shift_files tbl) \<longleftrightarrow> (\<exists>e \<in> set tbl. k \<in> fst ` set (shift_entry e))" for k tbl
    by (auto simp: shift_files_def)
  show ?thesis
  proof (intro set_eqI iffI)
    fix k assume "k \<in> fst ` set (shift_files (files s))"
    then obtain e where "e \<in> set (files s)" "k \<in> fst ` set (shift_entry e)" using k by blast
    then obtain d f where e: "(d, f) \<in> set (files s)" "k \<in> fst ` set (shift_entry (d, f))" by (metis surj_pair)
    show "k \<in> {0, 1, 2, 3, 4} \<union> Suc ` {k \<in> fst ` set (files s). 4 \<le> k}"
    proof (cases "4 \<le> d")
      case True
      have "is_conn f" using bspec [OF sane e(1)] True by simp
      then have "k = Suc d" using e(2) True by (simp add: shift_entry_conn)
      moreover have "d \<in> fst ` set (files s)" by (rule rev_image_eqI [OF e(1)]) simp
      ultimately show ?thesis using True by simp
    next
      case False
      obtain x where "x \<in> set (shift_entry (d, f))" "k = fst x" using e(2) by blast
      then have "k \<le> 4" using False shift_entry_low [of x d f] by simp
      then show ?thesis by auto
    qed
  next
    fix k assume "k \<in> {0, 1, 2, 3, 4} \<union> Suc ` {k \<in> fst ` set (files s). 4 \<le> k}"
    then consider "k \<in> {0, 1, 2, 3, 4}" | d where "d \<in> fst ` set (files s)" "4 \<le> d" "k = Suc d" by auto
    then show "k \<in> fst ` set (shift_files (files s))"
    proof cases
      case 1
      have "set first_files \<subseteq> set (files s)" using crew_low [OF assms] by blast
      then have "(\<Union>e \<in> set first_files. set (shift_entry e)) \<subseteq> (\<Union>e \<in> set (files s). set (shift_entry e))" by (rule UN_mono) simp
      then have "set (shift_files first_files) \<subseteq> set (shift_files (files s))" by (simp add: shift_files_def)
      moreover have "fst ` set (shift_files first_files) = {0, 1, 2, 3, 4}"
        by (auto simp: shift_files_def first_files_def shift_def)
      ultimately show ?thesis using 1 by blast
    next
      case 2
      then obtain f where f: "(d, f) \<in> set (files s)" by auto
      then have "shift_entry (d, f) = [(k, f)]" using 2 sane by (auto simp: shift_entry_conn)
      then show ?thesis using f k by force
    qed
  qed
qed

lemma lowest_free_shift:
  assumes "crew_ok s"
  shows "lowest_free (shift_files (files s)) = Suc (lowest_free (files s))" and "4 \<le> lowest_free (files s)"
proof -
  let ?n = "lowest_free (files s)"
  have keys: "{0, 1, 2, 3} \<subseteq> fst ` set (files s)" by (rule crew_files(1) [OF assms])
  show n: "4 \<le> ?n"
  proof (rule ccontr)
    assume "\<not> 4 \<le> ?n"
    then have "?n \<in> {0, 1, 2, 3}" by auto
    then show False using keys lowest_free(2) by blast
  qed
  show "lowest_free (shift_files (files s)) = Suc ?n"
  proof (rule lowest_free_eq)
    show "Suc ?n \<notin> fst ` set (shift_files (files s))" using n lowest_free(2) [of "files s"] by (auto simp: keys_shift [OF assms])
    fix m assume m: "m < Suc ?n"
    show "m \<in> fst ` set (shift_files (files s))"
    proof (cases "m \<le> 4")
      case True
      then have "m \<in> {0, 1, 2, 3, 4}" by auto
      then show ?thesis unfolding keys_shift [OF assms] by blast
    next
      case False
      then obtain k where k: "m = Suc k" "4 \<le> k" by (cases m) auto
      then have "k \<in> fst ` set (files s)" using m lowest_free_below [of k "files s"] by simp
      then show ?thesis using k unfolding keys_shift [OF assms] by blast
    qed
  qed
qed
lemma listening_shift:
  assumes "crew_ok s"
  shows "map_of (shift_files (files s)) 4 = Some Listening"
proof -
  have "x = Listening" if "(4, x) \<in> set (shift_files (files s))" for x
  proof -
    have "\<exists>e \<in> set (files s). (4, x) \<in> set (shift_entry e)" using that by (simp add: shift_files_def)
    then obtain d f where e: "(d, f) \<in> set (files s)" "(4, x) \<in> set (shift_entry (d, f))" by (metis surj_pair)
    have "d = 3 \<Longrightarrow> f = Listening"
      using e(1) crew_low [OF assms, of "(3, f)"] bspec [OF conjunct1 [OF assms [unfolded crew_ok_def]] e(1)]
      by (simp add: first_files_def)
    moreover have "4 \<le> d \<Longrightarrow> is_conn f" using bspec [OF conjunct1 [OF assms [unfolded crew_ok_def]] e(1)] by simp
    moreover have "nat (int d + 1) = Suc d" by (simp add: nat_add_distrib)
    ultimately show ?thesis using e(2) by (cases f) (auto simp: shift_def split: if_splits)
  qed
  moreover have "4 \<in> fst ` set (shift_files (files s))" unfolding keys_shift [OF assms] by blast
  ultimately show ?thesis by (metis map_of_SomeD map_of_eq_None_iff not_None_eq)
qed

section \<open>Refinement\<close>

lemma as_pool_start: "as_pool (crew_start g) = pool_start g"
  by (simp add: as_pool_def crew_start_def pool_start_def shift_files_def first_files_def first_fds_def shift_def
      shift_worker_def comp_def)

lemma crew_plain: "crew_ok s \<Longrightarrow> i < length (threads s) \<Longrightarrow> descriptor (task (threads s ! i)) = Some d \<Longrightarrow> plain d"
  using nth_mem [of i "threads s"] unfolding crew_ok_def by blast

lemma crew_ok_threads:
  assumes "crew_ok s" "files s' = files s" "threads s' = (threads s)[i := w]" "\<And>d. descriptor (task w) = Some d \<Longrightarrow> plain d"
  shows "crew_ok s'"
proof -
  have "\<forall>v \<in> set ((threads s)[i := w]). \<forall>d. descriptor (task v) = Some d \<longrightarrow> plain d"
    using assms(1,4) by (intro set_update_all) (simp_all add: crew_ok_def)
  then show ?thesis using assms(1-3) by (simp add: crew_ok_def)
qed

text \<open>The steps of \<open>main\<close> and of the queue that an \<open>accept\<close> of a thread stands for.\<close>

lemma handed_over:
  assumes "sending p = Some d" "queue p = model3_queue" "-1 \<le> d" "d < 128"
    and i: "i < length (workers p)" "task (workers p ! i) = Waiting"
  shows "(pool_step request)\<^sup>*\<^sup>* p (p \<lparr> sending := None, workers := (workers p)[i := (workers p ! i) \<lparr> task := Taken d \<rparr>] \<rparr>)"
proof -
  let ?q = "model3_queue \<lparr> mq_msgs := [fd_message (narrow d)] \<rparr>"
  let ?p = "p \<lparr> queue := ?q, sending := None \<rparr>"
  have "model3_accept (narrow d) (queue p) = Some ?q"
    by (simp add: assms(2) model3_accept_def model3_queue_def mq_send_def mq_push_def mq_fits_def fd_message_def)
  then have "pool_step request p ?p" by (rule enqueue [OF assms(1)])
  moreover have "model3_take ?q = Some (d, model3_queue)"
    using narrow_roundtrip [OF assms(3,4)]
    by (simp add: model3_take_def model3_queue_def mq_receive_def mq_pop_def put_bytes_def fd_message_def)
  then have "pool_step request ?p (?p \<lparr> queue := model3_queue, workers := (workers ?p)[i := (workers ?p ! i) \<lparr> task := Taken d \<rparr>] \<rparr>)"
    using i by (intro dequeue) simp_all
  moreover have "?p \<lparr> queue := model3_queue, workers := (workers ?p)[i := (workers ?p ! i) \<lparr> task := Taken d \<rparr>] \<rparr> =
      p \<lparr> sending := None, workers := (workers p)[i := (workers p ! i) \<lparr> task := Taken d \<rparr>] \<rparr>"
    using assms(2) by simp
  ultimately show ?thesis by (simp add: converse_rtranclp_into_rtranclp)
qed

lemmas as_pool_simps = as_pool_def shift_worker_def map_update nth_map

lemma take_client_refines:
  assumes ok: "crew_ok s" and inv: "pool_inv request (as_pool s)"
    and i: "i < length (threads s)" "task (threads s ! i) = Waiting" and d: "d = lowest_free (files s)"
    and s': "s' = s \<lparr> files := (d, Conn (taken s)) # files s, taken := taken s + 1,
      threads := (threads s)[i := (threads s ! i) \<lparr> task := Taken (int d) \<rparr>] \<rparr>"
  shows "crew_ok s' \<and> (pool_step request)\<^sup>*\<^sup>* (as_pool s) (as_pool s')"
proof -
  have d4: "4 \<le> d" "Suc d = lowest_free (fds (as_pool s))" using lowest_free_shift [OF ok] d by (simp_all add: as_pool_def)
  let ?p = "as_pool s \<lparr> fds := (Suc d, Conn (taken s)) # fds (as_pool s), accepted := accepted (as_pool s) + 1,
      sending := Some (int (Suc d)) \<rparr>"
  have "map_of (shift_files (files s)) 4 = Some Listening" by (rule listening_shift [OF ok])
  then have step: "pool_step request (as_pool s) ?p"
    using accept [of "as_pool s" "Suc d" request] d4(2) by (simp add: as_pool_def)
  then have inv': "pool_inv request ?p" by (rule pool_step_inv [OF inv])
  have "int (Suc d) \<in># in_flight ?p" by (simp add: in_flight_def before_workers_def)
  then have "int (Suc d) < 128" using flight_conn [OF inv'] by fastforce
  then have "(pool_step request)\<^sup>*\<^sup>* ?p (?p \<lparr> sending := None, workers := (workers ?p)[i := (workers ?p ! i) \<lparr> task := Taken (int (Suc d)) \<rparr>] \<rparr>)"
    using i by (intro handed_over) (simp_all add: as_pool_simps)
  moreover have "?p \<lparr> sending := None, workers := (workers ?p)[i := (workers ?p ! i) \<lparr> task := Taken (int (Suc d)) \<rparr>] \<rparr> = as_pool s'"
    using i d4(1) by (simp add: as_pool_simps s' shift_Cons shift_entry_conn shift_def add.commute del: shift_entry.simps)
  ultimately have "(pool_step request)\<^sup>*\<^sup>* (as_pool s) (as_pool s')" using step by (metis converse_rtranclp_into_rtranclp)
  moreover have "crew_ok s'"
  proof (rule crew_ok_threads)
    show "crew_ok (s \<lparr> files := (d, Conn (taken s)) # files s \<rparr>)" using ok d4(1) by (simp add: crew_ok_def)
  qed (use d4(1) in \<open>auto simp: s' plain_def\<close>)
  ultimately show ?thesis by blast
qed

text \<open>The other steps of a thread are the steps of that server's thread.\<close>

lemma filter_close:
  assumes "sane tbl" "plain d"
  shows "filter (\<lambda>e. \<not> is_conn (snd e)) (close_fd d tbl) = filter (\<lambda>e. \<not> is_conn (snd e)) tbl"
  using assms unfolding close_fd_def by (induction tbl) (auto simp: plain_def)

lemma crew_step_refines:
  assumes step: "crew_step request s s'" and ok: "crew_ok s" and inv: "pool_inv request (as_pool s)"
  shows "crew_ok s' \<and> (pool_step request)\<^sup>*\<^sup>* (as_pool s) (as_pool s')"
  using step
proof cases
  case (take_client i d)
  then show ?thesis by (intro take_client_refines [OF ok inv])
next
  case (take_fails i)
  let ?p = "as_pool s \<lparr> sending := Some (-1) \<rparr>"
  have "pool_step request (as_pool s) ?p" by (rule accept_fails) (simp add: as_pool_def)
  moreover have "(pool_step request)\<^sup>*\<^sup>* ?p (?p \<lparr> sending := None, workers := (workers ?p)[i := (workers ?p ! i) \<lparr> task := Taken (-1) \<rparr>] \<rparr>)"
    using take_fails by (intro handed_over) (simp_all add: as_pool_simps)
  moreover have "?p \<lparr> sending := None, workers := (workers ?p)[i := (workers ?p ! i) \<lparr> task := Taken (-1) \<rparr>] \<rparr> = as_pool s'"
    using take_fails by (simp add: as_pool_simps shift_def)
  ultimately have "(pool_step request)\<^sup>*\<^sup>* (as_pool s) (as_pool s')" by (metis converse_rtranclp_into_rtranclp)
  moreover have "crew_ok s'" by (rule crew_ok_threads [OF ok]) (auto simp: take_fails plain_def)
  ultimately show ?thesis by blast
next
  case (hear i d c b)
  have p: "plain d" using crew_plain [OF ok hear(3)] hear by simp
  have "recv_request request (fds (as_pool s)) (shift d) (bytes (workers (as_pool s) ! i)) = Some (c, b)"
    using hear p ok by (simp add: as_pool_simps recv_request_def conn_at_shift crew_ok_def)
  from recv [OF _ _ this] have "pool_step request (as_pool s) (as_pool s')"
    using hear by (simp add: as_pool_simps)
  moreover have "crew_ok s'" by (rule crew_ok_threads [OF ok]) (use p in \<open>auto simp: hear\<close>)
  ultimately show ?thesis by blast
next
  case (answer i d c b)
  have p: "plain d" using crew_plain [OF ok answer(3)] answer by simp
  have "pool_step request (as_pool s) (as_pool s')"
    using send [of i "as_pool s" "shift d" c b request] answer p ok
    by (simp add: as_pool_simps send_reply_def conn_at_shift crew_ok_def)
  moreover have "crew_ok s'" by (rule crew_ok_threads [OF ok]) (use p in \<open>auto simp: answer\<close>)
  ultimately show ?thesis by blast
next
  case (hang_up i d)
  have p: "plain d" using crew_plain [OF ok hang_up(3)] hang_up by simp
  have "pool_step request (as_pool s) (as_pool s')"
    using close [of i "as_pool s" "shift d" request] hang_up p ok
    by (simp add: as_pool_simps close_shift crew_ok_def)
  moreover have "crew_ok s'"
  proof (rule crew_ok_threads)
    show "crew_ok (s \<lparr> files := close_fd d (files s) \<rparr>)"
      using ok p filter_close [of "files s" d] by (simp add: crew_ok_def close_fd_def)
  qed (auto simp: hang_up)
  ultimately show ?thesis by blast
next
  case key
  then show ?thesis using ok by (simp add: as_pool_def crew_ok_def)
qed

lemma crew_start_ok: "crew_ok (crew_start g)"
  by (auto simp: crew_ok_def crew_start_def first_files_def)
interpretation crew: simulation "\<lambda>p. p = pool_start g" "pool_step request" "pool_inv request"
  "\<lambda>s. s = crew_start g" "crew_step request" crew_ok as_pool for request g
  using crew_step_refines by unfold_locales (auto simp: as_pool_start crew_start_ok)

text \<open>
  C33.  The second server refines the third: whatever its ten threads do in any interleaving,
  the third server can do with its queue between \<open>accept\<close> and the threads, with the same
  replies to the same connections.
\<close>

theorem accept_server_refines:
  assumes "(crew_step request)\<^sup>*\<^sup>* (crew_start g) s"
  shows "(pool_step request)\<^sup>*\<^sup>* (pool_start g) (as_pool s) \<and> replies (as_pool s) = sent s \<and> accepted (as_pool s) = taken s"
  using crew.simulated [OF assms refl] by (simp add: as_pool_start) (simp add: as_pool_def)

lemma length_conns_shift: "sane tbl \<Longrightarrow> length (conns (shift_files tbl)) = length (conns tbl)"
proof (induction tbl)
  case (Cons e tbl)
  obtain d f where e: "e = (d, f)" by fastforce
  have "length (filter (\<lambda>e. is_conn (snd e)) (shift_entry (d, f))) = (if is_conn f then 1 else 0)"
    using Cons.prems by (cases f) (simp_all add: e)
  then show ?case using Cons by (simp add: conns_def shift_Cons e)
qed (simp add: conns_def shift_files_def)

lemma few_connections:
  assumes "crew_ok s" "pool_inv request (as_pool s)"
  shows "length (conns (files s)) \<le> 10"
proof -
  let ?p = "as_pool s"
  have "length (conns (files s)) = length (conns (fds ?p))"
    using length_conns_shift [of "files s"] assms(1) by (simp add: as_pool_def crew_ok_def)
  also have "\<dots> = size (valid (in_flight ?p))" using assms(2) by (simp add: pool_inv_def flight_ok_def)
  also have "\<dots> \<le> size (in_flight ?p)" by (simp add: size_filter_mset_lesseq)
  also have "\<dots> = size (\<Sum>w \<in># mset (workers ?p). of_task (task w))"
    by (simp add: in_flight_def before_workers_def as_pool_def model3_queue_def)
  also have "\<dots> \<le> size (mset (workers ?p))" by (rule size_tasks)
  finally show ?thesis using assms(2) by (simp add: pool_inv_def)
qed

section \<open>Progress\<close>

definition crew_left :: "crew \<Rightarrow> nat" where
  "crew_left s = (\<Sum>w \<in># mset (threads s). task_left (task w))"

lemma crew_left_update:
  assumes "i < length (threads s)" "threads s' = (threads s)[i := w]" "task_left (task w) < task_left (task (threads s ! i))"
  shows "crew_left s' < crew_left s"
  using sum_mset_update [OF assms(1), of "\<lambda>w. task_left (task w)" w] assms(2,3) by (simp add: crew_left_def)

definition advances :: "(nat \<Rightarrow> string) \<Rightarrow> crew \<Rightarrow> crew \<Rightarrow> bool" where
  "advances request s s' \<longleftrightarrow> crew_step request s s' \<and> taken s' = taken s \<and> running s' \<and> crew_left s' < crew_left s"

lemma busy_thread_advances:
  assumes inv: "pool_inv request (as_pool s)" and run: "running s"
    and i: "i < length (threads s)" "task (threads s ! i) \<noteq> Waiting"
  shows "\<exists>s'. advances request s s'"
proof -
  have "worker_ok request (fds (as_pool s)) (workers (as_pool s) ! i)" using i by (intro worker_inv [OF inv]) (simp add: as_pool_def)
  then have b: "length (bytes (threads s ! i)) = 128" using i(1) by (simp add: worker_ok_def as_pool_simps)
  show ?thesis
  proof (cases "task (threads s ! i)")
    case (Taken d)
    obtain c b where r: "recv_request request (files s) d (bytes (threads s ! i)) = Some (c, b)"
      using b by (cases "conn_at (files s) d") (simp_all add: recv_request_def recv_into_Some capitals_Some)
    show ?thesis unfolding advances_def
      by (intro exI conjI, rule hear [OF run i(1) Taken r]) (use run in \<open>simp_all add: crew_left_update [OF i(1)] Taken\<close>)
  next
    case (Heard d c)
    show ?thesis unfolding advances_def
      by (intro exI conjI, rule answer [OF run i(1) Heard memset_all [OF b]]) (use run in \<open>simp_all add: crew_left_update [OF i(1)] Heard\<close>)
  next
    case (Answered d)
    show ?thesis unfolding advances_def
      by (intro exI conjI, rule hang_up [OF run i(1) Answered]) (use run in \<open>simp_all add: crew_left_update [OF i(1)] Answered\<close>)
  qed (use i(2) in simp)
qed

interpretation crew_work: finishing "advances request"
  "\<lambda>s. crew_ok s \<and> pool_inv request (as_pool s) \<and> running s" crew_left "\<lambda>s. \<forall>i < length (threads s). task (threads s ! i) = Waiting"
  for request
proof
  fix s t assume s: "crew_ok s \<and> pool_inv request (as_pool s) \<and> running s" and st: "advances request s t"
  then have "crew_ok t \<and> (pool_step request)\<^sup>*\<^sup>* (as_pool s) (as_pool t)" by (intro crew_step_refines) (simp_all add: advances_def)
  then show "crew_ok t \<and> pool_inv request (as_pool t) \<and> running t"
    using s st pool.steps_keep by (auto simp: advances_def)
next
  fix s assume "crew_ok s \<and> pool_inv request (as_pool s) \<and> running s"
    "\<not> (\<forall>i < length (threads s). task (threads s ! i) = Waiting)"
  then show "\<exists>t. advances request s t" using busy_thread_advances by blast
qed (simp add: advances_def)

lemma crew_idle:
  assumes ok: "crew_ok s" and inv: "pool_inv request (as_pool s)" and idle: "\<forall>i < length (threads s). task (threads s ! i) = Waiting"
  shows "files s = first_files \<and> mset (map fst (sent s)) = mset [0..<taken s]"
proof -
  have "(\<Sum>w \<in># mset (map shift_worker (threads s)). task_left (task w)) = 0"
    using idle by (auto simp: sum_mset_0_iff in_set_conv_nth shift_worker_def)
  then have "work_left (as_pool s) = 0" by (simp add: work_left_def as_pool_def model3_queue_def del: sum_mset_0_iff)
  from no_work_left [OF inv this] have "mset (map fst (sent s)) = mset [0..<taken s]" "shift_files (files s) = first_fds"
    by (simp_all add: as_pool_def)
  moreover have "conns (files s) = []"
    using length_conns_shift [of "files s"] ok calculation(2) by (simp add: crew_ok_def) (simp add: conns_def first_fds_def)
  then have "filter (\<lambda>e. \<not> is_conn (snd e)) (files s) = files s" by (simp add: conns_def filter_empty_conv filter_id_conv)
  ultimately show ?thesis using ok by (simp add: crew_ok_def)
qed
text \<open>
  C34.  The second server is right and never stuck: in every interleaving at most ten
  connections are open, every reply goes to the connection whose request it answers and is
  that request in capitals, and none is answered twice; and until a key ends the process its
  threads can go on until every accepted connection has been answered once and closed.
\<close>

theorem accept_server_safe_and_live:
  assumes "(crew_step request)\<^sup>*\<^sup>* (crew_start g) s"
  shows "length (conns (files s)) \<le> 10 \<and> distinct (map fst (sent s)) \<and>
    (\<forall>(c', c, r) \<in> set (sent s). c' < taken s \<and> c = Some c' \<and> answers (request c') r) \<and>
    (running s \<longrightarrow> (\<exists>s'. (crew_step request)\<^sup>*\<^sup>* s s' \<and> taken s' = taken s \<and> files s' = first_files \<and>
      mset (map fst (sent s')) = mset [0..<taken s]))"
proof -
  have ok: "crew_ok s" and inv: "pool_inv request (as_pool s)" using crew.simulated [OF assms refl] by blast+
  have "\<exists>s'. (crew_step request)\<^sup>*\<^sup>* s s' \<and> taken s' = taken s \<and> files s' = first_files \<and>
      mset (map fst (sent s')) = mset [0..<taken s]" if "running s"
  proof -
    have "crew_ok s \<and> pool_inv request (as_pool s) \<and> running s" using ok inv that by blast
    from crew_work.finishes [OF this] obtain s' where s': "(advances request)\<^sup>*\<^sup>* s s'" "\<forall>i < length (threads s'). task (threads s' ! i) = Waiting"
      "crew_ok s'" "pool_inv request (as_pool s')"
      by blast
    from s'(1) have "(crew_step request)\<^sup>*\<^sup>* s s' \<and> taken s' = taken s" by induction (auto simp: advances_def)
    then show ?thesis using crew_idle [OF s'(3,4,2)] by auto
  qed
  moreover have "\<forall>(c', c, r) \<in> set (sent s). c' < taken s \<and> c = Some c' \<and> answers (request c') r" "distinct (map fst (sent s))"
    using pool_replies [OF inv] unfolding as_pool_def pool.simps by blast+
  ultimately show ?thesis using few_connections [OF ok inv] by blast
qed

text \<open>One thread has taken a client.\<close>

definition one_client :: "(nat \<Rightarrow> nat \<Rightarrow> char) \<Rightarrow> crew" where
  "one_client g = (crew_start g) \<lparr> files := (4, Conn 0) # first_files, taken := 1,
     threads := (threads (crew_start g))[3 := \<lparr> task = Taken 4, bytes = fresh_block (g 3) 128 \<rparr>] \<rparr>"

lemma one_client_reached: "(crew_step request)\<^sup>*\<^sup>* (crew_start g) (one_client g)"
proof -
  have "lowest_free first_files = 4" "map_of first_files 3 = Some Listening" by code_simp+
  then have "crew_step request (crew_start g) (one_client g)"
    using take_client [of "crew_start g" 3 4 request] by (simp add: crew_start_def one_client_def)
  then show ?thesis by blast
qed

lemma accept_server_refines_witness:
  "(pool_step (\<lambda>_. ''hi''))\<^sup>*\<^sup>* (pool_start (\<lambda>_ _. NUL)) (as_pool (one_client (\<lambda>_ _. NUL))) \<and>
   fds (as_pool (one_client (\<lambda>_ _. NUL))) = (5, Conn 0) # first_fds"
proof
  show "(pool_step (\<lambda>_. ''hi''))\<^sup>*\<^sup>* (pool_start (\<lambda>_ _. NUL)) (as_pool (one_client (\<lambda>_ _. NUL)))"
    using accept_server_refines [OF one_client_reached] by blast
  show "fds (as_pool (one_client (\<lambda>_ _. NUL))) = (5, Conn 0) # first_fds"
    by (simp add: as_pool_def one_client_def shift_files_def first_files_def first_fds_def shift_def)
qed

lemma accept_server_safe_and_live_witness:
  "\<exists>s'. (crew_step (\<lambda>_. ''hi''))\<^sup>*\<^sup>* (one_client (\<lambda>_ _. NUL)) s' \<and> files s' = first_files \<and> map fst (sent s') = [0]"
proof -
  have "running (one_client (\<lambda>_ _. NUL))" "taken (one_client (\<lambda>_ _. NUL)) = 1" by (simp_all add: one_client_def crew_start_def)
  then obtain s' where s': "(crew_step (\<lambda>_. ''hi''))\<^sup>*\<^sup>* (one_client (\<lambda>_ _. NUL)) s'" "files s' = first_files"
    "mset (map fst (sent s')) = mset [0..<1]"
    using accept_server_safe_and_live [OF one_client_reached, of "\<lambda>_ _. NUL" "\<lambda>_. ''hi''"] by auto
  have "mset xs = {#0#} \<Longrightarrow> xs = [0]" for xs :: "nat list" by (cases xs) auto
  from this [of "map fst (sent s')"] have "map fst (sent s') = [0]" using s'(3) by simp
  with s'(1,2) show ?thesis by (intro exI conjI)
qed

end
