(* ===== verification/SelectServer.thy ===== *)
theory SelectServer
  imports ServerModels Threads
begin

text \<open>
  The fourth server model, \<open>server models/4\<close>, with its ten threads: each waits in \<open>select\<close> for
  one of the five listening sockets, then goes through the sockets reported ready, and for
  each accepts, receives, answers and closes.  The sockets are shared, so what \<open>select\<close>
  reported may be gone when the thread calls \<open>accept\<close>, which then waits.  A \<open>select\<close> that times out
  changes nothing and is no step.
\<close>

section \<open>State\<close>

text \<open>Where a thread is in its loop, with the sockets it has still to visit and the connection
  \<open>cfd[i]\<close> it is serving.\<close>

datatype chore = Selecting | Round "nat list" | Reading nat "nat list" | Writing nat "nat list" | Closing nat "nat list"

text \<open>\<open>pending\<close> has the connections not yet accepted of each of the five sockets; connections are
  numbered as they arrive.  A reply is recorded with its connection.\<close>

record herd =
  pending :: "nat list list"
  chores :: "chore list"
  bufs :: "buffer list"
  arrived :: nat
  answered :: "(nat \<times> string) list"

definition herd_start :: "(nat \<Rightarrow> nat \<Rightarrow> char) \<Rightarrow> herd" where
  "herd_start g = \<lparr> pending = map (\<lambda>_. []) model4_sockets, chores = replicate 10 Selecting,
     bufs = map (\<lambda>t. fresh_block (g t) 128) [0..<10], arrived = 0, answered = [] \<rparr>"

section \<open>Steps\<close>

definition ready :: "herd \<Rightarrow> nat list" where
  "ready s = filter (\<lambda>i. pending s ! i \<noteq> []) [0..<5]"

definition arrive :: "nat \<Rightarrow> herd \<Rightarrow> herd" where
  "arrive p s = s \<lparr> pending := (pending s)[p := pending s ! p @ [arrived s]], arrived := arrived s + 1 \<rparr>"

text \<open>\<open>request c = None\<close> is a client that connects and sends nothing.\<close>

inductive thread_step :: "(nat \<Rightarrow> string option) \<Rightarrow> herd \<Rightarrow> herd \<Rightarrow> bool" for request where
  select: "t < length (chores s) \<Longrightarrow> chores s ! t = Selecting \<Longrightarrow> ready s \<noteq> [] \<Longrightarrow>
    thread_step request s (s \<lparr> chores := (chores s)[t := Round (ready s)] \<rparr>)"
| accept: "t < length (chores s) \<Longrightarrow> chores s ! t = Round (p # ps) \<Longrightarrow> pending s ! p = c # cs \<Longrightarrow>
    thread_step request s (s \<lparr> pending := (pending s)[p := cs], chores := (chores s)[t := Reading c ps] \<rparr>)"
| recv: "t < length (chores s) \<Longrightarrow> chores s ! t = Reading c ps \<Longrightarrow> request c = Some r \<Longrightarrow>
    recv_into (bufs s ! t) 128 r = Some (n, b) \<Longrightarrow> capitals n b = Some b' \<Longrightarrow>
    thread_step request s (s \<lparr> chores := (chores s)[t := Writing c ps], bufs := (bufs s)[t := b'] \<rparr>)"
| send: "t < length (chores s) \<Longrightarrow> chores s ! t = Writing c ps \<Longrightarrow> memset (bufs s ! t) NUL 128 = Some b \<Longrightarrow>
    thread_step request s (s \<lparr> answered := answered s @ [(c, take 128 (bufs s ! t))],
      chores := (chores s)[t := Closing c ps], bufs := (bufs s)[t := b] \<rparr>)"
| close: "t < length (chores s) \<Longrightarrow> chores s ! t = Closing c ps \<Longrightarrow>
    thread_step request s (s \<lparr> chores := (chores s)[t := Round ps] \<rparr>)"
| again: "t < length (chores s) \<Longrightarrow> chores s ! t = Round [] \<Longrightarrow>
    thread_step request s (s \<lparr> chores := (chores s)[t := Selecting] \<rparr>)"

inductive_cases thread_stepE: "thread_step request s s'"

text \<open>A step of the server, or the arrival of a client at one of the sockets \<open>P\<close>.\<close>

definition herd_step :: "nat set \<Rightarrow> (nat \<Rightarrow> string option) \<Rightarrow> herd \<Rightarrow> herd \<Rightarrow> bool" where
  "herd_step P request s s' \<longleftrightarrow> thread_step request s s' \<or> (\<exists>p \<in> P. p < 5 \<and> s' = arrive p s)"

section \<open>The invariant\<close>

fun held :: "chore \<Rightarrow> nat multiset" where
  "held (Reading c ps) = {#c#}"
| "held (Writing c ps) = {#c#}"
| "held c = {#}"

fun visits :: "chore \<Rightarrow> nat list" where
  "visits Selecting = []"
| "visits (Round ps) = ps"
| "visits (Reading c ps) = ps"
| "visits (Writing c ps) = ps"
| "visits (Closing c ps) = ps"

definition waiting :: "herd \<Rightarrow> nat multiset" where
  "waiting s = mset (concat (pending s)) + (\<Sum>c \<in># mset (chores s). held c)"

definition chore_ok :: "(nat \<Rightarrow> string option) \<Rightarrow> nat set \<Rightarrow> chore \<times> buffer \<Rightarrow> bool" where
  "chore_ok request P x \<longleftrightarrow> length (snd x) = 128 \<and> set (visits (fst x)) \<subseteq> P \<and> distinct (visits (fst x)) \<and>
     (\<forall>c ps. fst x = Writing c ps \<longrightarrow> (\<exists>r. request c = Some r \<and> answers r (snd x)))"

definition herd_inv :: "(nat \<Rightarrow> string option) \<Rightarrow> nat set \<Rightarrow> herd \<Rightarrow> bool" where
  "herd_inv request P s \<longleftrightarrow> length (pending s) = 5 \<and> length (chores s) = 10 \<and> length (bufs s) = 10 \<and>
     (\<forall>p < 5. p \<notin> P \<longrightarrow> pending s ! p = []) \<and>
     (\<forall>x \<in> set (zip (chores s) (bufs s)). chore_ok request (P \<inter> {..<5}) x) \<and>
     (\<forall>(c, b) \<in> set (answered s). \<exists>r. request c = Some r \<and> answers r b) \<and>
     waiting s + mset (map fst (answered s)) = mset [0..<arrived s]"

lemma mset_concat_update:
  assumes "p < length xss" "mset ys + M = mset (xss ! p) + N"
  shows "mset (concat (xss[p := ys])) + M = mset (concat xss) + N"
proof -
  have c: "mset (concat zss) = (\<Sum>zs \<in># mset zss. mset zs)" for zss :: "'a list list"
    by (induction zss) simp_all
  have "(mset (concat (xss[p := ys])) + M) + mset (xss ! p) = (mset (concat xss) + N) + mset (xss ! p)"
    using sum_mset_update [OF assms(1), of mset ys] assms(2) unfolding c by (simp add: ac_simps)
  then show ?thesis by simp
qed

lemma waiting_chore:
  assumes "t < length (chores s)" "chores s' = (chores s)[t := c]" "pending s' = pending s"
  shows "waiting s' + held (chores s ! t) = waiting s + held c"
  using sum_mset_update [OF assms(1), of held c] assms(2,3) by (simp add: waiting_def ac_simps)

text \<open>What a step of a thread has to preserve: its own chore and buffer, and the accounting.\<close>

lemma herd_inv_thread:
  assumes inv: "herd_inv request P s" and t: "t < length (chores s)"
    and s': "chores s' = (chores s)[t := c]" "bufs s' = (bufs s)[t := b]" "arrived s' = arrived s"
    and p: "length (pending s') = 5" "\<And>p. p < 5 \<Longrightarrow> p \<notin> P \<Longrightarrow> pending s' ! p = []"
    and c: "chore_ok request (P \<inter> {..<5}) (c, b)"
    and a: "\<forall>(c, b) \<in> set (answered s'). \<exists>r. request c = Some r \<and> answers r b"
    and w: "waiting s' + mset (map fst (answered s')) = waiting s + mset (map fst (answered s))"
  shows "herd_inv request P s'"
proof -
  have "zip (chores s') (bufs s') = (zip (chores s) (bufs s))[t := (c, b)]"
    by (simp add: s' update_zip)
  then have "\<forall>x \<in> set (zip (chores s') (bufs s')). chore_ok request (P \<inter> {..<5}) x"
    using inv c set_update_all [of "zip (chores s) (bufs s)" "chore_ok request (P \<inter> {..<5})" "(c, b)" t]
    unfolding herd_inv_def by simp
  then show ?thesis using inv p a w unfolding herd_inv_def by (simp add: s')
qed

lemma chore_inv:
  assumes "herd_inv request P s" "t < length (chores s)"
  shows "chore_ok request (P \<inter> {..<5}) (chores s ! t, bufs s ! t)"
proof -
  have "(chores s ! t, bufs s ! t) \<in> set (zip (chores s) (bufs s))"
    using assms by (auto simp: herd_inv_def set_zip)
  then show ?thesis using assms(1) unfolding herd_inv_def by blast
qed

lemma recv_answers:
  assumes "recv_into b 128 r = Some (n, b1)" "capitals n b1 = Some b'" "length b = 128"
  shows "length b' = 128 \<and> answers r b'"
proof -
  have n: "n = length (take 128 r)" "b1 = take 128 r @ drop n b" using assms(1,3) recv_into_Some [of 128 b r] by auto
  then have "b' = map toupper (take n b1) @ drop n b1" using assms(2,3) by (simp add: capitals_Some)
  then have "b' = map toupper (take 128 r) @ drop n b" by (simp add: n)
  then show ?thesis using assms(3) n(1) by (simp add: answers_def)
qed

lemma thread_step_inv:
  assumes inv: "herd_inv request P s" and "thread_step request s s'"
  shows "herd_inv request P s'"
  using assms(2)
proof cases
  case (select t)
  have "set (ready s) \<subseteq> P \<inter> {..<5}" "distinct (ready s)" using inv by (auto simp: ready_def herd_inv_def)
  then show ?thesis
    using inv select chore_inv [OF inv select(2)] waiting_chore [of t s s' "Round (ready s)"]
    by (intro herd_inv_thread [OF inv select(2), of s' "Round (ready s)" "bufs s ! t"])
       (auto simp: herd_inv_def chore_ok_def)
next
  case (accept t p ps c cs)
  note ok = chore_inv [OF inv accept(2)]
  have p: "p < 5" using ok accept(3) by (simp add: chore_ok_def)
  let ?m = "s \<lparr> pending := (pending s)[p := cs] \<rparr>"
  have "mset (concat ((pending s)[p := cs])) + {#c#} = mset (concat (pending s)) + {#}"
    using p inv accept(4) by (intro mset_concat_update) (simp_all add: herd_inv_def)
  then have "waiting s = add_mset c (waiting ?m)" by (simp add: waiting_def)
  then have "waiting s' = waiting s"
    using waiting_chore [of t ?m s' "Reading c ps"] accept by simp
  moreover have "pending s' ! q = []" if "q < 5" "q \<notin> P" for q
    using that inv accept(4) p by (cases "q = p") (auto simp: accept(1) herd_inv_def)
  ultimately show ?thesis
    using inv accept ok by (intro herd_inv_thread [OF inv accept(2), of s' "Reading c ps" "bufs s ! t"])
       (auto simp: herd_inv_def chore_ok_def)
next
  case (recv t c ps r n b b')
  note ok = chore_inv [OF inv recv(2)]
  have "length b' = 128 \<and> answers r b'" using recv_answers [OF recv(5,6)] ok by (simp add: chore_ok_def)
  then show ?thesis
    using inv recv ok waiting_chore [of t s s' "Writing c ps"]
    by (intro herd_inv_thread [OF inv recv(2), of s' "Writing c ps" b']) (auto simp: herd_inv_def chore_ok_def)
next
  case (send t c ps b)
  note ok = chore_inv [OF inv send(2)]
  then obtain r where r: "request c = Some r" "answers r (bufs s ! t)" and l: "length (bufs s ! t) = 128"
    using send(3) by (auto simp: chore_ok_def)
  have "b = replicate 128 NUL" using send(4) l by (simp add: memset_all)
  moreover have "waiting s = add_mset c (waiting s')"
    using waiting_chore [of t s s' "Closing c ps"] send by simp
  ultimately show ?thesis
    using inv send ok r l by (intro herd_inv_thread [OF inv send(2), of s' "Closing c ps" b])
      (auto simp: herd_inv_def chore_ok_def)
next
  case (close t c ps)
  then show ?thesis
    using inv chore_inv [OF inv close(2)] waiting_chore [of t s s' "Round ps"]
    by (intro herd_inv_thread [OF inv close(2), of s' "Round ps" "bufs s ! t"]) (auto simp: herd_inv_def chore_ok_def)
next
  case (again t)
  then show ?thesis
    using inv chore_inv [OF inv again(2)] waiting_chore [of t s s' Selecting]
    by (intro herd_inv_thread [OF inv again(2), of s' Selecting "bufs s ! t"]) (auto simp: herd_inv_def chore_ok_def)
qed

lemma arrive_inv:
  assumes inv: "herd_inv request P s" and "p < 5" "p \<in> P"
  shows "herd_inv request P (arrive p s)"
proof -
  have "mset (concat ((pending s)[p := pending s ! p @ [arrived s]])) + {#} = mset (concat (pending s)) + {#arrived s#}"
    using inv assms(2) by (intro mset_concat_update) (simp_all add: herd_inv_def)
  then have "waiting (arrive p s) = add_mset (arrived s) (waiting s)" by (simp add: waiting_def arrive_def)
  then show ?thesis using inv assms(2,3) by (auto simp: herd_inv_def arrive_def nth_list_update)
qed

lemma herd_start_inv: "herd_inv request P (herd_start g)"
proof -
  have "(\<Sum>c \<in># mset (replicate n Selecting). held c) = {#}" for n by (induction n) simp_all
  then have "waiting (herd_start g) = {#}" by (simp add: waiting_def herd_start_def model4_sockets_def)
  then show ?thesis
    by (auto simp: herd_inv_def chore_ok_def set_zip herd_start_def model4_sockets_def nth_Cons' simp del: upt_rec_numeral)
qed

interpretation herd: transition_system "\<lambda>s. s = herd_start g" "herd_step P request" "herd_inv request P" for P request g
  by unfold_locales (auto simp: herd_step_def intro: herd_start_inv thread_step_inv arrive_inv)

section \<open>Safety\<close>

text \<open>
  C38.  The fourth server in any interleaving of its ten threads and of arrivals at its five
  ports: every reply is the request of its own connection in capitals, and no connection is
  answered twice, although the threads share the sockets without a lock.
\<close>

theorem select_server_safe:
  assumes "(herd_step P request)\<^sup>*\<^sup>* (herd_start g) s"
  shows "(\<forall>(c, b) \<in> set (answered s). c < arrived s \<and> (\<exists>r. request c = Some r \<and> answers r b)) \<and>
    distinct (map fst (answered s))"
proof -
  have inv: "herd_inv request P s" by (rule herd.reachable_inv [OF refl assms])
  then have acc: "mset (map fst (answered s)) \<subseteq># mset [0..<arrived s]"
    using mset_subset_eq_add_right unfolding herd_inv_def by metis
  have "fst x < arrived s" if "x \<in> set (answered s)" for x
    using mset_subset_eqD [OF acc, of "fst x"] that by auto
  moreover have "distinct (map fst (answered s))" by (rule distinct_sub [OF acc]) simp
  ultimately show ?thesis using inv unfolding herd_inv_def by fastforce
qed

section \<open>One port\<close>

fun chore_left :: "chore \<Rightarrow> nat" where
  "chore_left Selecting = 1"
| "chore_left (Round ps) = (if ps = [] then 2 else 0)"
| "chore_left (Closing c ps) = 3"
| "chore_left (Writing c ps) = 4"
| "chore_left (Reading c ps) = 5"

definition herd_left :: "herd \<Rightarrow> nat" where
  "herd_left s = 10 * length (concat (pending s)) + (\<Sum>c \<in># mset (chores s). chore_left c)"

lemma herd_left_chore:
  assumes "t < length (chores s)" "chores s' = (chores s)[t := c]" "pending s' = pending s" "chore_left c < chore_left (chores s ! t)"
  shows "herd_left s' < herd_left s"
  using sum_mset_update [OF assms(1), of chore_left c] assms(2-4) by (simp add: herd_left_def)

lemma thread_step_left:
  assumes inv: "herd_inv request P s" and "thread_step request s s'"
  shows "herd_left s' < herd_left s \<and> arrived s' = arrived s"
  using assms(2)
proof cases
  case (accept t p ps c cs)
  have "p < 5" using chore_inv [OF inv accept(2)] accept(3) by (simp add: chore_ok_def)
  then have "mset (concat ((pending s)[p := cs])) + {#c#} = mset (concat (pending s)) + {#}"
    using inv accept(4) by (intro mset_concat_update) (simp_all add: herd_inv_def)
  then have "size (mset (concat ((pending s)[p := cs])) + {#c#}) = size (mset (concat (pending s)))" by simp
  then have "length (concat ((pending s)[p := cs])) + 1 = length (concat (pending s))" unfolding size_union size_mset by simp
  then show ?thesis using sum_mset_update [OF accept(2), of chore_left "Reading c ps"] accept(1,3)
    by (simp add: herd_left_def)
qed (use herd_left_chore in \<open>auto simp: ready_def split: if_splits\<close>)

lemma chore_left_bound: "(\<Sum>c \<in># M. chore_left c) \<le> 5 * size M"
proof (induction M)
  case (add c M)
  have "chore_left c \<le> 5" by (cases c) simp_all
  with add show ?case by simp
qed simp

lemma served_waiting:
  assumes inv: "herd_inv request {p} s" and speak: "\<forall>c. request c \<noteq> None" and w: "waiting s \<noteq> {#}"
  shows "\<exists>s'. thread_step request s s'"
proof -
  have go: "\<exists>s'. thread_step request s s'" if t: "t < length (chores s)"
    and "pending s ! p \<noteq> [] \<and> p < 5 \<or> held (chores s ! t) \<noteq> {#}" for t
  proof (cases "chores s ! t")
    case (Reading c ps)
    obtain r where r: "request c = Some r" using speak by auto
    have l: "length (bufs s ! t) = 128" using chore_inv [OF inv t] by (simp add: chore_ok_def)
    then obtain n b where b: "recv_into (bufs s ! t) 128 r = Some (n, b)" "n \<le> length b" by (simp add: recv_into_Some)
    then show ?thesis using recv [of t s c ps request r n b] Reading t r by (auto simp: capitals_Some)
  next
    case (Writing c ps)
    have "length (bufs s ! t) = 128" using chore_inv [OF inv t] by (simp add: chore_ok_def)
    then show ?thesis using send [of t s c ps "replicate 128 NUL"] Writing t by (auto simp: memset_all)
  next
    case (Closing c ps)
    then show ?thesis using close t by blast
  next
    case Selecting
    then have "pending s ! p \<noteq> []" "p < 5" using that(2) by simp_all
    then have "ready s \<noteq> []" by (auto simp: ready_def filter_empty_conv)
    then show ?thesis using select Selecting t by blast
  next
    case (Round ps)
    show ?thesis
    proof (cases ps)
      case Nil
      then show ?thesis using again Round t by blast
    next
      case (Cons q qs)
      then have "q = p" using chore_inv [OF inv t] Round by (simp add: chore_ok_def)
      moreover have "pending s ! p \<noteq> []" using that(2) Round by simp
      ultimately show ?thesis using accept [of t s q qs] Round t Cons by (cases "pending s ! p") auto
    qed
  qed
  show ?thesis
  proof (cases "(\<Sum>c \<in># mset (chores s). held c) = {#}")
    case True
    then obtain q where "q < 5" "pending s ! q \<noteq> []" using w inv by (auto simp: waiting_def herd_inv_def in_set_conv_nth)
    then have "pending s ! p \<noteq> [] \<and> p < 5" using inv by (auto simp: herd_inv_def)
    moreover have "0 < length (chores s)" using inv by (simp add: herd_inv_def)
    ultimately show ?thesis using go [of 0] by blast
  next
    case False
    then show ?thesis using go by (auto simp: in_set_conv_nth)
  qed
qed

interpretation one_port: finishing "thread_step request"
  "\<lambda>s. herd_inv request {p} s \<and> (\<forall>c. request c \<noteq> None)" herd_left "\<lambda>s. waiting s = {#}" for request p
  using thread_step_inv thread_step_left served_waiting by unfold_locales blast+

text \<open>
  C39.  If all clients come to one of the five ports (the shipped client only knows 3200)
  and send a request, the fourth server serves them all: from every reachable state its
  threads can make only boundedly many steps without a new client, and wherever they have
  to stop every client that arrived has been answered, once.
\<close>

theorem select_server_one_port:
  assumes "(herd_step {p} request)\<^sup>*\<^sup>* (herd_start g) s" "\<forall>c. request c \<noteq> None"
  shows "(\<forall>n s'. (thread_step request ^^ n) s s' \<longrightarrow> n \<le> 10 * length (concat (pending s)) + 50) \<and>
    (\<forall>s'. (thread_step request)\<^sup>*\<^sup>* s s' \<longrightarrow> (\<forall>u. \<not> thread_step request s' u) \<longrightarrow>
       mset (map fst (answered s')) = mset [0..<arrived s])"
proof (intro conjI allI impI)
  have inv: "herd_inv request {p} s" by (rule herd.reachable_inv [OF refl assms(1)])
  then have i: "herd_inv request {p} s \<and> (\<forall>c. request c \<noteq> None)" using assms(2) by blast
  show "n \<le> 10 * length (concat (pending s)) + 50" if "(thread_step request ^^ n) s s'" for n s'
    using one_port.short_runs [OF i that] chore_left_bound [of "mset (chores s)"] inv by (simp add: herd_left_def herd_inv_def)
  fix s' assume r: "(thread_step request)\<^sup>*\<^sup>* s s'" and "\<forall>u. \<not> thread_step request s' u"
  then have "waiting s' = {#}" using one_port.stops_at_goal [OF i] by blast
  moreover have "herd_inv request {p} s' \<and> arrived s' = arrived s" using r
  proof induction
    case (step y z)
    then show ?case using thread_step_inv thread_step_left by metis
  qed (simp add: inv)
  then have "waiting s' + mset (map fst (answered s')) = mset [0..<arrived s]" unfolding herd_inv_def by metis
  ultimately show "mset (map fst (answered s')) = mset [0..<arrived s]" by (simp only: add_0)
qed

section \<open>Two ports\<close>

text \<open>Some reachable state has these sockets, threads, number of clients and answered clients.\<close>

definition reached ::
  "(nat \<Rightarrow> nat \<Rightarrow> char) \<Rightarrow> (nat \<Rightarrow> string option) \<Rightarrow> nat list list \<Rightarrow> chore list \<Rightarrow> nat \<Rightarrow> nat list \<Rightarrow> bool" where
  "reached g request pend cs n ans \<longleftrightarrow> (\<exists>s. (herd_step {0, 1} request)\<^sup>*\<^sup>* (herd_start g) s \<and>
     pending s = pend \<and> chores s = cs \<and> arrived s = n \<and> map fst (answered s) = ans)"

lemma reachedE:
  assumes "reached g request pend cs n ans"
  obtains s where "(herd_step {0, 1} request)\<^sup>*\<^sup>* (herd_start g) s" "pending s = pend" "chores s = cs" "arrived s = n"
    "map fst (answered s) = ans"
  using assms unfolding reached_def by blast

lemma reached_step:
  assumes "(herd_step {0, 1} request)\<^sup>*\<^sup>* (herd_start g) s" "(thread_step request)\<^sup>*\<^sup>* s s'"
    and "pending s' = pend" "chores s' = cs" "arrived s' = n" "map fst (answered s') = ans"
  shows "reached g request pend cs n ans"
proof -
  have "(herd_step {0, 1} request)\<^sup>*\<^sup>* s s'"
    using assms(2) by (rule rtranclp_mono [THEN predicate2D, rotated]) (auto simp: herd_step_def)
  with assms(1) have "(herd_step {0, 1} request)\<^sup>*\<^sup>* (herd_start g) s'" by (rule rtranclp_trans)
  then show ?thesis using assms(3-6) unfolding reached_def by blast
qed

lemma reached_start: "reached g request (replicate 5 []) (replicate 10 Selecting) 0 []"
  unfolding reached_def
  by (rule exI [of _ "herd_start g"]) (simp add: herd_start_def model4_sockets_def map_replicate_const del: upt_rec_numeral)

lemma reached_arrive:
  assumes "reached g request pend cs n ans" "p \<in> {0, 1}"
  shows "reached g request (pend[p := pend ! p @ [n]]) cs (n + 1) ans"
proof -
  obtain s where s: "(herd_step {0, 1} request)\<^sup>*\<^sup>* (herd_start g) s" "pending s = pend" "chores s = cs" "arrived s = n"
    "map fst (answered s) = ans" using assms(1) by (rule reachedE)
  have "herd_step {0, 1} request s (arrive p s)" using assms(2) by (auto simp: herd_step_def)
  with s(1) have "(herd_step {0, 1} request)\<^sup>*\<^sup>* (herd_start g) (arrive p s)" by (rule rtranclp.rtrancl_into_rtrancl)
  then show ?thesis using s(2-5) unfolding reached_def by (intro exI [of _ "arrive p s"]) (simp add: arrive_def)
qed

lemma reached_select:
  assumes "reached g request pend cs n ans" "t < length cs" "cs ! t = Selecting"
    and "filter (\<lambda>i. pend ! i \<noteq> []) [0..<5] = r" "r \<noteq> []"
  shows "reached g request pend (cs[t := Round r]) n ans"
proof -
  obtain s where s: "(herd_step {0, 1} request)\<^sup>*\<^sup>* (herd_start g) s" "pending s = pend" "chores s = cs" "arrived s = n"
    "map fst (answered s) = ans" using assms(1) by (rule reachedE)
  have "ready s = r" using assms(4) by (simp add: ready_def s(2))
  then have "thread_step request s (s \<lparr> chores := (chores s)[t := Round r] \<rparr>)"
    using select [of t s request] assms(2,3,5) s(3) by simp
  then show ?thesis by (rule reached_step [OF s(1) r_into_rtranclp]) (use s in simp_all)
qed

lemma reached_select_all:
  assumes "filter (\<lambda>i. pend ! i \<noteq> []) [0..<5] = r" "r \<noteq> []"
  shows "reached g request pend (replicate k (Round r) @ replicate m Selecting) n ans \<Longrightarrow>
    reached g request pend (replicate (k + m) (Round r)) n ans"
proof (induction m arbitrary: k)
  case (Suc m)
  have "reached g request pend ((replicate k (Round r) @ replicate (Suc m) Selecting)[k := Round r]) n ans"
    by (rule reached_select [OF Suc.prems]) (use assms in \<open>simp_all add: nth_append\<close>)
  then have "reached g request pend (replicate (Suc k) (Round r) @ replicate m Selecting) n ans"
    by (simp add: list_update_append replicate_app_Cons_same)
  then show ?case using Suc.IH [of "Suc k"] by simp
qed simp

lemma reached_again:
  assumes "reached g request pend cs n ans" "t < length cs" "cs ! t = Round []"
  shows "reached g request pend (cs[t := Selecting]) n ans"
proof -
  obtain s where s: "(herd_step {0, 1} request)\<^sup>*\<^sup>* (herd_start g) s" "pending s = pend" "chores s = cs" "arrived s = n"
    "map fst (answered s) = ans" using assms(1) by (rule reachedE)
  then have "thread_step request s (s \<lparr> chores := (chores s)[t := Selecting] \<rparr>)" using again [of t s request] assms(2,3) by simp
  then show ?thesis by (rule reached_step [OF s(1) r_into_rtranclp]) (use s in simp_all)
qed

text \<open>One thread accepts, receives, answers and closes, undisturbed.\<close>

lemma serve_one:
  assumes inv: "herd_inv request P s" and t: "t < length (chores s)" and "chores s ! t = Round (p # ps)" "pending s ! p = c # qs"
    and speak: "\<forall>c. request c \<noteq> None"
  shows "\<exists>s'. (thread_step request)\<^sup>*\<^sup>* s s' \<and> pending s' = (pending s)[p := qs] \<and> chores s' = (chores s)[t := Round ps] \<and>
    arrived s' = arrived s \<and> map fst (answered s') = map fst (answered s) @ [c]"
proof -
  have t2: "t < length (bufs s)" and l: "length (bufs s ! t) = 128"
    using t inv chore_inv [OF inv t] by (simp_all add: herd_inv_def chore_ok_def)
  obtain r where r: "request c = Some r" using speak by auto
  obtain m b where b: "recv_into (bufs s ! t) 128 r = Some (m, b)" "m \<le> length b" "length b = 128"
    using l by (simp add: recv_into_Some)
  then obtain b' where b': "capitals m b = Some b'" "length b' = 128" by (simp add: capitals_Some)
  let ?s1 = "s \<lparr> pending := (pending s)[p := qs], chores := (chores s)[t := Reading c ps] \<rparr>"
  let ?s2 = "?s1 \<lparr> chores := (chores s)[t := Writing c ps], bufs := (bufs s)[t := b'] \<rparr>"
  let ?s3 = "?s2 \<lparr> answered := answered s @ [(c, take 128 b')], chores := (chores s)[t := Closing c ps], bufs := (bufs s)[t := replicate 128 NUL] \<rparr>"
  let ?s4 = "?s3 \<lparr> chores := (chores s)[t := Round ps] \<rparr>"
  have "thread_step request s ?s1" using accept [of t s p ps c qs request] assms(3,4) t by simp
  moreover have "thread_step request ?s1 ?s2" using recv [of t ?s1 c ps request r m b b'] t r b b' by simp
  moreover have "thread_step request ?s2 ?s3"
    using send [of t ?s2 c ps "replicate 128 NUL" request] t t2 b'(2) by (simp add: memset_all)
  moreover have "thread_step request ?s3 ?s4" using close [of t ?s3 c ps request] t by simp
  ultimately have "(thread_step request)\<^sup>*\<^sup>* s ?s4"
    by (intro steps_Cons [of "thread_step request", OF _ steps_Cons [OF _ steps_Cons [OF _ r_into_rtranclp]]])
  then show ?thesis by (rule exI [of _ ?s4, OF conjI]) simp
qed

lemma reached_serve:
  assumes "reached g request pend cs n ans" "t < length cs" "cs ! t = Round (p # ps)" "pend ! p = c # qs"
    and speak: "\<forall>c. request c \<noteq> None"
  shows "reached g request (pend[p := qs]) (cs[t := Round ps]) n (ans @ [c])"
proof -
  obtain s where s: "(herd_step {0, 1} request)\<^sup>*\<^sup>* (herd_start g) s" "pending s = pend" "chores s = cs" "arrived s = n"
    "map fst (answered s) = ans" using assms(1) by (rule reachedE)
  have inv: "herd_inv request {0, 1} s" by (rule herd.reachable_inv [OF refl s(1)])
  obtain s' where "(thread_step request)\<^sup>*\<^sup>* s s'" "pending s' = (pending s)[p := qs]" "chores s' = (chores s)[t := Round ps]"
      "arrived s' = arrived s" "map fst (answered s') = map fst (answered s) @ [c]"
    using serve_one [OF inv, of t p ps c qs] assms(2-5) s(2,3) by auto
  then show ?thesis by (intro reached_step [OF s(1)]) (simp_all add: s)
qed

text \<open>Threads that wait in \<open>accept\<close> for the first two sockets stay there, whoever comes to the others.\<close>

definition blocked :: "herd \<Rightarrow> bool" where
  "blocked s \<longleftrightarrow> length (pending s) = 5 \<and> pending s ! 0 = [] \<and> pending s ! 1 = [] \<and>
     (\<forall>c \<in> set (chores s). \<exists>p ps. c = Round (p # ps) \<and> (p = 0 \<or> p = 1))"

lemma blocked_no_step:
  assumes "blocked s"
  shows "\<not> thread_step request s s'"
proof
  assume "thread_step request s s'"
  then show False
  proof cases
    case (accept t p ps c cs)
    then have "Round (p # ps) \<in> set (chores s)" by (metis nth_mem)
    then show False using assms accept(4) by (auto simp: blocked_def)
  qed (use assms nth_mem in \<open>force simp: blocked_def\<close>)+
qed

lemma blocked_stays:
  "(herd_step {2, 3, 4} request)\<^sup>*\<^sup>* s s' \<Longrightarrow> blocked s \<Longrightarrow> blocked s' \<and> answered s' = answered s \<and> chores s' = chores s"
proof (induction rule: rtranclp_induct)
  case (step y z)
  then have y: "blocked y" "answered y = answered s" "chores y = chores s" by simp_all
  then obtain p where "p \<in> {2, 3, 4}" "z = arrive p y" using step(2) blocked_no_step by (auto simp: herd_step_def)
  then show ?case using y by (auto simp: blocked_def arrive_def)
qed simp

lemma thread_steps_inv:
  "(thread_step request)\<^sup>*\<^sup>* s s' \<Longrightarrow> herd_inv request P s \<Longrightarrow> herd_inv request P s'"
  by (induction rule: rtranclp_induct) (auto intro: thread_step_inv)

text \<open>A thread that has found some sockets ready serves one client of each.\<close>

lemma serve_round:
  assumes speak: "\<forall>c. request c \<noteq> None"
  shows "herd_inv request P s \<Longrightarrow> t < length (chores s) \<Longrightarrow> chores s ! t = Round ps \<Longrightarrow> distinct ps \<Longrightarrow>
    \<forall>p \<in> set ps. p < 5 \<and> pending s ! p \<noteq> [] \<Longrightarrow>
    \<exists>s'. (thread_step request)\<^sup>*\<^sup>* s s' \<and> chores s' = (chores s)[t := Selecting] \<and> arrived s' = arrived s \<and>
      length (concat (pending s')) + length ps = length (concat (pending s))"
proof (induction ps arbitrary: s)
  case Nil
  let ?s = "s \<lparr> chores := (chores s)[t := Selecting] \<rparr>"
  have "thread_step request s ?s" using again [of t s request] Nil by simp
  then show ?case by (intro exI [of _ ?s]) auto
next
  case (Cons p ps)
  then obtain c qs where q: "pending s ! p = c # qs" and p: "p < 5" by (auto simp: neq_Nil_conv)
  obtain y where y: "(thread_step request)\<^sup>*\<^sup>* s y" "pending y = (pending s)[p := qs]" "chores y = (chores s)[t := Round ps]"
      "arrived y = arrived s" using serve_one [OF Cons.prems(1-3) q speak] by blast
  have inv: "herd_inv request P y" by (rule thread_steps_inv [OF y(1) Cons.prems(1)])
  have "q < 5 \<and> pending y ! q \<noteq> []" if "q \<in> set ps" for q
    using that Cons.prems(4,5) by (cases "q = p") (simp_all add: y(2))
  then obtain s' where s': "(thread_step request)\<^sup>*\<^sup>* y s'" "chores s' = (chores y)[t := Selecting]" "arrived s' = arrived y"
      "length (concat (pending s')) + length ps = length (concat (pending y))"
    using Cons.IH [OF inv] Cons.prems(2,4) y(3) by auto
  have "mset (concat ((pending s)[p := qs])) + {#c#} = mset (concat (pending s)) + {#}"
    using p Cons.prems(1) q by (intro mset_concat_update) (simp_all add: herd_inv_def)
  then have "size (mset (concat (pending y)) + {#c#}) = size (mset (concat (pending s)))" by (simp add: y(2))
  then have "length (concat (pending y)) + 1 = length (concat (pending s))" unfolding size_union size_mset by simp
  then show ?case using s' y rtranclp_trans [OF y(1) s'(1)] by (intro exI [of _ s']) simp
qed

text \<open>One thread that is not blocked is enough for all clients, where no other holds one.\<close>

lemma serve_all:
  assumes speak: "\<forall>c. request c \<noteq> None"
  shows "herd_inv request P s \<Longrightarrow> t < length (chores s) \<Longrightarrow> chores s ! t = Selecting \<Longrightarrow>
    \<exists>s'. (thread_step request)\<^sup>*\<^sup>* s s' \<and> chores s' = chores s \<and> arrived s' = arrived s \<and> concat (pending s') = []"
proof (induction "length (concat (pending s))" arbitrary: s rule: less_induct)
  case less
  show ?case
  proof (cases "ready s = []")
    case True
    have "pending s ! i = []" if "i < 5" for i using True that by (auto simp: ready_def filter_empty_conv)
    then have "\<forall>xs \<in> set (pending s). xs = []" using less.prems(1) by (auto simp: herd_inv_def in_set_conv_nth)
    then show ?thesis by (intro exI [of _ s]) (auto simp: concat_eq_Nil_conv)
  next
    case False
    let ?y = "s \<lparr> chores := (chores s)[t := Round (ready s)] \<rparr>"
    have y: "thread_step request s ?y" using select [of t s request] less.prems False by simp
    have inv: "herd_inv request P ?y" by (rule thread_step_inv [OF less.prems(1) y])
    have "distinct (ready s)" "\<forall>p \<in> set (ready s). p < 5 \<and> pending ?y ! p \<noteq> []" by (auto simp: ready_def)
    then obtain z where z: "(thread_step request)\<^sup>*\<^sup>* ?y z" "chores z = (chores s)[t := Selecting]" "arrived z = arrived s"
        "length (concat (pending z)) + length (ready s) = length (concat (pending s))"
      using serve_round [OF speak inv, of t "ready s"] less.prems(2) by auto
    have c: "chores z = chores s" using z(2) less.prems(3) by (metis list_update_id)
    have "length (concat (pending z)) < length (concat (pending s))" using z(4) False by (cases "ready s") auto
    moreover have "herd_inv request P z" by (rule thread_steps_inv [OF z(1) inv])
    ultimately obtain s' where "(thread_step request)\<^sup>*\<^sup>* z s'" "chores s' = chores z" "arrived s' = arrived z" "concat (pending s') = []"
      using less.hyps [of z] less.prems(2,3) c by auto
    moreover have "(thread_step request)\<^sup>*\<^sup>* s z" using y z(1) by (rule converse_rtranclp_into_rtranclp)
    ultimately show ?thesis using z(3) c by (intro exI [of _ s']) auto
  qed
qed

lemma herd_step_mono:
  assumes "(herd_step P request)\<^sup>*\<^sup>* s s'" "P \<subseteq> Q"
  shows "(herd_step Q request)\<^sup>*\<^sup>* s s'"
proof -
  have "herd_step P request \<le> herd_step Q request"
    using assms(2) unfolding herd_step_def by (intro predicate2I) blast
  then show ?thesis using assms(1) by (rule rtranclp_mono [THEN predicate2D])
qed

lemma herd_steps_inv:
  "(herd_step P request)\<^sup>*\<^sup>* s s' \<Longrightarrow> herd_inv request P s \<Longrightarrow> herd_inv request P s'"
  by (induction rule: rtranclp_induct) (auto simp: herd_step_def intro: thread_step_inv arrive_inv)

text \<open>A client at the port one of the waiting threads waits for sets the server going again.\<close>

lemma released:
  assumes speak: "\<forall>c. request c \<noteq> None" and inv: "herd_inv request UNIV s" and b: "blocked s"
    and q: "q < length (chores s)" "chores s ! q = Round [q]" "q < 2"
  shows "\<exists>s'. (thread_step request)\<^sup>*\<^sup>* (arrive q s) s' \<and> mset (map fst (answered s')) = mset [0..<arrived s + 1]"
proof -
  let ?a = "arrive q s"
  have "q = 0 \<or> q = 1" using q(3) by linarith
  then have p: "pending ?a ! q = [arrived s]" using b by (auto simp: arrive_def blocked_def)
  have a: "herd_inv request UNIV ?a" using arrive_inv [OF inv, of q] q(3) by simp
  have ca: "chores ?a = chores s" "arrived ?a = arrived s + 1" by (simp_all add: arrive_def)
  obtain x where x: "(thread_step request)\<^sup>*\<^sup>* ?a x" "chores x = (chores s)[q := Round []]" "arrived x = arrived s + 1"
    using serve_one [OF a, of q q "[]" "arrived s" "[]"] q p ca speak by auto
  let ?y = "x \<lparr> chores := (chores x)[q := Selecting] \<rparr>"
  have y: "thread_step request x ?y" using again [of q x request] x(2) q(1) by simp
  have iy: "herd_inv request UNIV ?y" by (rule thread_step_inv [OF thread_steps_inv [OF x(1) a] y])
  obtain s' where s': "(thread_step request)\<^sup>*\<^sup>* ?y s'" "chores s' = (chores s)[q := Selecting]" "arrived s' = arrived s + 1"
      "concat (pending s') = []"
    using serve_all [OF speak iy, of q] q(1) x(2,3) by auto
  have "herd_inv request UNIV s'" by (rule thread_steps_inv [OF s'(1) iy])
  then have acc: "waiting s' + mset (map fst (answered s')) = mset [0..<arrived s + 1]" using s'(3) unfolding herd_inv_def by metis
  have "held c = {#}" if "c \<in> set (chores s')" for c
  proof -
    have "c = Selecting \<or> c \<in> set (chores s)" using that set_update_subset_insert [of "chores s" q Selecting] s'(2) by auto
    then show ?thesis using b by (auto simp: blocked_def)
  qed
  then have "(\<Sum>c \<in># mset (chores s'). held c) = {#}" by simp
  then have "waiting s' = {#}" using s'(4) by (simp add: waiting_def)
  moreover have "(thread_step request)\<^sup>*\<^sup>* ?a s'"
    using x(1) converse_rtranclp_into_rtranclp [OF y s'(1)] by (rule rtranclp_trans)
  ultimately show ?thesis using acc by (intro exI [of _ s']) simp
qed

text \<open>
  C40.  The fourth server can lock up although every client sends its request: after three
  clients at the ports 3200 and 3201, all answered, all ten threads can be waiting in \<open>accept\<close>
  for one of these two ports.  As long as no further client comes to one of these two, the
  server makes no step any more, so no client of the ports 3202 to 3204 is accepted.  A
  further client at either of the two ports releases a thread, and then the server can
  answer everybody, those who came meanwhile included.
\<close>

theorem select_server_locks_up:
  assumes "\<forall>c. request c \<noteq> None"
  shows "\<exists>s. (herd_step {0, 1} request)\<^sup>*\<^sup>* (herd_start g) s \<and> arrived s = 3 \<and> map fst (answered s) = [0, 1, 2] \<and>
    (\<forall>s'. (herd_step {2, 3, 4} request)\<^sup>*\<^sup>* s s' \<longrightarrow> answered s' = answered s \<and> (\<forall>u. \<not> thread_step request s' u) \<and>
       (\<forall>p < 2. \<exists>s''. (thread_step request)\<^sup>*\<^sup>* (arrive p s') s'' \<and>
          mset (map fst (answered s'')) = mset [0..<arrived s' + 1]))"
proof -
  let ?both = "Round [0, 1]"
  have r: "replicate 10 ?both = ?both # replicate 9 ?both" "replicate 9 ?both = ?both # replicate 8 ?both"
    by (simp_all add: numeral_eq_Suc)
  have "reached g request [[0], [1], [], [], []] (replicate 10 Selecting) 2 []"
    using reached_arrive [OF reached_arrive [OF reached_start, of 0], of 1] by (simp add: numeral_eq_Suc)
  moreover have "filter (\<lambda>i. [[0], [1], [], [], []] ! i \<noteq> ([] :: nat list)) [0..<5] = [0, 1]" by code_simp
  ultimately have "reached g request [[0], [1], [], [], []] (?both # replicate 9 ?both) 2 []"
    unfolding r(1) [symmetric] using reached_select_all [of "[[0], [1], [], [], []]" "[0, 1]" g request 0 10] by simp
  from reached_serve [OF this, of 0 0 "[1]" 0 "[]"] assms
  have "reached g request [[], [1], [], [], []] (Round [1] # replicate 9 ?both) 2 [0]" by simp
  from reached_serve [OF this, of 0 1 "[]" 1 "[]"] assms
  have "reached g request [[], [], [], [], []] (Round [] # replicate 9 ?both) 2 [0, 1]" by simp
  from reached_again [OF this, of 0]
  have "reached g request [[], [], [], [], []] (Selecting # replicate 9 ?both) 2 [0, 1]" by simp
  from reached_arrive [OF this, of 0]
  have "reached g request [[2], [], [], [], []] (Selecting # replicate 9 ?both) 3 [0, 1]" by simp
  then have "reached g request [[2], [], [], [], []] ((Selecting # replicate 9 ?both)[0 := Round [0]]) 3 [0, 1]"
    by (rule reached_select) (simp, simp, code_simp, simp)
  then have "reached g request [[2], [], [], [], []] (Round [0] # ?both # replicate 8 ?both) 3 [0, 1]"
    by (simp only: list_update.simps nat.case r(2))
  from reached_serve [OF this, of 1 0 "[1]" 2 "[]"] assms
  have "reached g request [[], [], [], [], []] (Round [0] # Round [1] # replicate 8 ?both) 3 [0, 1, 2]" by simp
  then obtain s where s: "(herd_step {0, 1} request)\<^sup>*\<^sup>* (herd_start g) s" "pending s = [[], [], [], [], []]"
    "chores s = Round [0] # Round [1] # replicate 8 ?both" "arrived s = 3" "map fst (answered s) = [0, 1, 2]"
    by (rule reachedE)
  have b: "blocked s" by (auto simp: blocked_def s(2,3))
  have release: "\<exists>s''. (thread_step request)\<^sup>*\<^sup>* (arrive p s') s'' \<and> mset (map fst (answered s'')) = mset [0..<arrived s' + 1]"
    if steps: "(herd_step {2, 3, 4} request)\<^sup>*\<^sup>* s s'" and "p < 2" for s' p
  proof -
    have "herd_inv request UNIV s" by (rule herd_steps_inv [OF herd_step_mono [OF s(1) subset_UNIV] herd_start_inv])
    then have inv: "herd_inv request UNIV s'" by (rule herd_steps_inv [OF herd_step_mono [OF steps subset_UNIV]])
    note b' = blocked_stays [OF steps b]
    have c: "chores s' = Round [0] # Round [1] # replicate 8 ?both" using b' s(3) by simp
    have "p = 0 \<or> p = 1" using that(2) by linarith
    then have "p < length (chores s')" "chores s' ! p = Round [p]" by (auto simp: c)
    then show ?thesis using b' that(2) by (intro released [OF assms inv]) simp_all
  qed
  show ?thesis
  proof (rule exI [of _ s], intro conjI allI impI)
    show "(herd_step {0, 1} request)\<^sup>*\<^sup>* (herd_start g) s" "arrived s = 3" "map fst (answered s) = [0, 1, 2]"
      by (rule s(1) s(4) s(5))+
  next
    fix s' assume st: "(herd_step {2, 3, 4} request)\<^sup>*\<^sup>* s s'"
    note b' = blocked_stays [OF st b]
    then show "answered s' = answered s" by simp
    show "\<not> thread_step request s' u" for u using b' blocked_no_step by simp
    show "\<exists>s''. (thread_step request)\<^sup>*\<^sup>* (arrive p s') s'' \<and> mset (map fst (answered s'')) = mset [0..<arrived s' + 1]"
      if "p < 2" for p by (rule release [OF st that])
  qed
qed

lemma arrived_one: "(herd_step {0} request)\<^sup>*\<^sup>* (herd_start g) (arrive 0 (herd_start g))"
  by (intro r_into_rtranclp) (simp add: herd_step_def)

lemma select_server_safe_witness:
  "\<exists>s. (herd_step {0} (\<lambda>_. Some ''hi''))\<^sup>*\<^sup>* (herd_start (\<lambda>_ _. NUL)) s \<and> arrived s = 1 \<and> distinct (map fst (answered s))"
proof -
  have "distinct (map fst (answered (arrive 0 (herd_start (\<lambda>_ _. NUL)))))"
    using select_server_safe [OF arrived_one [of "\<lambda>_. Some ''hi''"]] by blast
  then show ?thesis using arrived_one [of "\<lambda>_. Some ''hi''" "\<lambda>_ _. NUL"]
    by (intro exI [of _ "arrive 0 (herd_start (\<lambda>_ _. NUL))"]) (simp add: arrive_def herd_start_def)
qed

lemma select_server_one_port_witness:
  "\<exists>s s'. (thread_step (\<lambda>_. Some ''hi''))\<^sup>*\<^sup>* s s' \<and> arrived s = 1 \<and> map fst (answered s') = [0]"
proof -
  let ?req = "\<lambda>_ :: nat. Some ''hi''" and ?s = "arrive 0 (herd_start (\<lambda>_ _. NUL))"
  have "herd_inv ?req {0} ?s \<and> (\<forall>c. ?req c \<noteq> None)" using arrive_inv [OF herd_start_inv, of 0] by simp
  then obtain s' where s': "(thread_step ?req)\<^sup>*\<^sup>* ?s s'" "\<forall>u. \<not> thread_step ?req s' u"
    using one_port.stops by blast
  have "arrived ?s = 1" by (simp add: arrive_def herd_start_def)
  have "mset (map fst (answered s')) = mset [0..<arrived ?s]"
    using select_server_one_port [OF arrived_one, of ?req "\<lambda>_ _. NUL"] s' by blast
  moreover have "[0..<arrived ?s] = [0]" unfolding \<open>arrived ?s = 1\<close> by simp
  ultimately have "map fst (answered s') = [0]" by (simp only: mset.simps mset_single_iff)
  with s'(1) \<open>arrived ?s = 1\<close> show ?thesis by (intro exI conjI)
qed

lemma select_server_locks_up_witness:
  "\<exists>s. (herd_step {0, 1} (\<lambda>_. Some ''hi''))\<^sup>*\<^sup>* (herd_start (\<lambda>_ _. NUL)) s \<and> arrived s = 3 \<and> map fst (answered s) = [0, 1, 2] \<and>
    (\<forall>s'. (herd_step {2, 3, 4} (\<lambda>_. Some ''hi''))\<^sup>*\<^sup>* s s' \<longrightarrow>
       answered s' = answered s \<and> (\<forall>u. \<not> thread_step (\<lambda>_. Some ''hi'') s' u) \<and>
       (\<forall>p < 2. \<exists>s''. (thread_step (\<lambda>_. Some ''hi''))\<^sup>*\<^sup>* (arrive p s') s'' \<and>
          mset (map fst (answered s'')) = mset [0..<arrived s' + 1]))"
  by (rule select_server_locks_up) simp

end
