(* ===== verification/ChatSystem.thy ===== *)
theory ChatSystem
  imports ChatMq
begin

text \<open>
  The clients of \<open>chat/client.c\<close> as processes, and the whole chat: one server and any
  number of clients over the same five queues.  An event is a client starting, a key
  pressed in a client, one round of one of a client's two receiver threads, or one round
  of the server.  The delivery theorem composes the operations of ChatMq: a line typed in
  one client is shown by all of them.
\<close>

section \<open>A client process\<close>

text \<open>\<open>list_shown\<close> and \<open>chat_shown\<close> are the texts last printed in \<open>sub_users_win\<close> and
  \<open>sub_chat_win\<close>.\<close>

record chat_client =
  cl_name :: buffer
  cl_list :: buffer
  cl_chat :: buffer
  list_shown :: string
  chat_shown :: string
  cl_running :: bool

datatype chat_key = Key_F1 string | Key_F2 | Key_Other

text \<open>\<open>main\<close> up to its loop: the name is typed and sent, the threads are started; \<open>_users\<close>
  and \<open>_chat\<close> are global and zero.\<close>

definition client_main :: "(nat \<Rightarrow> nat \<Rightarrow> char) \<Rightarrow> string \<Rightarrow> chat_server \<Rightarrow> (chat_client \<times> chat_server) option" where
  "client_main g line sv = do {
     (name, q) \<leftarrow> client_send_name (fresh_block (g 2) 20) line (name_q sv);
     Some (\<lparr> cl_name = name, cl_list = replicate 4096 NUL, cl_chat = replicate 8192 NUL,
             list_shown = [], chat_shown = [], cl_running = True \<rparr>, sv \<lparr> name_q := q \<rparr>)
   }"

text \<open>One round of the loop of \<open>main\<close>.\<close>

definition client_key ::
  "(nat \<Rightarrow> nat \<Rightarrow> char) \<Rightarrow> chat_key \<Rightarrow> chat_client \<Rightarrow> chat_server \<Rightarrow> (chat_client \<times> chat_server) option" where
  "client_key g k c sv = (case k of
     Key_F1 line \<Rightarrow> do {
       q \<leftarrow> client_send_message g (cl_name c) line (message_q sv);
       Some (c, sv \<lparr> message_q := q \<rparr>)
     }
   | Key_F2 \<Rightarrow> do {
       q \<leftarrow> client_exit (cl_name c) (delete_q sv);
       Some (c \<lparr> cl_running := False \<rparr>, sv \<lparr> delete_q := q \<rparr>)
     }
   | Key_Other \<Rightarrow> Some (c, sv))"

text \<open>One round of the thread \<open>get_name_list\<close> and of the thread \<open>get_chat\<close>.\<close>

definition users_thread :: "chat_client \<Rightarrow> chat_server \<Rightarrow> (chat_client \<times> chat_server) option" where
  "users_thread c sv = do {
     (shown, list, q) \<leftarrow> get_name_list (cl_list c) (name_list_q sv);
     Some (c \<lparr> cl_list := list, list_shown := (case shown of None \<Rightarrow> list_shown c | Some t \<Rightarrow> t) \<rparr>,
           sv \<lparr> name_list_q := q \<rparr>)
   }"

definition chat_thread :: "chat_client \<Rightarrow> chat_server \<Rightarrow> (chat_client \<times> chat_server) option" where
  "chat_thread c sv = do {
     (shown, chat, q) \<leftarrow> get_chat (cl_chat c) (chat_q sv);
     Some (c \<lparr> cl_chat := chat, chat_shown := (case shown of None \<Rightarrow> chat_shown c | Some t \<Rightarrow> t) \<rparr>,
           sv \<lparr> chat_q := q \<rparr>)
   }"

section \<open>Server and clients\<close>

record chat_system =
  server :: chat_server
  clients :: "chat_client list"

datatype chat_event = Join "nat \<Rightarrow> nat \<Rightarrow> char" string | Press nat "nat \<Rightarrow> nat \<Rightarrow> char" chat_key
  | Users_Thread nat | Chat_Thread nat | Serve

text \<open>A step of client \<open>i\<close>; the process is gone after its exit.\<close>

definition in_client ::
  "nat \<Rightarrow> (chat_client \<Rightarrow> chat_server \<Rightarrow> (chat_client \<times> chat_server) option) \<Rightarrow> chat_system \<Rightarrow> chat_system option" where
  "in_client i f s = do {
     c \<leftarrow> buf_get (clients s) i;
     (if cl_running c then do {
        (c, sv) \<leftarrow> f c (server s);
        Some \<lparr> server = sv, clients = (clients s)[i := c] \<rparr>
      } else Some s)
   }"

definition chat_step :: "chat_event \<Rightarrow> chat_system \<Rightarrow> chat_system option" where
  "chat_step e s = (case e of
     Join g line \<Rightarrow> do {
       (c, sv) \<leftarrow> client_main g line (server s);
       Some \<lparr> server = sv, clients = clients s @ [c] \<rparr>
     }
   | Press i g k \<Rightarrow> in_client i (client_key g k) s
   | Users_Thread i \<Rightarrow> in_client i users_thread s
   | Chat_Thread i \<Rightarrow> in_client i chat_thread s
   | Serve \<Rightarrow> do { sv \<leftarrow> server_round (server s); Some (s \<lparr> server := sv \<rparr>) })"

section \<open>Receiving the text\<close>




section \<open>Delivery\<close>



lemma send_name_list_msgsize: "send_name_list l n q = Some q' \<Longrightarrow> mq_msgsize q' = mq_msgsize q"
  by (auto simp: send_name_list_def mq_send_def mq_push_def split: if_splits bind_splits
      elim!: fold_opt_keeps [where P = "\<lambda>x. mq_msgsize x = mq_msgsize q"])

lemma server_round_list_msgsize: "server_round s = Some s' \<Longrightarrow> mq_msgsize (name_list_q s') = mq_msgsize (name_list_q s)"
  by (auto simp: server_round_def split: bind_splits) (erule send_name_list_msgsize)

text \<open>Ann and Bob have joined an empty chat.\<close>

definition demo_client :: "string \<Rightarrow> chat_client" where
  "demo_client nm = \<lparr> cl_name = nm @ replicate (20 - length nm) NUL, cl_list = replicate 4096 NUL,
     cl_chat = replicate 8192 NUL, list_shown = [], chat_shown = [], cl_running = True \<rparr>"

definition demo_system :: chat_system where
  "demo_system = \<lparr> server = \<lparr> sv_name = replicate 20 NUL, sv_name_list = unlines [''Ann'', ''Bob''] @ replicate 4088 NUL,
       sv_message = replicate 350 NUL, sv_chat = replicate 8192 NUL, name_q = new_mq 20, name_list_q = new_mq 4096,
       message_q = new_mq 8192, chat_q = new_mq 8192, delete_q = new_mq 20 \<rparr>,
     clients = [demo_client ''Ann'', demo_client ''Bob''] \<rparr>"

lemma demo_system_facts:
  "serves (server demo_system) [''Ann'', ''Bob''] []" "clients demo_system = [demo_client ''Ann'', demo_client ''Bob'']"
  "name_q (server demo_system) = new_mq 20" "name_list_q (server demo_system) = new_mq 4096"
  "message_q (server demo_system) = new_mq 8192" "chat_q (server demo_system) = new_mq 8192"
  "delete_q (server demo_system) = new_mq 20"
  by (simp_all add: demo_system_def serves_def new_mq_def nick_def cstr_Cons)



text \<open>
  A name is printed as a format string: once a name with a conversion such as
  \<open>%s\<close> has joined, the next round of the list thread of every client, not only of the
  new one, reads arguments that do not exist.
\<close>

theorem chat_hostile_name:
  assumes sv: "serves (server s) us log" and nm: "nick nm" "length nm \<le> 18"
    and bad: "format_of (unlines us @ nm @ [NL]) = None"
    and empty: "mq_msgs (name_q (server s)) = []" "mq_msgs (message_q (server s)) = []"
      "mq_msgs (delete_q (server s)) = []" "mq_msgs (name_list_q (server s)) = []"
    and fit: "0 < mq_maxmsg (name_q (server s))" "18 \<le> mq_msgsize (name_q (server s))"
      "0 < mq_maxmsg (name_list_q (server s))" "mq_msgsize (name_list_q (server s)) = 4096"
      "mq_fits (chat_q (server s)) log" "length (unlines (us @ [nm])) < 4096"
    and cl: "i < length (clients s)" "cl_running (clients s ! i)" "length (cl_list (clients s ! i)) = 4096"
  shows "\<exists>s'. fold_opt chat_step [Join g nm, Serve] s = Some s' \<and> chat_step (Users_Thread i) s' = None"
proof -
  let ?sv = "(server s) \<lparr> name_q := (name_q (server s)) \<lparr> mq_msgs := [nm] \<rparr> \<rparr>" and ?us = "us @ [nm]"
  have n: "NUL \<notin> set nm" using nm(1) by (simp add: nick_def)
  obtain c where join: "chat_step (Join g nm) s = Some \<lparr> server = ?sv, clients = clients s @ [c] \<rparr>"
  proof -
    let ?b = "nm @ NUL # drop (Suc (length nm)) (fresh_block (g 2) 20)"
    have b: "wgetstr (fresh_block (g 2) 20) nm = Some ?b" "cstr ?b = Some nm"
      using nm(2) n by (simp_all add: wgetstr_def put_bytes_def)
    have "mq_push (name_q (server s)) nm = (name_q (server s)) \<lparr> mq_msgs := [nm] \<rparr>"
      using empty(1) fit(1,2) nm(2) by (simp add: mq_push_def mq_fits_def)
    then have "client_send_name (fresh_block (g 2) 20) nm (name_q (server s)) = Some (?b, (name_q (server s)) \<lparr> mq_msgs := [nm] \<rparr>)"
      using b mq_send_string [OF b(2), of "name_q (server s)"] by (simp add: client_send_name_def strlen_Some)
    then show thesis using that by (simp add: chat_step_def client_main_def)
  qed
  have rep: "serves ?sv us log" "pending_ok ?sv" using sv empty nm by (auto simp: serves_def pending_ok_def)
  have a: "after_joins ?sv us = ?us" "after_talk ?sv log = log"
    using empty by (simp_all add: after_joins_def after_talk_def Let_def)
  have log: "length log < 8192" using sv cstr_length [of "sv_chat (server s)" log] by (simp add: serves_def)
  have "mq_fits (name_list_q ?sv) (unlines ?us)" using fit(4,6) by (simp add: mq_fits_def)
  then obtain sv' where r: "server_round ?sv = Some sv'"
      "mq_msgs (name_list_q sv') = copies (name_list_q ?sv) (length ?us) (unlines ?us)"
    using server_round_refines [OF rep] a fit(5,6) log empty(4) by auto
  then obtain ms where q: "mq_msgs (name_list_q sv') = unlines ?us # ms"
    using fit(3) empty(4) by (cases "mq_maxmsg (name_list_q (server s))") (auto simp: copies_def)
  have sz: "mq_msgsize (name_list_q sv') = 4096" using server_round_list_msgsize [OF r(1)] fit(4) by simp
  let ?c = "clients s ! i" and ?t = "unlines ?us"
  have nn: "NUL \<notin> set ?t" using sv n unlines_no_NUL [of us] by (simp add: serves_def)
  have z: "memset (cl_list ?c) NUL 4096 = Some (replicate 4096 NUL)" using cl(3) by (simp add: memset_def put_bytes_def)
  have p: "put_bytes (replicate 4096 NUL) 0 ?t = Some (?t @ replicate (4096 - length ?t) NUL)"
    using fit(6) by (simp add: put_bytes_def)
  have "cstr (?t @ replicate (4096 - length ?t) NUL) = Some ?t" using nn fit(6) cstr_append_pre [OF nn] by simp
  moreover have "format_of ?t = None" using bad by simp
  ultimately have "users_thread ?c sv' = None"
    using z p q sz by (simp add: users_thread_def get_name_list_def mq_receive_def mq_pop_def)
  then have "chat_step (Users_Thread i) \<lparr> server = sv', clients = clients s @ [c] \<rparr> = None"
    using cl by (simp add: chat_step_def in_client_def buffer_simps nth_append)
  moreover have "chat_step Serve \<lparr> server = ?sv, clients = clients s @ [c] \<rparr> = Some \<lparr> server = sv', clients = clients s @ [c] \<rparr>"
    using r(1) by (simp add: chat_step_def)
  ultimately show ?thesis using join by simp
qed

theorem chat_hostile_name_witness:
  "\<exists>s'. fold_opt chat_step [Join (\<lambda>_ _. NUL) ''%s'', Serve] demo_system = Some s' \<and> chat_step (Users_Thread 1) s' = None"
  by (rule chat_hostile_name [OF demo_system_facts(1)])
    (simp_all add: demo_system_facts demo_client_def new_mq_def mq_fits_def nick_def)

end
