(* ===== verification/Editor.thy ===== *)
theory Editor
  imports Stdio
begin

text \<open>
  The two curses editors \<open>text_editor/text_editor.c\<close> and \<open>text_editor2/\<close> over a small
  model of files: contents by name, and descriptors that are the terminal or an open file
  with its offset.  A key is what \<open>wgetch\<close> returns with what the user types next; the
  first also carries what the stack holds.  The window \<open>sub_inwnd\<close> holds text that
  \<open>wrefresh\<close> shows on the screen; borders, colours, the prompt's window and the echo of
  typed characters are left out.
\<close>

section \<open>Files and descriptors\<close>

datatype opened = Terminal | File string nat

record os =
  files :: "string \<rightharpoonup> string"
  descs :: "nat \<rightharpoonup> opened"

text \<open>\<open>open\<close> takes the lowest free descriptor below the limit of 1024.\<close>

definition lowest_free :: "(nat \<rightharpoonup> opened) \<Rightarrow> nat option" where
  "lowest_free d = find (\<lambda>n. d n = None) [0..<1024]"

definition os_open :: "string \<Rightarrow> 'a os_scheme \<Rightarrow> int \<times> 'a os_scheme" where
  "os_open nm s =
     (if files s nm = None then (-1, s)
      else case lowest_free (descs s) of
             None \<Rightarrow> (-1, s)
           | Some n \<Rightarrow> (int n, s \<lparr> descs := (descs s)(n \<mapsto> File nm 0) \<rparr>))"

definition desc_of :: "int \<Rightarrow> 'a os_scheme \<Rightarrow> opened option" where
  "desc_of f s = (if f < 0 then None else descs s (nat f))"

definition os_lseek :: "int \<Rightarrow> nat \<Rightarrow> 'a os_scheme \<Rightarrow> 'a os_scheme" where
  "os_lseek f off s = (case desc_of f s of
     Some (File nm _) \<Rightarrow> s \<lparr> descs := (descs s)(nat f \<mapsto> File nm off) \<rparr>
   | _ \<Rightarrow> s)"

definition overwrite :: "string \<Rightarrow> nat \<Rightarrow> string \<Rightarrow> string" where
  "overwrite c off bs =
     take off c @ replicate (off - length c) NUL @ bs @ drop (off + length bs) c"

definition os_write :: "int \<Rightarrow> string \<Rightarrow> 'a os_scheme \<Rightarrow> 'a os_scheme" where
  "os_write f bs s = (case desc_of f s of
     Some (File nm off) \<Rightarrow>
       s \<lparr> files := (files s)(nm := map_option (\<lambda>c. overwrite c off bs) (files s nm)),
           descs := (descs s)(nat f \<mapsto> File nm (off + length bs)) \<rparr>
   | _ \<Rightarrow> s)"

definition os_read :: "int \<Rightarrow> nat \<Rightarrow> 'a os_scheme \<Rightarrow> string \<times> 'a os_scheme" where
  "os_read f n s = (case desc_of f s of
     Some (File nm off) \<Rightarrow>
       (let bs = take n (drop off (case files s nm of None \<Rightarrow> [] | Some c \<Rightarrow> c))
        in (bs, s \<lparr> descs := (descs s)(nat f \<mapsto> File nm (off + length bs)) \<rparr>))
   | _ \<Rightarrow> ([], s))"

definition os_close :: "int \<Rightarrow> 'a os_scheme \<Rightarrow> 'a os_scheme" where
  "os_close f s = (if desc_of f s = None then s else s \<lparr> descs := (descs s)(nat f := None) \<rparr>)"

section \<open>The window\<close>

record editor = os +
  fd :: int
  buf :: buffer
  sub_inwnd :: string
  screen :: string
  running :: bool

datatype key = F1 "nat \<Rightarrow> nat \<Rightarrow> char" string | F2 string | F3 | F4 | Other_Key

definition waddstr :: "string \<Rightarrow> editor \<Rightarrow> editor" where
  "waddstr t s = s \<lparr> sub_inwnd := sub_inwnd s @ t \<rparr>"

definition wrefresh :: "editor \<Rightarrow> editor" where
  "wrefresh s = s \<lparr> screen := sub_inwnd s \<rparr>"

definition wclear :: "editor \<Rightarrow> editor" where
  "wclear s = s \<lparr> sub_inwnd := [] \<rparr>"

section \<open>The editor of one file\<close>

text \<open>\<open>lseek(fd, SEEK_SET, 0)\<close> has its last two arguments swapped; both are 0.\<close>

definition SEEK_SET :: nat where "SEEK_SET = 0"

definition save_func :: "editor \<Rightarrow> editor option" where
  "save_func s = do {
     let s = os_lseek (fd s) SEEK_SET s;
     n \<leftarrow> strlen (buf s);
     let s = os_write (fd s) (take n (buf s)) s;
     Some (os_close (fd s) s)
   }"

definition open_func :: "(nat \<Rightarrow> nat \<Rightarrow> char) \<Rightarrow> string \<Rightarrow> editor \<Rightarrow> editor option" where
  "open_func h line s = do {
     let s = wrefresh s;
     file_name \<leftarrow> wgetstr (fresh_block (h 0) 128) line;
     nm \<leftarrow> cstr file_name;
     let (f, s) = os_open nm s;
     let s = s \<lparr> fd := f \<rparr>;
     s \<leftarrow> (if fd s = -1 then Some (waddstr ''File not found! Try again.'' s)
           else do {
             let (bs, s) = os_read (fd s) 1024 s;
             content \<leftarrow> put_bytes (fresh_block (h 1) 1024) 0 bs;
             shown \<leftarrow> cstr content;
             Some (waddstr shown s)
           });
     Some (wclear (wrefresh s))
   }"

definition write_func :: "string \<Rightarrow> editor \<Rightarrow> editor option" where
  "write_func line s = do {
     let s = wrefresh (wclear s);
     s \<leftarrow> (if fd s \<le> 0 then Some (wrefresh (waddstr ''Open a file to write.'' s))
           else do { b \<leftarrow> wgetstr (buf s) line; Some (s \<lparr> buf := b \<rparr>) });
     Some (wclear s)
   }"

definition quit :: "editor \<Rightarrow> editor" where
  "quit s = (os_close (fd s) s) \<lparr> running := False \<rparr>"

text \<open>One round of the loop of \<open>main\<close>.  Once descriptor 0 is not the terminal, \<open>wgetch\<close>
  fails at once and the loop spins.\<close>

definition editor_round :: "key \<Rightarrow> editor \<Rightarrow> editor option" where
  "editor_round k s =
     (if \<not> running s \<or> descs s 0 \<noteq> Some Terminal then Some s
      else case k of
        F1 h line \<Rightarrow> open_func h line s
      | F2 line \<Rightarrow> write_func line s
      | F3 \<Rightarrow> save_func s
      | F4 \<Rightarrow> Some (quit s)
      | Other_Key \<Rightarrow> Some s)"

definition editor_main :: "(string \<rightharpoonup> string) \<Rightarrow> editor" where
  "editor_main fs =
     \<lparr> files = fs, descs = [0 \<mapsto> Terminal, 1 \<mapsto> Terminal, 2 \<mapsto> Terminal],
       fd = 0, buf = replicate 1024 NUL, sub_inwnd = [], screen = [], running = True \<rparr>"

section \<open>The editor of three files\<close>

text \<open>\<open>file.c\<close> keeps \<open>buf\<close>, \<open>main.c\<close> keeps \<open>fd\<close> and passes it.\<close>

definition save_file :: "int \<Rightarrow> editor \<Rightarrow> editor option" where
  "save_file f s = do {
     let s = os_lseek f SEEK_SET s;
     n \<leftarrow> strlen (buf s);
     let s = os_write f (take n (buf s)) s;
     Some (os_close f s)
   }"

definition open_file :: "(nat \<Rightarrow> nat \<Rightarrow> char) \<Rightarrow> string \<Rightarrow> editor \<Rightarrow> (int \<times> editor) option" where
  "open_file h line s = do {
     file_name \<leftarrow> wgetstr (fresh_block (h 0) 128) line;
     nm \<leftarrow> cstr file_name;
     let (f, s) = os_open nm s;
     (if f = -1 then Some (f, waddstr ''File not found! Try again.'' s)
      else do {
        let (bs, s) = os_read f 1024 s;
        content \<leftarrow> put_bytes (fresh_block (h 1) 1024) 0 bs;
        shown \<leftarrow> cstr content;
        Some (f, waddstr shown s)
      })
   }"

definition write_file :: "string \<Rightarrow> int \<Rightarrow> editor \<Rightarrow> editor option" where
  "write_file line f s = do {
     let s = wrefresh (wclear s);
     s \<leftarrow> (if f \<le> 0 then Some (wrefresh (waddstr ''Open a file to write.'' s))
           else do { b \<leftarrow> wgetstr (buf s) line; Some (s \<lparr> buf := b \<rparr>) });
     Some (wclear s)
   }"

definition create_input_name :: "editor \<Rightarrow> editor" where
  "create_input_name s = wrefresh s"

definition clear_sub_inwnd :: "editor \<Rightarrow> editor" where
  "clear_sub_inwnd s = wclear (wrefresh s)"

definition editor2_round :: "key \<Rightarrow> editor \<Rightarrow> editor option" where
  "editor2_round k s =
     (if \<not> running s \<or> descs s 0 \<noteq> Some Terminal then Some s
      else case k of
        F1 h line \<Rightarrow> do {
          (f, s) \<leftarrow> open_file h line (create_input_name s);
          Some (clear_sub_inwnd (s \<lparr> fd := f \<rparr>))
        }
      | F2 line \<Rightarrow> write_file line (fd s) s
      | F3 \<Rightarrow> save_file (fd s) s
      | F4 \<Rightarrow> Some ((os_close (fd s) s) \<lparr> running := False \<rparr>)
      | Other_Key \<Rightarrow> Some s)"

section \<open>What the operations do\<close>

lemmas window_defs = waddstr_def wrefresh_def wclear_def create_input_name_def clear_sub_inwnd_def
lemmas os_defs = os_open_def os_lseek_def os_write_def os_read_def os_close_def desc_of_def




text \<open>The operations never look at the fields of the window and the editor.\<close>

lemma os_fd [simp]:
  "os_open nm (s \<lparr> fd := f \<rparr>) = (fst (os_open nm s), (snd (os_open nm s)) \<lparr> fd := f \<rparr>)"
  "os_read g n (s \<lparr> fd := f \<rparr>) = (fst (os_read g n s), (snd (os_read g n s)) \<lparr> fd := f \<rparr>)"
  by (auto simp: os_defs Let_def split: option.splits opened.splits)
lemma os_files_frame [simp]:
  "files (os_close f s) = files s" "files (os_lseek f off s) = files s"
  "files (snd (os_read f n s)) = files s" "files (snd (os_open nm s)) = files s"
  by (auto simp: os_defs Let_def split: option.splits opened.splits)

lemma os_editor_frame [simp]:
  fixes s :: editor
  shows "fd (os_close f s) = fd s" "fd (os_lseek f off s) = fd s" "fd (os_write f bs s) = fd s"
    "buf (os_close f s) = buf s" "buf (os_lseek f off s) = buf s" "buf (os_write f bs s) = buf s"
    "buf (snd (os_read f n s)) = buf s" "buf (snd (os_open nm s)) = buf s"
  by (auto simp: os_defs Let_def split: option.splits opened.splits)

text \<open>
  The editor split over three files behaves as the one-file editor: every key in
  every state leads to the same files, descriptors, buffer and screen, or to the same
  undefined behaviour.
\<close>

theorem editor2_equivalent: "editor2_round k s = editor_round k s"
  by (cases k)
    (auto simp: editor2_round_def editor_round_def save_file_def save_func_def open_file_def open_func_def
       write_file_def write_func_def quit_def window_defs Let_def split: prod.splits bind_splits)

section \<open>Invariant of a session\<close>

text \<open>Relative to the files \<open>fs\<close> at the start: none appears, disappears or gets shorter.\<close>

definition editor_inv :: "(string \<rightharpoonup> string) \<Rightarrow> editor \<Rightarrow> bool" where
  "editor_inv fs s \<longleftrightarrow> length (buf s) = 1024 \<and> NUL \<in> set (buf s) \<and>
     (\<forall>n. fs n = None \<longrightarrow> files s n = None) \<and>
     (\<forall>n c. fs n = Some c \<longrightarrow> (\<exists>c'. files s n = Some c' \<and> length c \<le> length c'))"

lemma length_overwrite: "length c \<le> length (overwrite c off bs)"
  by (simp add: overwrite_def)

lemma wgetstr_result:
  assumes "wgetstr b line = Some b'"
  shows "length b' = length b \<and> NUL \<in> set b'"
  using assms by (auto simp: wgetstr_def put_bytes_def split: if_splits)

lemma os_write_files:
  "files (os_write f bs s) n = files s n \<or>
   (\<exists>c off. files s n = Some c \<and> files (os_write f bs s) n = Some (overwrite c off bs))"
  by (cases "files s n") (auto simp: os_defs Let_def split: option.splits opened.splits)

lemma editor_inv_frame:
  "editor_inv fs s \<Longrightarrow> files s' = files s \<Longrightarrow> length (buf s') = 1024 \<Longrightarrow> NUL \<in> set (buf s') \<Longrightarrow> editor_inv fs s'"
  by (simp add: editor_inv_def)

lemma editor_inv_write: "editor_inv fs s \<Longrightarrow> editor_inv fs (os_write f bs s)"
proof -
  assume i: "editor_inv fs s"
  have "files (os_write f bs s) n = None" if "fs n = None" for n
    using os_write_files [of f bs s n] i that by (auto simp: editor_inv_def)
  moreover have "\<exists>c'. files (os_write f bs s) n = Some c' \<and> length c \<le> length c'" if "fs n = Some c" for n c
  proof -
    have "\<exists>c'. files s n = Some c' \<and> length c \<le> length c'"
      using i that by (simp add: editor_inv_def)
    then obtain c' where "files s n = Some c'" "length c \<le> length c'" by blast
    with os_write_files [of f bs s n] length_overwrite show ?thesis by (metis le_trans option.inject)
  qed
  ultimately show ?thesis using i by (simp add: editor_inv_def)
qed

lemma save_func_inv: "editor_inv fs s \<Longrightarrow> save_func s = Some s' \<Longrightarrow> editor_inv fs s'"
proof -
  assume i: "editor_inv fs s" and "save_func s = Some s'"
  then obtain n where s': "s' = os_close (fd s) (os_write (fd s) (take n (buf s)) (os_lseek (fd s) SEEK_SET s))"
    by (auto simp: save_func_def Let_def split: bind_splits)
  have "editor_inv fs (os_lseek (fd s) SEEK_SET s)"
    by (rule editor_inv_frame [OF i]) (use i in \<open>simp_all add: editor_inv_def\<close>)
  from editor_inv_write [OF this] have w: "editor_inv fs (os_write (fd s) (take n (buf s)) (os_lseek (fd s) SEEK_SET s))" .
  show ?thesis unfolding s' by (rule editor_inv_frame [OF w]) (use i in \<open>simp_all add: editor_inv_def\<close>)
qed

lemma open_func_frame:
  "open_func h line s = Some s' \<Longrightarrow> files s' = files s \<and> buf s' = buf s"
  by (auto simp: open_func_def window_defs os_defs Let_def split: bind_splits if_splits option.splits opened.splits)

lemma write_func_frame:
  "write_func line s = Some s' \<Longrightarrow> length (buf s') = length (buf s) \<and> (NUL \<in> set (buf s) \<longrightarrow> NUL \<in> set (buf s')) \<and>
     files s' = files s \<and> descs s' = descs s \<and> fd s' = fd s \<and> running s' = running s"
  by (auto simp: write_func_def window_defs Let_def dest: wgetstr_result split: bind_splits if_splits)

lemma editor_round_inv:
  assumes "editor_inv fs s" "editor_round k s = Some s'"
  shows "editor_inv fs s'"
proof (cases "running s \<and> descs s 0 = Some Terminal")
  case True
  note r = assms(2) [unfolded editor_round_def]
  show ?thesis
  proof (cases k)
    case (F1 h line)
    with r True have "open_func h line s = Some s'" by simp
    from open_func_frame [OF this] show ?thesis using assms(1) by (simp add: editor_inv_def)
  next
    case (F2 line)
    with r True have "write_func line s = Some s'" by simp
    from write_func_frame [OF this] show ?thesis using assms(1) by (auto simp: editor_inv_def)
  next
    case F3
    with r True show ?thesis using save_func_inv [OF assms(1)] by simp
  next
    case F4
    with r True have "s' = quit s" by simp
    then show ?thesis using assms(1) by (simp add: quit_def editor_inv_def)
  next
    case Other_Key
    with r True assms(1) show ?thesis by simp
  qed
qed (use assms in \<open>auto simp: editor_round_def\<close>)

interpretation session: transition_system "\<lambda>s. s = editor_main fs" "\<lambda>s t. \<exists>k. editor_round k s = Some t" "editor_inv fs"
  for fs :: "string \<rightharpoonup> string"
  by unfold_locales (simp add: editor_inv_def editor_main_def, blast intro: editor_round_inv)

section \<open>Opening, writing and saving\<close>

lemma editor_round_key:
  "running s \<Longrightarrow> descs s 0 = Some Terminal \<Longrightarrow> editor_round k s =
     (case k of F1 h line \<Rightarrow> open_func h line s | F2 line \<Rightarrow> write_func line s | F3 \<Rightarrow> save_func s
      | F4 \<Rightarrow> Some (quit s) | Other_Key \<Rightarrow> Some s)"
  by (simp add: editor_round_def)

lemma write_func_result:
  "0 < fd s \<Longrightarrow> length l < length (buf s) \<Longrightarrow>
   write_func l s = Some (s \<lparr> buf := l @ NUL # drop (Suc (length l)) (buf s), sub_inwnd := [], screen := [] \<rparr>)"
  by (simp add: write_func_def wgetstr_def put_bytes_def window_defs)


lemma save_func_closed:
  assumes "desc_of (fd s) s = None" "NUL \<in> set (buf s)"
  shows "save_func s = Some s"
  using assms by (auto simp: save_func_def strlen_def cstr_def os_lseek_def os_write_def os_close_def)

section \<open>Properties\<close>

text \<open>
  No session of keys makes a file appear, disappear or get shorter.
\<close>

theorem editor_keeps_files:
  assumes "fold_opt editor_round ks (editor_main fs) = Some s"
  shows "(files s n = None \<longleftrightarrow> fs n = None) \<and>
    (\<forall>c. fs n = Some c \<longrightarrow> (\<exists>c'. files s n = Some c' \<and> length c \<le> length c'))"
proof -
  have "(\<lambda>s t. \<exists>k. editor_round k s = Some t)\<^sup>*\<^sup>* (editor_main fs) s"
    using assms by (rule fold_opt_steps) blast
  from session.reachable_inv [OF refl this] have "editor_inv fs s" .
  then show ?thesis unfolding editor_inv_def by (metis option.distinct(1) option.exhaust)
qed

theorem editor_keeps_files_witness:
  "\<exists>s. fold_opt editor_round [F4, F3] (editor_main [''f'' \<mapsto> ''text'']) = Some s \<and>
     (\<exists>c'. files s ''f'' = Some c' \<and> 4 \<le> length c')"
proof -
  let ?s = "quit (editor_main [''f'' \<mapsto> ''text''])"
  have "editor_round F4 (editor_main [''f'' \<mapsto> ''text'']) = Some ?s"
    by (rule trans [OF editor_round_key]) (simp_all add: editor_main_def)
  moreover have "editor_round F3 ?s = Some ?s" by (simp add: editor_round_def quit_def)
  ultimately have s: "fold_opt editor_round [F4, F3] (editor_main [''f'' \<mapsto> ''text'']) = Some ?s" by simp
  from editor_keeps_files [OF s, of "''f''"] s show ?thesis by (auto simp: eval_nat_numeral editor_main_def)
qed



text \<open>\<open>closed s0 s\<close>: nothing but \<open>buf\<close> and the window has changed since \<open>s0\<close>.\<close>

definition closed_since :: "editor \<Rightarrow> editor \<Rightarrow> bool" where
  "closed_since s0 s \<longleftrightarrow> running s \<and> descs s = descs s0 \<and> files s = files s0 \<and> fd s = fd s0 \<and>
     length (buf s) = 1024 \<and> NUL \<in> set (buf s)"

lemma closed_round:
  assumes "closed_since s0 s" "descs s0 0 = Some Terminal" "0 < fd s0" "desc_of (fd s0) s0 = None"
  shows "editor_round F3 s = Some s"
    and "length l < 1024 \<Longrightarrow> NUL \<notin> set l \<Longrightarrow>
         \<exists>s'. editor_round (F2 l) s = Some s' \<and> closed_since s0 s' \<and> cstr (buf s') = Some l"
proof -
  have r: "running s" "descs s 0 = Some Terminal" using assms(1,2) by (simp_all add: closed_since_def)
  have "desc_of (fd s) s = None" using assms(1,4) by (auto simp: closed_since_def desc_of_def split: if_splits)
  then show "editor_round F3 s = Some s"
    using assms(1) r save_func_closed [of s] by (simp add: editor_round_key closed_since_def)
  show "\<exists>s'. editor_round (F2 l) s = Some s' \<and> closed_since s0 s' \<and> cstr (buf s') = Some l"
    if "length l < 1024" "NUL \<notin> set l"
    using assms(1,3) r that write_func_result [of s l] by (simp add: editor_round_key closed_since_def)
qed

definition edit_key :: "key \<Rightarrow> bool" where
  "edit_key k = (case k of F2 l \<Rightarrow> length l < 1024 \<and> NUL \<notin> set l | F3 \<Rightarrow> True | _ \<Rightarrow> False)"

lemma closed_rounds:
  assumes "closed_since s0 s" "descs s0 0 = Some Terminal" "0 < fd s0" "desc_of (fd s0) s0 = None" "list_all edit_key ks"
  shows "\<exists>s'. fold_opt editor_round ks s = Some s' \<and> closed_since s0 s'"
  using assms(1,5)
proof (induction ks arbitrary: s)
  case (Cons k ks)
  have "\<exists>u. editor_round k s = Some u \<and> closed_since s0 u"
    using Cons.prems closed_round [OF Cons.prems(1) assms(2-4)] by (cases k) (auto simp: edit_key_def)
  with Cons show ?case by fastforce
qed simp

text \<open>
  After a save the descriptor is closed but \<open>fd\<close> stays positive: until a file is
  opened again every text is still accepted into the buffer, and no number of saves
  writes it to any file.
\<close>

theorem editor_lost_edits:
  assumes "running s" "descs s 0 = Some Terminal" "length (buf s) = 1024" "NUL \<in> set (buf s)"
    and "0 < fd s" "desc_of (fd s) s = None" "list_all edit_key ks" "length l < 1024" "NUL \<notin> set l"
  shows "\<exists>s'. fold_opt editor_round (ks @ [F2 l, F3]) s = Some s' \<and> cstr (buf s') = Some l \<and>
    files s' = files s \<and> descs s' = descs s"
proof -
  have "closed_since s s" using assms(1-4) by (simp add: closed_since_def)
  from closed_rounds [OF this assms(2,5-7)] obtain u where
    u: "fold_opt editor_round ks s = Some u" "closed_since s u" by blast
  from closed_round(2) [OF u(2) assms(2,5,6,8,9)] obtain v where
    v: "editor_round (F2 l) u = Some v" "closed_since s v" "cstr (buf v) = Some l" by blast
  from closed_round(1) [OF v(2) assms(2,5,6)] have "editor_round F3 v = Some v" .
  with u v show ?thesis by (auto simp: fold_opt_append closed_since_def)
qed

theorem editor_lost_edits_witness:
  "\<exists>s'. fold_opt editor_round [F3, F2 ''lost'', F3] ((editor_main [''f'' \<mapsto> ''old'']) \<lparr> fd := 3 \<rparr>) = Some s' \<and>
     cstr (buf s') = Some ''lost'' \<and> files s' ''f'' = Some ''old''"
proof -
  let ?s = "(editor_main [''f'' \<mapsto> ''old'']) \<lparr> fd := 3 \<rparr>"
  have "\<exists>s'. fold_opt editor_round ([F3] @ [F2 ''lost'', F3]) ?s = Some s' \<and> cstr (buf s') = Some ''lost'' \<and>
    files s' = files ?s \<and> descs s' = descs ?s"
    by (rule editor_lost_edits) (simp_all add: editor_main_def desc_of_def edit_key_def)
  then show ?thesis by (auto simp: editor_main_def)
qed

text \<open>
  Saving before anything has been opened closes descriptor 0, the terminal: from
  then on no key reaches the editor, not even the one to quit, and its loop never ends.
\<close>

theorem editor_deaf:
  "\<exists>s. editor_round F3 (editor_main fs) = Some s \<and> running s \<and> files s = fs \<and>
     (\<forall>ks. fold_opt editor_round ks s = Some s)"
proof -
  let ?s = "(editor_main fs) \<lparr> descs := [1 \<mapsto> Terminal, 2 \<mapsto> Terminal] \<rparr>"
  have r: "save_func (editor_main fs) = Some ?s"
    by (simp add: save_func_def editor_main_def os_defs strlen_def fun_upd_twist fun_upd_idem)
  have "editor_round k ?s = Some ?s" for k by (simp add: editor_round_def)
  then have "fold_opt editor_round ks ?s = Some ?s" for ks by (induction ks) simp_all
  moreover have "editor_round F3 (editor_main fs) = Some ?s"
    using r by (simp add: editor_round_def) (simp add: editor_main_def)
  ultimately show ?thesis by (auto simp: editor_main_def)
qed

end
