(* ===== verification/Windows.thy ===== *)
theory Windows
  imports Prelude
begin

text \<open>
  The windows of the four curses programs, \<open>text_editor/\<close>, \<open>text_editor2/\<close>, \<open>chat/\<close> and
  \<open>chat 2/\<close>: which windows exist and which calls use them.  What is written
  in a window is not modelled here.  Of curses is used what its manual promises: \<open>derwin\<close>
  needs a window inside its parent, \<open>delwin\<close> a window without subwindows, and no call may use
  a window that was deleted.
\<close>

section \<open>Curses\<close>

record win =
  rows :: nat
  cols :: nat
  top :: nat
  left :: nat
  parent :: "nat option"

text \<open>A \<open>WINDOW *\<close> is the number of its creation; a deleted window leaves \<open>None\<close>.\<close>

type_synonym desk = "win option list"

definition win_at :: "desk \<Rightarrow> nat \<Rightarrow> win option" where
  "win_at d p = (if p < length d then d ! p else None)"

definition newwin :: "nat \<Rightarrow> nat \<Rightarrow> nat \<Rightarrow> nat \<Rightarrow> desk \<Rightarrow> nat \<times> desk" where
  "newwin h w y x d = (length d, d @ [Some \<lparr> rows = h, cols = w, top = y, left = x, parent = None \<rparr>])"

definition derwin :: "nat \<Rightarrow> nat \<Rightarrow> nat \<Rightarrow> nat \<Rightarrow> nat \<Rightarrow> desk \<Rightarrow> (nat \<times> desk) option" where
  "derwin p h w y x d = do {
     v \<leftarrow> win_at d p;
     (if y + h \<le> rows v \<and> x + w \<le> cols v
      then Some (length d, d @ [Some \<lparr> rows = h, cols = w, top = top v + y, left = left v + x, parent = Some p \<rparr>])
      else None)
   }"

definition delwin :: "nat \<Rightarrow> desk \<Rightarrow> desk option" where
  "delwin p d = (if win_at d p = None \<or> list_ex (\<lambda>v. Option.bind v parent = Some p) d then None else Some (d[p := None]))"

text \<open>\<open>wattron\<close>, \<open>box\<close>, \<open>wprintw\<close>, \<open>wgetstr\<close>, \<open>wclear\<close>, \<open>wrefresh\<close> and the like: the windows
  they are called on.\<close>

definition draw :: "nat list \<Rightarrow> desk \<Rightarrow> desk option" where
  "draw ps d = (if list_all (\<lambda>p. win_at d p \<noteq> None) ps then Some d else None)"

definition live :: "desk \<Rightarrow> nat set" where
  "live d = {p. win_at d p \<noteq> None}"

section \<open>The editors\<close>

record editor_windows =
  desk :: desk
  inwnd :: nat
  sub_inwnd :: nat
  mwnd :: nat

definition editor_setup :: "editor_windows option" where
  "editor_setup = do {
     let (inwnd, d) = newwin 20 80 0 0 [];
     d \<leftarrow> draw [inwnd, inwnd, inwnd, inwnd] d;
     (sub_inwnd, d) \<leftarrow> derwin inwnd 18 78 1 1 d;
     let (mwnd, d) = newwin 5 60 20 2 d;
     d \<leftarrow> draw [mwnd, mwnd, mwnd, mwnd] d;
     Some \<lparr> desk = d, inwnd = inwnd, sub_inwnd = sub_inwnd, mwnd = mwnd \<rparr>
   }"

text \<open>The prompt for the file name, from \<open>newwin\<close> to \<open>delwin\<close>, between uses of \<open>sub_inwnd\<close>.\<close>

definition open_windows :: "editor_windows \<Rightarrow> editor_windows option" where
  "open_windows e = do {
     d \<leftarrow> draw [sub_inwnd e] (desk e);
     let (input_name, d) = newwin 6 45 12 20 d;
     d \<leftarrow> draw [input_name, input_name, input_name, input_name, input_name, input_name] d;
     d \<leftarrow> delwin input_name d;
     d \<leftarrow> draw [sub_inwnd e, sub_inwnd e, sub_inwnd e] d;
     Some (e \<lparr> desk := d \<rparr>)
   }"

definition write_windows :: "editor_windows \<Rightarrow> editor_windows option" where
  "write_windows e = do { d \<leftarrow> draw [sub_inwnd e, sub_inwnd e, sub_inwnd e, sub_inwnd e] (desk e); Some (e \<lparr> desk := d \<rparr>) }"

definition quit_windows :: "editor_windows \<Rightarrow> editor_windows option" where
  "quit_windows e = do {
     d \<leftarrow> delwin (sub_inwnd e) (desk e);
     d \<leftarrow> delwin (inwnd e) d;
     d \<leftarrow> delwin (mwnd e) d;
     Some (e \<lparr> desk := d \<rparr>)
   }"

datatype editor_key = Open | Write | Save

definition editor_key :: "editor_key \<Rightarrow> editor_windows \<Rightarrow> editor_windows option" where
  "editor_key k e = do {
     d \<leftarrow> draw [mwnd e, mwnd e] (desk e);
     (case k of Open \<Rightarrow> open_windows | Write \<Rightarrow> write_windows | Save \<Rightarrow> Some) (e \<lparr> desk := d \<rparr>)
   }"

text \<open>A whole run: the keys up to F4, and F4.\<close>

definition editor_run :: "editor_key list \<Rightarrow> editor_windows option" where
  "editor_run ks = do { e \<leftarrow> editor_setup; e \<leftarrow> fold_opt editor_key ks e; quit_windows e }"

text \<open>The second editor: \<open>graphics.c\<close> and the calls of \<open>main.c\<close> and \<open>file.c\<close>.\<close>

definition create_inwnd :: "desk \<Rightarrow> (nat \<times> desk) option" where
  "create_inwnd d = do { let (w, d) = newwin 20 80 0 0 d; d \<leftarrow> draw [w, w, w, w] d; Some (w, d) }"

definition create_subinwnd :: "nat \<Rightarrow> desk \<Rightarrow> (nat \<times> desk) option" where
  "create_subinwnd w d = derwin w 18 78 1 1 d"

definition create_mwnd :: "desk \<Rightarrow> (nat \<times> desk) option" where
  "create_mwnd d = do { let (w, d) = newwin 5 60 20 2 d; d \<leftarrow> draw [w, w, w, w] d; Some (w, d) }"

definition create_input_name :: "nat \<Rightarrow> desk \<Rightarrow> (nat \<times> desk) option" where
  "create_input_name sub d = do {
     d \<leftarrow> draw [sub] d;
     let (w, d) = newwin 6 45 12 20 d;
     d \<leftarrow> draw [w, w] d;
     Some (w, d)
   }"

definition clear_sub_inwnd :: "nat \<Rightarrow> desk \<Rightarrow> desk option" where
  "clear_sub_inwnd sub d = draw [sub, sub] d"

definition open_file_windows :: "nat \<Rightarrow> nat \<Rightarrow> desk \<Rightarrow> desk option" where
  "open_file_windows input_name sub d = do {
     d \<leftarrow> draw [input_name, input_name, input_name, input_name] d;
     d \<leftarrow> delwin input_name d;
     draw [sub] d
   }"

definition editor2_setup :: "editor_windows option" where
  "editor2_setup = do {
     (inwnd, d) \<leftarrow> create_inwnd [];
     (sub_inwnd, d) \<leftarrow> create_subinwnd inwnd d;
     (mwnd, d) \<leftarrow> create_mwnd d;
     Some \<lparr> desk = d, inwnd = inwnd, sub_inwnd = sub_inwnd, mwnd = mwnd \<rparr>
   }"

definition editor2_key :: "editor_key \<Rightarrow> editor_windows \<Rightarrow> editor_windows option" where
  "editor2_key k e = do {
     d \<leftarrow> draw [mwnd e, mwnd e] (desk e);
     d \<leftarrow> (case k of
         Open \<Rightarrow> do {
           (input_name, d) \<leftarrow> create_input_name (sub_inwnd e) d;
           d \<leftarrow> open_file_windows input_name (sub_inwnd e) d;
           clear_sub_inwnd (sub_inwnd e) d
         }
       | Write \<Rightarrow> draw [sub_inwnd e, sub_inwnd e, sub_inwnd e, sub_inwnd e] d
       | Save \<Rightarrow> Some d);
     Some (e \<lparr> desk := d \<rparr>)
   }"

definition editor2_run :: "editor_key list \<Rightarrow> editor_windows option" where
  "editor2_run ks = do { e \<leftarrow> editor2_setup; e \<leftarrow> fold_opt editor2_key ks e; quit_windows e }"

section \<open>The chats\<close>

record chat_windows =
  chat_desk :: desk
  chat_win :: nat
  sub_chat_win :: nat
  users_win :: nat
  sub_users_win :: nat
  input_win :: nat
  input_message :: "nat option"

text \<open>The prompt of \<open>send_name\<close>.\<close>

definition ask_name :: "desk \<Rightarrow> desk option" where
  "ask_name d = do {
     let (input_name, d) = newwin 6 45 12 20 d;
     d \<leftarrow> draw [input_name, input_name, input_name, input_name] d;
     delwin input_name d
   }"

definition graphics :: "desk \<Rightarrow> chat_windows option" where
  "graphics d = do {
     let (chat_win, d) = newwin 25 60 0 0 d;
     d \<leftarrow> draw [chat_win, chat_win] d;
     (sub_chat_win, d) \<leftarrow> derwin chat_win 23 58 1 1 d;
     d \<leftarrow> draw [sub_chat_win] d;
     let (users_win, d) = newwin 25 25 0 62 d;
     d \<leftarrow> draw [users_win, users_win] d;
     (sub_users_win, d) \<leftarrow> derwin users_win 23 23 1 1 d;
     d \<leftarrow> draw [sub_users_win] d;
     let (input_win, d) = newwin 1 35 26 58 d;
     d \<leftarrow> draw [input_win, input_win] d;
     Some \<lparr> chat_desk = d, chat_win = chat_win, sub_chat_win = sub_chat_win, users_win = users_win,
       sub_users_win = sub_users_win, input_win = input_win, input_message = None \<rparr>
   }"

text \<open>The windows of the first chat, which its \<open>main\<close> makes.\<close>

definition client_windows :: "desk \<Rightarrow> chat_windows option" where
  "client_windows d = do {
     let (chat, d) = newwin 25 60 0 0 d;
     d \<leftarrow> draw [chat] d;
     d \<leftarrow> draw [chat] d;
     (sub_chat, d) \<leftarrow> derwin chat 23 58 1 1 d;
     d \<leftarrow> draw [sub_chat] d;
     let (users, d) = newwin 25 25 0 62 d;
     d \<leftarrow> draw [users] d;
     d \<leftarrow> draw [users] d;
     (sub_users, d) \<leftarrow> derwin users 23 23 1 1 d;
     d \<leftarrow> draw [sub_users] d;
     let (input, d) = newwin 1 35 26 58 d;
     d \<leftarrow> draw [input] d;
     d \<leftarrow> draw [input] d;
     Some \<lparr> chat_desk = d, chat_win = chat, sub_chat_win = sub_chat, users_win = users,
       sub_users_win = sub_users, input_win = input, input_message = None \<rparr>
   }"

text \<open>F1 opens the window for a message and waits in \<open>wgetstr\<close>, during which the two threads
  go on; the line ends it.\<close>

datatype chat_event = Message_Key | Line_Typed | Names_Shown | Chat_Shown

definition begin_message :: "chat_windows \<Rightarrow> chat_windows option" where
  "begin_message c = do {
     d \<leftarrow> draw [input_win c, input_win c] (chat_desk c);
     let (w, d) = newwin 10 60 26 1 d;
     d \<leftarrow> draw [w, w] d;
     Some (c \<lparr> chat_desk := d, input_message := Some w \<rparr>)
   }"

definition end_message :: "chat_windows \<Rightarrow> chat_windows option" where
  "end_message c = do {
     w \<leftarrow> input_message c;
     d \<leftarrow> draw [w, w, sub_chat_win c, users_win c, sub_users_win c, input_win c] (chat_desk c);
     d \<leftarrow> delwin w d;
     Some (c \<lparr> chat_desk := d, input_message := None \<rparr>)
   }"

text \<open>The second chat clears and refreshes the window, refreshes the others, and deletes it.\<close>

definition end_message2 :: "chat_windows \<Rightarrow> chat_windows option" where
  "end_message2 c = do {
     w \<leftarrow> input_message c;
     d \<leftarrow> draw [w, w] (chat_desk c);
     d \<leftarrow> draw [sub_chat_win c] d;
     d \<leftarrow> draw [users_win c] d;
     d \<leftarrow> draw [sub_users_win c] d;
     d \<leftarrow> draw [input_win c] d;
     d \<leftarrow> delwin w d;
     Some (c \<lparr> chat_desk := d, input_message := None \<rparr>)
   }"

text \<open>The threads of the first chat and of the second.\<close>

definition names_shown :: "chat_windows \<Rightarrow> nat list" where
  "names_shown c = [sub_users_win c, sub_users_win c, sub_users_win c]"

definition names_shown2 :: "chat_windows \<Rightarrow> nat list" where
  "names_shown2 c = [sub_users_win c, sub_users_win c, sub_users_win c, users_win c]"

definition chat_shown :: "chat_windows \<Rightarrow> nat list" where
  "chat_shown c = [sub_chat_win c, sub_chat_win c, sub_chat_win c, sub_chat_win c, users_win c, input_win c]"

text \<open>What the two clients have in common, and their runs.\<close>

definition chat_event ::
  "(chat_windows \<Rightarrow> nat list) \<Rightarrow> (chat_windows \<Rightarrow> chat_windows option) \<Rightarrow> chat_event \<Rightarrow> chat_windows \<Rightarrow> chat_windows option" where
  "chat_event names finish e c = (case e of
       Message_Key \<Rightarrow> (if input_message c = None then begin_message c else Some c)
     | Line_Typed \<Rightarrow> (if input_message c = None then Some c else finish c)
     | Names_Shown \<Rightarrow> do { d \<leftarrow> draw (names c) (chat_desk c); Some (c \<lparr> chat_desk := d \<rparr>) }
     | Chat_Shown \<Rightarrow> do { d \<leftarrow> draw (chat_shown c) (chat_desk c); Some (c \<lparr> chat_desk := d \<rparr>) })"

definition chat_run :: "chat_event list \<Rightarrow> chat_windows option" where
  "chat_run es = do { d \<leftarrow> ask_name []; c \<leftarrow> client_windows d; fold_opt (chat_event names_shown end_message) es c }"

definition chat2_run :: "chat_event list \<Rightarrow> chat_windows option" where
  "chat2_run es = do { d \<leftarrow> ask_name []; c \<leftarrow> graphics d; fold_opt (chat_event names_shown2 end_message2) es c }"

section \<open>Safety\<close>

text \<open>Deleted windows stay as empty places at the end of the table.\<close>

lemma win_at_append: "win_at (d @ d') p = (if p < length d then win_at d p else win_at d' (p - length d))"
  by (auto simp: win_at_def nth_append)

lemma win_at_gone [simp]: "win_at (replicate n None) p = None"
  by (simp add: win_at_def)

lemma draw_iff: "draw ps d = Some d' \<longleftrightarrow> d' = d \<and> (\<forall>p \<in> set ps. win_at d p \<noteq> None)"
  by (auto simp: draw_def list_all_iff)

lemma live_append: "live (d @ replicate n None) = live d"
  by (auto simp: live_def win_at_append) (simp add: win_at_def split: if_splits)

lemmas curses = newwin_def derwin_def draw_def delwin_def Let_def

definition plain_win :: "nat \<Rightarrow> nat \<Rightarrow> nat \<Rightarrow> nat \<Rightarrow> win option" where
  "plain_win h w y x = Some \<lparr> rows = h, cols = w, top = y, left = x, parent = None \<rparr>"

definition editor_base :: desk where
  "editor_base = [plain_win 20 80 0 0, Some \<lparr> rows = 18, cols = 78, top = 1, left = 1, parent = Some 0 \<rparr>, plain_win 5 60 20 2]"

definition editor_at :: "nat \<Rightarrow> editor_windows" where
  "editor_at n = \<lparr> desk = editor_base @ replicate n None, inwnd = 0, sub_inwnd = 1, mwnd = 2 \<rparr>"

lemma editor_setups: "editor_setup = Some (editor_at 0)" "editor2_setup = Some (editor_at 0)"
  by code_simp+

lemma no_parent [simp]: "\<not> list_ex (\<lambda>v. Option.bind v parent = Some p) (replicate n None)"
  by (induction n) simp_all

lemma editor_keys:
  "editor_key Open (editor_at n) = Some (editor_at (Suc n))" "editor2_key Open (editor_at n) = Some (editor_at (Suc n))"
  "editor_key Write (editor_at n) = Some (editor_at n)" "editor2_key Write (editor_at n) = Some (editor_at n)"
  "editor_key Save (editor_at n) = Some (editor_at n)" "editor2_key Save (editor_at n) = Some (editor_at n)"
  by (simp_all add: editor_key_def editor2_key_def editor_at_def open_windows_def write_windows_def create_input_name_def
      open_file_windows_def clear_sub_inwnd_def curses win_at_append editor_base_def plain_win_def win_at_def nth_append
      list_update_append replicate_append_same)

lemma editor_session:
  "fold_opt editor_key ks (editor_at n) = Some (editor_at (n + length (filter ((=) Open) ks)))"
  "fold_opt editor2_key ks (editor_at n) = fold_opt editor_key ks (editor_at n)"
proof (induction ks arbitrary: n)
  case (Cons k ks)
  { case 1 then show ?case using Cons.IH by (cases k) (simp_all add: editor_keys) }
  { case 2 then show ?case using Cons.IH by (cases k) (simp_all add: editor_keys) }
qed simp_all

lemma editor_quit:
  "quit_windows (editor_at n) = Some \<lparr> desk = replicate (3 + n) None, inwnd = 0, sub_inwnd = 1, mwnd = 2 \<rparr>"
  by (simp add: quit_windows_def editor_at_def curses editor_base_def plain_win_def win_at_def numeral_3_eq_3 numeral_2_eq_2)

definition chat_base :: desk where
  "chat_base = [None, plain_win 25 60 0 0, Some \<lparr> rows = 23, cols = 58, top = 1, left = 1, parent = Some 1 \<rparr>,
     plain_win 25 25 0 62, Some \<lparr> rows = 23, cols = 23, top = 1, left = 63, parent = Some 3 \<rparr>, plain_win 1 35 26 58]"

definition chat_at :: "nat \<Rightarrow> bool \<Rightarrow> chat_windows" where
  "chat_at n typing = \<lparr> chat_desk = chat_base @ replicate n None @ (if typing then [plain_win 10 60 26 1] else []),
     chat_win = 1, sub_chat_win = 2, users_win = 3, sub_users_win = 4, input_win = 5,
     input_message = (if typing then Some (6 + n) else None) \<rparr>"

lemma chat_started: "do { d \<leftarrow> ask_name []; graphics d } = Some (chat_at 0 False)"
  by code_simp

lemma length_chat_base: "length chat_base = 6"
  by (simp add: chat_base_def)

lemma win_at_chat:
  "win_at (chat_desk (chat_at n b)) p =
    (if p < 6 then chat_base ! p else if b \<and> p = 6 + n then plain_win 10 60 26 1 else None)"
  using length_chat_base by (auto simp: chat_at_def win_at_append) (auto simp: win_at_def)

lemma chat_base_windows: "p < 6 \<Longrightarrow> chat_base ! p \<noteq> None \<longleftrightarrow> p \<noteq> 0"
proof -
  have "\<forall>p < 6. chat_base ! p \<noteq> None \<longleftrightarrow> p \<noteq> 0" by code_simp
  then show "p < 6 \<Longrightarrow> chat_base ! p \<noteq> None \<longleftrightarrow> p \<noteq> 0" by blast
qed

lemma chat_live: "live (chat_desk (chat_at n b)) = {1, 2, 3, 4, 5} \<union> (if b then {6 + n} else {})"
  using chat_base_windows by (auto simp: live_def win_at_chat plain_win_def split: if_splits) 

lemma chat_draw: "\<forall>p \<in> set ps. p \<in> {1, 2, 3, 4, 5} \<Longrightarrow> draw ps (chat_desk (chat_at n b)) = Some (chat_desk (chat_at n b))"
  using chat_live [of n b] by (auto simp: draw_iff live_def)

lemma chat_fields [simp]:
  "chat_win (chat_at n b) = 1" "sub_chat_win (chat_at n b) = 2" "users_win (chat_at n b) = 3" "sub_users_win (chat_at n b) = 4"
  "input_win (chat_at n b) = 5" "input_message (chat_at n b) = (if b then Some (6 + n) else None)"
  by (simp_all add: chat_at_def)

lemma begin_message_at: "begin_message (chat_at n False) = Some (chat_at n True)"
proof -
  have "draw [6 + n, 6 + n] (chat_desk (chat_at n True)) = Some (chat_desk (chat_at n True))"
    using chat_live [of n True] by (auto simp: draw_iff live_def)
  then show ?thesis 
    by (simp add: begin_message_def chat_draw) (simp add: chat_at_def newwin_def length_chat_base plain_win_def)
qed

lemma end_message_at: "end_message (chat_at n True) = Some (chat_at (Suc n) False)"
proof -
  let ?d = "chat_desk (chat_at n True)"
  have "draw [6 + n, 6 + n, 2, 3, 4, 5] ?d = Some ?d"
    using chat_live [of n True] by (auto simp: draw_iff live_def)
  moreover have "delwin (6 + n) ?d = Some (chat_desk (chat_at (Suc n) False))"
  proof -
    have "win_at ?d (6 + n) \<noteq> None" using chat_live [of n True] by (auto simp: live_def)
    moreover have "\<not> list_ex (\<lambda>v. Option.bind v parent = Some (6 + n)) ?d"
      by (simp add: chat_at_def chat_base_def plain_win_def)
    moreover have "?d[6 + n := None] = chat_desk (chat_at (Suc n) False)"
      by (simp add: chat_at_def list_update_append length_chat_base replicate_append_same)
    ultimately show ?thesis by (simp add: delwin_def)
  qed
  ultimately show ?thesis by (simp add: end_message_def chat_at_def)
qed

lemma chat_events:
  assumes "set (names (chat_at n b)) \<subseteq> {1, 2, 3, 4, 5}" "finish = end_message"
  shows "\<exists>m b'. chat_event names finish e (chat_at n b) = Some (chat_at m b')"
proof (cases e)
  case Message_Key
  then show ?thesis using begin_message_at [of n] by (cases b) (auto simp: chat_event_def)
next
  case Line_Typed
  then show ?thesis using end_message_at [of n] by (cases b) (auto simp: chat_event_def assms(2))
next
  case Names_Shown
  have "draw (names (chat_at n b)) (chat_desk (chat_at n b)) = Some (chat_desk (chat_at n b))"
    using assms(1) by (intro chat_draw) blast
  then show ?thesis using Names_Shown by (auto simp: chat_event_def)
next
  case Chat_Shown
  have "draw (chat_shown (chat_at n b)) (chat_desk (chat_at n b)) = Some (chat_desk (chat_at n b))"
    by (intro chat_draw) (simp add: chat_shown_def)
  then show ?thesis using Chat_Shown by (auto simp: chat_event_def)
qed

lemma chat_session:
  assumes "\<And>n b. set (names (chat_at n b)) \<subseteq> {1, 2, 3, 4, 5}" "finish = end_message"
  shows "\<exists>m b'. fold_opt (chat_event names finish) es (chat_at n b) = Some (chat_at m b')"
proof (induction es arbitrary: n b)
  case (Cons e es)
  then show ?case using chat_events [of names n b finish e, OF assms] by fastforce
qed auto

lemma draw_append: "draw (ps @ qs) d = do { d \<leftarrow> draw ps d; draw qs d }"
  by (simp add: draw_def)

lemma draw_twice: "draw [p, p] d = do { d \<leftarrow> draw [p] d; draw [p] d }"
  using draw_append [of "[p]" "[p]" d] by simp

text \<open>The two chats do the same to their windows.\<close>

lemma client_windows_graphics: "client_windows d = graphics d"
  by (simp add: client_windows_def graphics_def draw_twice case_prod_beta')

lemma end_message2_same: "end_message2 c = end_message c"
proof -
  have "draw [w, w, a, b, e, f] d = do { d \<leftarrow> draw [w, w] d; d \<leftarrow> draw [a] d; d \<leftarrow> draw [b] d; d \<leftarrow> draw [e] d; draw [f] d }"
    for w a b e f d by (simp add: draw_def)
  then show ?thesis by (simp add: end_message2_def end_message_def)
qed

lemma chat_runs: "\<exists>m b. chat_run es = Some (chat_at m b)" "\<exists>m b. chat2_run es = Some (chat_at m b)"
proof -
  have "chat_run es = fold_opt (chat_event names_shown end_message) es (chat_at 0 False)"
    "chat2_run es = fold_opt (chat_event names_shown2 end_message2) es (chat_at 0 False)"
    using chat_started by (auto simp: chat_run_def chat2_run_def client_windows_graphics split: bind_splits)
  moreover have "end_message2 = end_message" by (rule ext) (rule end_message2_same)
  ultimately show "\<exists>m b. chat_run es = Some (chat_at m b)" "\<exists>m b. chat2_run es = Some (chat_at m b)"
    using chat_session [of names_shown end_message es 0 False] chat_session [of names_shown2 end_message2 es 0 False]
    by (simp_all add: names_shown_def names_shown2_def)
qed

text \<open>
  C24.  No curses program ever uses a deleted window or one it has not created: every run of an
  editor ends with all its windows deleted, each before its parent, and the two editors make
  the same windows; every run of a chat client, with its threads in any order, keeps exactly
  its five windows and the one in which a message is being typed.
\<close>

theorem windows_safe:
  "editor2_run ks = editor_run ks \<and> (\<exists>e. editor_run ks = Some e \<and> live (desk e) = {}) \<and>
   (\<exists>c. chat_run es = Some c \<and>
      live (chat_desk c) = {chat_win c, sub_chat_win c, users_win c, sub_users_win c, input_win c} \<union> set_option (input_message c)) \<and>
   (\<exists>c. chat2_run es = Some c \<and>
      live (chat_desk c) = {chat_win c, sub_chat_win c, users_win c, sub_users_win c, input_win c} \<union> set_option (input_message c))"
proof -
  let ?n = "length (filter ((=) Open) ks)"
  have "editor_run ks = quit_windows (editor_at ?n)" "editor2_run ks = quit_windows (editor_at ?n)"
    by (simp_all add: editor_run_def editor2_run_def editor_setups editor_session)
  moreover have "live (replicate n None) = {}" for n by (simp add: live_def)
  moreover have "live (chat_desk (chat_at n b)) = {chat_win (chat_at n b), sub_chat_win (chat_at n b), users_win (chat_at n b),
      sub_users_win (chat_at n b), input_win (chat_at n b)} \<union> set_option (input_message (chat_at n b))" for n b
    by (auto simp: chat_live)
  ultimately show ?thesis using chat_runs [of es] by (fastforce simp: editor_quit)
qed

end
