(* ===== verification/Calculator.thy ===== *)
theory Calculator
  imports Stdio
begin

text \<open>
  The calculators of \<open>calculator/static\<close> (four functions linked from a library) and
  \<open>calculator/dynamic\<close> (a menu built from the plugins of a directory), and the four
  plugins.  Floating-point numbers are a parameter: their operations, what \<open>%lf\<close> reads
  and what \<open>%.nlf\<close> prints.  So are the contents of the directory at each \<open>opendir\<close>, what
  \<open>dlopen\<close> finds at a path, and the size \<open>usable n\<close> of the block that \<open>malloc(n)\<close>
  really hands out, with its old contents \<open>g i\<close>.  C promises only that \<open>usable n\<close> is at least
  \<open>n\<close>; nothing here assumes that it is more.
\<close>

record 'd floats =
  fadd :: "'d \<Rightarrow> 'd \<Rightarrow> 'd"
  fsub :: "'d \<Rightarrow> 'd \<Rightarrow> 'd"
  fmul :: "'d \<Rightarrow> 'd \<Rightarrow> 'd"
  fdiv :: "'d \<Rightarrow> 'd \<Rightarrow> 'd"
  scan_lf :: "string \<Rightarrow> 'd option \<times> string"
  show_lf :: "nat \<Rightarrow> 'd \<Rightarrow> string"

section \<open>The library of the static calculator\<close>

definition add :: "'d floats \<Rightarrow> 'd \<Rightarrow> 'd \<Rightarrow> 'd" where "add F x y = fadd F x y"
definition sub :: "'d floats \<Rightarrow> 'd \<Rightarrow> 'd \<Rightarrow> 'd" where "sub F x y = fsub F x y"
definition mul :: "'d floats \<Rightarrow> 'd \<Rightarrow> 'd \<Rightarrow> 'd" where "mul F x y = fmul F x y"
definition divi :: "'d floats \<Rightarrow> 'd \<Rightarrow> 'd \<Rightarrow> 'd" where "divi F x y = fdiv F x y"

section \<open>The static calculator\<close>

text \<open>The variables of \<open>main\<close> are uninitialised (\<open>None\<close>) until a conversion succeeds; a
  failed conversion leaves them alone.\<close>

record 'd static_calc =
  menu_item :: "int option"
  opa :: "'d option"
  opb :: "'d option"
  calc_in :: string

datatype calc_out = Result string | Bad_Item | Exit

definition keep_old :: "'a option \<Rightarrow> 'a option \<Rightarrow> 'a option" where
  "keep_old r old = (case r of None \<Rightarrow> old | Some x \<Rightarrow> Some x)"

definition two_operands ::
  "'d floats \<Rightarrow> 'd option \<times> 'd option \<Rightarrow> string \<Rightarrow> ('d \<times> 'd \<times> string) option" where
  "two_operands F = (\<lambda>(a, b) inp. do {
     let (r, in1) = scan_lf F inp;
     let (r', in2) = scan_lf F in1;
     x \<leftarrow> keep_old r a;
     y \<leftarrow> keep_old r' b;
     Some (x, y, in2)
   })"

definition static_op ::
  "'d floats \<Rightarrow> ('d floats \<Rightarrow> 'd \<Rightarrow> 'd \<Rightarrow> 'd) \<Rightarrow> 'd static_calc \<Rightarrow> (calc_out \<times> 'd static_calc) option" where
  "static_op F f s = do {
     (x, y, rest) \<leftarrow> two_operands F (opa s, opb s) (calc_in s);
     Some (Result (show_lf F 4 (f F x y)), s \<lparr> opa := Some x, opb := Some y, calc_in := rest \<rparr>)
   }"

definition static_round :: "'d floats \<Rightarrow> 'd static_calc \<Rightarrow> (calc_out \<times> 'd static_calc) option" where
  "static_round F s = do {
     (r, in1) \<leftarrow> scanf_d (calc_in s);
     let s = s \<lparr> menu_item := keep_old r (menu_item s), calc_in := in1 \<rparr>;
     i \<leftarrow> menu_item s;
     (if i = 1 then static_op F add s
      else if i = 2 then static_op F sub s
      else if i = 3 then static_op F mul s
      else if i = 4 then static_op F divi s
      else if i = 0 then Some (Exit, s)
      else Some (Bad_Item, s))
   }"

definition static_main :: "string \<Rightarrow> 'd static_calc" where
  "static_main inp = \<lparr> menu_item = None, opa = None, opb = None, calc_in = inp \<rparr>"

section \<open>The plugins\<close>

text \<open>A plugin's function reads from the standard input and prints.\<close>

type_synonym plugin_fun = "string \<Rightarrow> (string \<times> string) option"

record plugin =
  func_name :: string
  description :: string
  symbols :: "string \<rightharpoonup> plugin_fun"

definition plugin_body :: "'d floats \<Rightarrow> ('d \<Rightarrow> 'd \<Rightarrow> 'd) \<Rightarrow> plugin_fun" where
  "plugin_body F f inp = do {
     (x, y, rest) \<leftarrow> two_operands F (None, None) inp;
     Some (''Result: '' @ show_lf F 2 (f x y), rest)
   }"

definition lib_add :: "'d floats \<Rightarrow> plugin" where
  "lib_add F = \<lparr> func_name = ''add'', description = ''Addition'', symbols = [''add'' \<mapsto> plugin_body F (fadd F)] \<rparr>"

definition lib_sub :: "'d floats \<Rightarrow> plugin" where
  "lib_sub F = \<lparr> func_name = ''sub'', description = ''Subtraction'', symbols = [''sub'' \<mapsto> plugin_body F (fsub F)] \<rparr>"

definition lib_mul :: "'d floats \<Rightarrow> plugin" where
  "lib_mul F = \<lparr> func_name = ''mul'', description = ''Multiplication'', symbols = [''mul'' \<mapsto> plugin_body F (fmul F)] \<rparr>"

definition lib_divi :: "'d floats \<Rightarrow> plugin" where
  "lib_divi F = \<lparr> func_name = ''divi'', description = ''Division'', symbols = [''divi'' \<mapsto> plugin_body F (fdiv F)] \<rparr>"

section \<open>The dynamic calculator\<close>

abbreviation dot :: char where "dot \<equiv> CHR ''.''"

definition plugins_dir :: string where "plugins_dir = ''./plugins/''"

definition hidden :: "string \<Rightarrow> bool" where
  "hidden d_name \<longleftrightarrow> (d_name @ [NUL]) ! 0 = dot"

fun count_items :: "string list \<Rightarrow> nat" where
  "count_items [] = 0"
| "count_items (ad # ads) = (if hidden ad then count_items ads else Suc (count_items ads))"

text \<open>The path is put together in an uninitialised block, one byte too small for it.\<close>

definition plugin_path :: "(nat \<Rightarrow> nat) \<Rightarrow> (nat \<Rightarrow> char) \<Rightarrow> string \<Rightarrow> string option" where
  "plugin_path usable g d_name = do {
     n \<leftarrow> strlen (d_name @ [NUL]);
     k \<leftarrow> strlen (plugins_dir @ [NUL]);
     let nstr = fresh_block g (usable (n + k));
     nstr \<leftarrow> strcat nstr (plugins_dir @ [NUL]);
     nstr \<leftarrow> strcat nstr (d_name @ [NUL]);
     cstr nstr
   }"

text \<open>The loop that fills \<open>menu\<close>; \<open>readdir\<close> returns a null pointer at the end of the
  directory, which is not tested here.  \<open>dlopen\<close> failing makes \<open>fname\<close> null and the next
  \<open>dlsym\<close> undefined.\<close>

fun load_items ::
  "(string \<rightharpoonup> plugin) \<Rightarrow> (nat \<Rightarrow> nat) \<Rightarrow> (nat \<Rightarrow> nat \<Rightarrow> char) \<Rightarrow> nat \<Rightarrow> nat \<Rightarrow> string list \<Rightarrow>
   plugin_fun option list \<times> string list \<Rightarrow> (plugin_fun option list \<times> string list) option" where
  "load_items dl usable g menu_size i [] (menu, out) = (if i < menu_size then None else Some (menu, out))"
| "load_items dl usable g menu_size i (ad # ads) (menu, out) =
     (if i < menu_size then
        (if hidden ad then load_items dl usable g menu_size i ads (menu, out)
         else do {
           nstr \<leftarrow> plugin_path usable (g i) ad;
           lib \<leftarrow> dl nstr;
           menu \<leftarrow> buf_set menu i (symbols lib (func_name lib));
           load_items dl usable g menu_size (Suc i) ads
             (menu, out @ [show_int (int i + 1) @ ''. '' @ description lib])
         })
      else Some (menu, out))"

datatype started = No_Directory | Empty_Directory | Started "plugin_fun option list" "string list"

definition dynamic_start ::
  "(string \<rightharpoonup> plugin) \<Rightarrow> (nat \<Rightarrow> nat) \<Rightarrow> (nat \<Rightarrow> nat \<Rightarrow> char) \<Rightarrow> string list option \<Rightarrow> string list option \<Rightarrow>
   started option" where
  "dynamic_start dl usable g dir1 dir2 =
     (case dir1 of
        None \<Rightarrow> Some No_Directory
      | Some ads \<Rightarrow>
          if count_items ads = 0 then Some Empty_Directory
          else do {
            ads2 \<leftarrow> dir2;
            (menu, out) \<leftarrow> load_items dl usable g (count_items ads) 0 ads2 (replicate (count_items ads) None, []);
            Some (Started menu out)
          })"

text \<open>One round of the menu: the item and the input; calling a null pointer is undefined.\<close>

definition dynamic_round ::
  "plugin_fun option list \<Rightarrow> int option \<times> string \<Rightarrow> (calc_out \<times> int option \<times> string) option" where
  "dynamic_round menu = (\<lambda>(item, inp). do {
     (r, in1) \<leftarrow> scanf_d inp;
     let item = keep_old r item;
     i \<leftarrow> item;
     (if i = 0 then Some (Exit, item, in1)
      else if i < 0 \<or> i > int (length menu) then Some (Bad_Item, item, in1)
      else do {
        f \<leftarrow> menu ! nat (i - 1);
        (out, in2) \<leftarrow> f in1;
        Some (Result out, item, in2)
      })
   })"

section \<open>Building the menu\<close>

lemma plugins_dir_facts:
  "cstr (plugins_dir @ [NUL]) = Some plugins_dir" "strlen (plugins_dir @ [NUL]) = Some 10" "length plugins_dir = 10"
  by (simp_all add: plugins_dir_def cstr_Cons strlen_def)

text \<open>The path is what the block held, the directory and the name, where that fits.\<close>

lemma plugin_path_exact:
  assumes "NUL \<notin> set d"
  shows "plugin_path usable g d = (case cstr (fresh_block g (usable (length d + 10))) of None \<Rightarrow> None
    | Some u \<Rightarrow> if length u + length d + 10 < usable (length d + 10) then Some (u @ plugins_dir @ d) else None)"
proof (cases "cstr (fresh_block g (usable (length d + 10)))")
  case None
  then show ?thesis using plugins_dir_facts(2) by (simp add: plugin_path_def strlen_Some [of _ d] assms strcat_def)
next
  case (Some u)
  let ?b = "fresh_block g (usable (length d + 10))"
  note p = plugins_dir_facts
  have s: "cstr (d @ [NUL]) = Some d" using assms by simp
  note path = plugin_path_def strlen_Some [OF s] p(2)
  show ?thesis
  proof (cases "length u + 10 < length ?b")
    case True
    obtain b where b: "strcat ?b (plugins_dir @ [NUL]) = Some b"
      using strcat_Some [OF Some p(1)] p(3) True by auto
    from strcat_result [OF b Some p(1)] have l: "length b = length ?b" and c: "cstr b = Some (u @ plugins_dir)" by simp_all
    show ?thesis
    proof (cases "length u + length d + 10 < length ?b")
      case fits: True
      obtain b' where b': "strcat b (d @ [NUL]) = Some b'"
        using strcat_Some [OF c s] p(3) fits l by auto
      from strcat_result [OF b' c s] have "cstr b' = Some (u @ plugins_dir @ d)" by simp
      then show ?thesis using b b' fits Some by (simp add: path)
    next
      case False
      then have "strcat b (d @ [NUL]) = None" using c s p(3) l by (simp add: strcat_def put_bytes_def)
      then show ?thesis using b False Some by (simp add: path)
    qed
  next
    case False
    then have "strcat ?b (plugins_dir @ [NUL]) = None" using Some p(1,3) by (simp add: strcat_def put_bytes_def)
    then show ?thesis using False Some by (simp add: path)
  qed
qed

lemma plugin_path_overflow:
  assumes "NUL \<notin> set d" "usable (length d + 10) \<le> length d + 10"
  shows "plugin_path usable g d = None"
  using assms by (simp add: plugin_path_exact split: option.split)

text \<open>The names that are not hidden, and the line the menu shows for each.\<close>

definition plugin_names :: "string list \<Rightarrow> string list" where
  "plugin_names ads = filter (\<lambda>d. \<not> hidden d) ads"

definition menu_line :: "nat \<Rightarrow> plugin \<Rightarrow> string" where
  "menu_line i lib = show_int (int i + 1) @ ''. '' @ description lib"

lemma count_items_names: "count_items ads = length (plugin_names ads)"
  by (induction ads) (simp_all add: plugin_names_def)

text \<open>The plugins one after the other, each from its own block.\<close>

fun open_libs ::
  "(string \<rightharpoonup> plugin) \<Rightarrow> (nat \<Rightarrow> nat) \<Rightarrow> (nat \<Rightarrow> nat \<Rightarrow> char) \<Rightarrow> nat \<Rightarrow> string list \<Rightarrow> plugin list option" where
  "open_libs dl usable g i [] = Some []"
| "open_libs dl usable g i (d # ds) = do {
     path \<leftarrow> plugin_path usable (g i) d;
     lib \<leftarrow> dl path;
     libs \<leftarrow> open_libs dl usable g (Suc i) ds;
     Some (lib # libs)
   }"

definition lib_fun :: "plugin \<Rightarrow> plugin_fun option" where
  "lib_fun lib = symbols lib (func_name lib)"

text \<open>The loop of \<open>main\<close> opens the plugins that are not hidden, and stops there: it has
  counted them.\<close>

lemma load_items_open:
  assumes "length menu = n" "i + length (plugin_names ads) = n"
  shows "load_items dl usable g n i ads (menu, out) =
    map_option (\<lambda>libs. (take i menu @ map lib_fun libs, out @ map (\<lambda>(k, lib). menu_line (i + k) lib) (enumerate 0 libs)))
      (open_libs dl usable g i (plugin_names ads))"
  using assms
proof (induction ads arbitrary: i menu out)
  case Nil
  then show ?case by (simp add: plugin_names_def)
next
  case (Cons d ads)
  consider "n \<le> i" | "i < n" "hidden d" | "i < n" "\<not> hidden d" by linarith
  then show ?case
  proof cases
    case 1
    then have "plugin_names (d # ads) = []" using Cons.prems(2) by auto
    with 1 Cons.prems(1) show ?thesis by simp
  next
    case 2
    then have "plugin_names (d # ads) = plugin_names ads" by (simp add: plugin_names_def)
    with 2 Cons show ?thesis by simp
  next
    case 3
    have d: "plugin_names (d # ads) = d # plugin_names ads" using 3 by (simp add: plugin_names_def)
    have t: "take (Suc i) (menu[i := f]) = take i menu @ [f]" for f
      using 3(1) Cons.prems(1) by (simp add: take_Suc_conv_app_nth)
    have IH: "load_items dl usable g n (Suc i) ads (menu[i := f], o') =
        map_option (\<lambda>libs. (take (Suc i) (menu[i := f]) @ map lib_fun libs, o' @ map (\<lambda>(k, lib). menu_line (Suc i + k) lib) (enumerate 0 libs)))
          (open_libs dl usable g (Suc i) (plugin_names ads))" for f o'
      using Cons.prems d by (intro Cons.IH) simp_all
    have s: "buf_set menu i f = Some (menu[i := f])" for f
      using 3(1) Cons.prems(1) by (simp add: buffer_simps)
    show ?thesis
    proof (cases "plugin_path usable (g i) d \<bind> dl")
      case None
      then show ?thesis using 3 d by (cases "plugin_path usable (g i) d") simp_all
    next
      case (Some lib)
      then obtain path where "plugin_path usable (g i) d = Some path" "dl path = Some lib"
        by (cases "plugin_path usable (g i) d") simp_all
      then show ?thesis using 3 d
        by (cases "open_libs dl usable g (Suc i) (plugin_names ads)")
          (simp_all add: IH s t lib_fun_def menu_line_def enumerate_Suc_eq case_prod_beta' comp_def)
    qed
  qed
qed

lemma dynamic_start_open:
  assumes "plugin_names ads \<noteq> []"
  shows "dynamic_start dl usable g (Some ads) (Some ads) =
    map_option (\<lambda>libs. Started (map lib_fun libs) (map (\<lambda>(k, lib). menu_line k lib) (enumerate 0 libs)))
      (open_libs dl usable g 0 (plugin_names ads))"
  using assms load_items_open [of "replicate (length (plugin_names ads)) None" _ 0 ads dl usable g "[]"]
  by (cases "open_libs dl usable g 0 (plugin_names ads)") (simp_all add: dynamic_start_def count_items_names)

lemma small_numbers: "show_int 1 = ''1''" "show_int 2 = ''2''" "show_int 3 = ''3''" "show_int 4 = ''4''" "show_int 42 = ''42''"
  by code_simp+

section \<open>Properties\<close>

text \<open>The repository's plugins where its \<open>Makefile\<close> puts them; \<open>dlopen\<close> finds nothing
  anywhere else.\<close>

definition repo_files :: "string list" where
  "repo_files = [''libadd.so'', ''libsub.so'', ''libmul.so'', ''libdivi.so'']"

definition repo_libs :: "'d floats \<Rightarrow> string \<Rightarrow> plugin" where
  "repo_libs F d = (if d = ''libadd.so'' then lib_add F else if d = ''libsub.so'' then lib_sub F
     else if d = ''libmul.so'' then lib_mul F else lib_divi F)"

definition repo_dl :: "'d floats \<Rightarrow> string \<rightharpoonup> plugin" where
  "repo_dl F path = (if path \<in> set (map ((@) plugins_dir) repo_files) then Some (repo_libs F (drop 10 path)) else None)"

text \<open>The arithmetic each plugin stands for, and the item under which the static
  calculator offers it.\<close>

definition repo_op :: "'d floats \<Rightarrow> string \<Rightarrow> 'd \<Rightarrow> 'd \<Rightarrow> 'd" where
  "repo_op F d = (if d = ''libadd.so'' then fadd F else if d = ''libsub.so'' then fsub F
     else if d = ''libmul.so'' then fmul F else fdiv F)"

definition static_item :: "string \<Rightarrow> int" where
  "static_item d = (if d = ''libadd.so'' then 1 else if d = ''libsub.so'' then 2 else if d = ''libmul.so'' then 3 else 4)"

lemma enumerate_lines: "map (\<lambda>(k, l). f k l) (enumerate n (map h ds)) = map (\<lambda>(k, d). f k (h d)) (enumerate n ds)"
  by (induction ds arbitrary: n) simp_all

text \<open>The block for a path has room for it and starts empty.\<close>

definition path_room :: "(nat \<Rightarrow> nat) \<Rightarrow> (nat \<Rightarrow> char) \<Rightarrow> string \<Rightarrow> bool" where
  "path_room usable g d \<longleftrightarrow> g 0 = NUL \<and> length d + 10 < usable (length d + 10)"

lemma repo_file_cases:
  assumes "d \<in> set repo_files"
  obtains "d = ''libadd.so''" | "d = ''libsub.so''" | "d = ''libmul.so''" | "d = ''libdivi.so''"
  using assms by (auto simp: repo_files_def)

lemma repo_lib_fun: "d \<in> set repo_files \<Longrightarrow> lib_fun (repo_libs F d) = Some (plugin_body F (repo_op F d))"
  by (erule repo_file_cases) (simp_all add: lib_fun_def repo_libs_def repo_op_def lib_add_def lib_sub_def lib_mul_def lib_divi_def)

lemma repo_dl_prefix:
  assumes "d \<in> set repo_files"
  shows "repo_dl F (u @ plugins_dir @ d) = (if u = [] then Some (repo_libs F d) else None)"
proof (cases u)
  case Nil
  then show ?thesis using assms by (simp add: repo_dl_def plugins_dir_facts(3))
next
  case (Cons c cs)
  have "u @ plugins_dir @ d \<noteq> plugins_dir @ e" if "e \<in> set repo_files" for e
    using assms that Cons by (elim repo_file_cases; cases cs) (auto simp: plugins_dir_def)
  then show ?thesis using Cons by (auto simp: repo_dl_def)
qed

lemma repo_open:
  assumes "d \<in> set repo_files"
  shows "plugin_path usable g d \<bind> repo_dl F = (if path_room usable g d then Some (repo_libs F d) else None)"
proof -
  let ?n = "usable (length d + 10)"
  have d: "NUL \<notin> set d" using assms by (elim repo_file_cases) simp_all
  show ?thesis
  proof (cases "g 0 = NUL \<and> 0 < ?n")
    case True
    then have "fresh_block g ?n ! 0 = NUL" "fresh_block g ?n \<noteq> []" by (auto simp flip: length_greater_0_conv)
    then have "cstr (fresh_block g ?n) = Some []" by (cases "fresh_block g ?n") simp_all
    then show ?thesis using d True repo_dl_prefix [OF assms, of F "[]"] by (simp add: plugin_path_exact path_room_def)
  next
    case False
    have "u \<noteq> []" if c: "cstr (fresh_block g ?n) = Some u" for u
    proof (cases "fresh_block g ?n")
      case (Cons a r)
      then have "fresh_block g ?n ! 0 = a" "0 < length (fresh_block g ?n)" by simp_all
      then have "a \<noteq> NUL" using False by auto
      then show ?thesis using c Cons by (auto simp: cstr_Cons split: bind_splits)
    qed (use c in simp)
    then show ?thesis using False d repo_dl_prefix [OF assms, of F]
      by (auto simp: plugin_path_exact path_room_def split: option.split)
  qed
qed

lemma repo_open_libs:
  assumes "set ds \<subseteq> set repo_files"
  shows "open_libs (repo_dl F) usable g i ds =
    (if \<forall>k<length ds. path_room usable (g (i + k)) (ds ! k) then Some (map (repo_libs F) ds) else None)"
  using assms
proof (induction ds arbitrary: i)
  case (Cons d ds)
  have o: "plugin_path usable (g i) d \<bind> repo_dl F = (if path_room usable (g i) d then Some (repo_libs F d) else None)"
    using Cons.prems by (intro repo_open) simp
  have "open_libs (repo_dl F) usable g i (d # ds) =
      ((plugin_path usable (g i) d \<bind> repo_dl F) \<bind> (\<lambda>lib. open_libs (repo_dl F) usable g (Suc i) ds \<bind> (\<lambda>libs. Some (lib # libs))))"
    by simp
  then show ?case using Cons by (simp only: o) (auto simp: All_less_Suc2)
qed simp

text \<open>
  C25.  The two calculators.  The dynamic one starts, over the repository's plugins listed
  by \<open>readdir\<close> in any order and among any hidden names, exactly when every block for a path
  starts with a zero byte and is larger than what is asked of \<open>malloc\<close>; with blocks of just
  the size asked for it never does.  When it does, its items are the plugins in the order
  of the directory, and every round agrees with the static calculator: the item the dynamic
  one gives to a plugin and the item the static one gives to its operation, with the same
  two numbers typed, compute the same value and leave the same input; the value is printed
  with two and with four decimals.
\<close>

theorem calculators_agree:
  assumes ds: "plugin_names ads = ds" "distinct ds" "set ds = set repo_files"
    and typed: "scanf_d inp = Some (Some i, in1)" "1 \<le> i" "i \<le> 4"
      "scanf_d inp' = Some (Some (static_item (ds ! nat (i - 1))), in1)"
    and lf: "scan_lf F in1 = (Some x, in2)" "scan_lf F in2 = (Some y, in3)" and s: "calc_in s = inp'"
    and menu: "menu = map (\<lambda>d. Some (plugin_body F (repo_op F d))) ds"
  shows "dynamic_start (repo_dl F) usable g (Some ads) (Some ads) =
      (if \<forall>k<4. g k 0 = NUL \<and> length (ds ! k) + 10 < usable (length (ds ! k) + 10)
       then Some (Started menu (map (\<lambda>(k, d). menu_line k (repo_libs F d)) (enumerate 0 ds))) else None) \<and>
    ((\<forall>n. usable n = n) \<longrightarrow> dynamic_start (repo_dl F) usable g (Some ads) (Some ads) = None) \<and>
    (\<exists>v. v = repo_op F (ds ! nat (i - 1)) x y \<and>
      dynamic_round menu (item, inp) = Some (Result (''Result: '' @ show_lf F 2 v), Some i, in3) \<and>
      static_round F s = Some (Result (show_lf F 4 v),
        s \<lparr> menu_item := Some (static_item (ds ! nat (i - 1))), opa := Some x, opb := Some y, calc_in := in3 \<rparr>))"
proof -
  have len: "length ds = 4" using distinct_card [OF ds(2)] ds(3) by (simp add: repo_files_def)
  have k: "nat (i - 1) < 4" using typed(2,3) by linarith
  then have f: "ds ! nat (i - 1) \<in> set repo_files" using ds(3) len by (metis nth_mem)
  have ne: "plugin_names ads \<noteq> []" using len ds(1) by auto
  have start: "dynamic_start (repo_dl F) usable g (Some ads) (Some ads) =
      (if \<forall>k<4. g k 0 = NUL \<and> length (ds ! k) + 10 < usable (length (ds ! k) + 10)
       then Some (Started menu (map (\<lambda>(k, d). menu_line k (repo_libs F d)) (enumerate 0 ds))) else None)"
    using dynamic_start_open [OF ne, of "repo_dl F" usable g] repo_open_libs [of ds F usable g 0] ds(1,3) len
    by (simp add: path_room_def menu repo_lib_fun enumerate_lines del: enumerate_simps)
  have "menu ! nat (i - 1) = Some (plugin_body F (repo_op F (ds ! nat (i - 1))))" using k len by (simp add: menu)
  then have dyn: "dynamic_round menu (item, inp) =
      Some (Result (''Result: '' @ show_lf F 2 (repo_op F (ds ! nat (i - 1)) x y)), Some i, in3)"
    using typed(1-3) lf k len by (simp add: dynamic_round_def keep_old_def plugin_body_def two_operands_def menu)
  have stat: "static_round F s = Some (Result (show_lf F 4 (repo_op F (ds ! nat (i - 1)) x y)),
      s \<lparr> menu_item := Some (static_item (ds ! nat (i - 1))), opa := Some x, opb := Some y, calc_in := in3 \<rparr>)"
    using typed(4) lf s f
    by (elim repo_file_cases) (simp_all add: static_round_def static_op_def two_operands_def
        keep_old_def repo_op_def static_item_def add_def sub_def mul_def divi_def)
  have exact: "dynamic_start (repo_dl F) usable g (Some ads) (Some ads) = None" if "\<forall>n. usable n = n"
  proof -
    have "\<not> (\<forall>k<4. g k 0 = NUL \<and> length (ds ! k) + 10 < usable (length (ds ! k) + 10))"
      using that by (auto intro: exI [of _ 0])
    then show ?thesis by (simp only: start if_False)
  qed
  show ?thesis using exact dyn stat by (intro conjI start impI exI [of _ "repo_op F (ds ! nat (i - 1)) x y"]) simp_all
qed

definition int_floats :: "int floats" where
  "int_floats = \<lparr> fadd = (+), fsub = (-), fmul = (*), fdiv = (div), scan_lf = scan_int, show_lf = (\<lambda>_. show_int) \<rparr>"

text \<open>A directory in another order than the static menu, in blocks a byte larger than asked for.\<close>

theorem calculators_agree_witness:
  "\<exists>menu out. dynamic_start (repo_dl int_floats) Suc (\<lambda>_ _. NUL)
      (Some [''libmul.so'', ''.'', ''libsub.so'', ''..'', ''libdivi.so'', ''libadd.so''])
      (Some [''libmul.so'', ''.'', ''libsub.so'', ''..'', ''libdivi.so'', ''libadd.so'']) = Some (Started menu out) \<and>
    dynamic_round menu (None, ''1 6 7'') = Some (Result ''Result: 42'', Some 1, []) \<and>
    map_option fst (static_round int_floats (static_main ''3 6 7'')) = Some (Result ''42'')"
proof -
  let ?ads = "[''libmul.so'', ''.'', ''libsub.so'', ''..'', ''libdivi.so'', ''libadd.so'']"
  let ?ds = "[''libmul.so'', ''libsub.so'', ''libdivi.so'', ''libadd.so'']"
  let ?menu = "map (\<lambda>d. Some (plugin_body int_floats (repo_op int_floats d))) ?ds"
  have n: "plugin_names ?ads = ?ds" "distinct ?ds" "set ?ds = set repo_files"
    by (simp add: plugin_names_def hidden_def) (simp, auto simp: repo_files_def)
  have d: "scanf_d ''1 6 7'' = Some (Some 1, '' 6 7'')" "scanf_d ''3 6 7'' = Some (Some (static_item (?ds ! nat (1 - 1))), '' 6 7'')"
    "scan_lf int_floats '' 6 7'' = (Some 6, '' 7'')" "scan_lf int_floats '' 7'' = (Some 7, [])"
    by (simp_all add: int_floats_def scanf_d_def scan_int_def scan_sign_def is_space_def is_digit_def digits_value_def static_item_def)
  have v: "repo_op int_floats (?ds ! nat (1 - 1)) 6 7 = 42" by (simp add: repo_op_def int_floats_def)
  have p: "show_lf int_floats m 42 = ''42''" for m
    by (simp add: int_floats_def small_numbers)
  have "dynamic_start (repo_dl int_floats) Suc (\<lambda>_ _. NUL) (Some ?ads) (Some ?ads) =
      (if \<forall>k<4. (\<lambda>_ _. NUL) k 0 = NUL \<and> length (?ds ! k) + 10 < Suc (length (?ds ! k) + 10)
       then Some (Started ?menu (map (\<lambda>(k, d). menu_line k (repo_libs int_floats d)) (enumerate 0 ?ds))) else None) \<and>
    ((\<forall>n. Suc n = n) \<longrightarrow> dynamic_start (repo_dl int_floats) Suc (\<lambda>_ _. NUL) (Some ?ads) (Some ?ads) = None) \<and>
    (\<exists>v. v = repo_op int_floats (?ds ! nat (1 - 1)) 6 7 \<and>
      dynamic_round ?menu (None, ''1 6 7'') = Some (Result (''Result: '' @ show_lf int_floats 2 v), Some 1, []) \<and>
      static_round int_floats (static_main ''3 6 7'') = Some (Result (show_lf int_floats 4 v),
        (static_main ''3 6 7'') \<lparr> menu_item := Some (static_item (?ds ! nat (1 - 1))), opa := Some 6, opb := Some 7, calc_in := [] \<rparr>))"
    by (rule calculators_agree [OF n d(1) _ _ d(2-4) _ refl]) (simp_all add: static_main_def)
  then show ?thesis
    unfolding v by (auto simp: p simp del: enumerate_simps list.map)
qed

text \<open>
  The block for the path is one byte too small: with a \<open>malloc\<close> that gives exactly
  what is asked, the calculator writes past it at the first plugin, whatever the
  directory holds and whatever the block held before.
\<close>

theorem dynamic_path_overflow:
  assumes "ads = hid @ d # rest" "list_all hidden hid" "\<not> hidden d" "NUL \<notin> set d"
    and "usable (length d + 10) = length d + 10"
  shows "dynamic_start dl usable g (Some ads) (Some ads) = None"
proof -
  have "load_items dl usable g (Suc n) 0 (hid @ d # rest) (menu, out) = None" for n menu out
    using assms(2-5) by (induction hid) (simp_all add: plugin_path_overflow)
  then show ?thesis using assms(1,3) by (cases "count_items ads") (simp_all add: dynamic_start_def count_items_names plugin_names_def)
qed

theorem dynamic_path_overflow_witness:
  "dynamic_start (repo_dl int_floats) (\<lambda>n. n) (\<lambda>_ _. NUL) (Some ([''.'', ''..''] @ repo_files)) (Some ([''.'', ''..''] @ repo_files)) = None"
  by (rule dynamic_path_overflow [where hid = "[''.'', ''..'']" and d = "''libadd.so''" and rest = "tl repo_files"])
    (simp_all add: repo_files_def hidden_def)

end
