(* ===== verification/Pointers.thy ===== *)
theory Pointers
  imports Prelude
begin

text \<open>
  The two pointer exercises.  \<open>ptr_home1.c\<close> walks over the four bytes of an \<open>int\<close>, least
  significant first, prints each as a signed \<open>char\<close> and overwrites the second;
  \<open>ptr_home2.c\<close> redirects a pointer through a pointer to it.
\<close>

definition int_bytes :: "32 word \<Rightarrow> 8 word list" where
  "int_bytes a = map (\<lambda>i. ucast (drop_bit (8 * i) a)) [0..<4]"

definition bytes_int :: "8 word list \<Rightarrow> 32 word" where
  "bytes_int bs = foldr (\<lambda>b a. ucast b + 256 * a) bs 0"

text \<open>The numbers printed, in order.\<close>

definition ptr_home1 :: "32 word \<Rightarrow> int list" where
  "ptr_home1 a =
     (let m = int_bytes a;
          first = sint (m ! 0);
          second = sint (m ! 1);
          m = m[1 := 12];
          third = sint (m ! 2);
          fourth = sint (m ! 3)
      in [first, second, third, fourth, sint (bytes_int m)])"

datatype variable = Var_a | Var_b | Var_ptr1 | Var_ptr2
datatype contents = Char char | Address variable

definition load_address :: "(variable \<rightharpoonup> contents) \<Rightarrow> variable \<Rightarrow> variable option" where
  "load_address m p = (case m p of Some (Address v) \<Rightarrow> Some v | _ \<Rightarrow> None)"

definition ptr_home2 :: "char option" where
  "ptr_home2 = do {
     let m = [Var_a \<mapsto> Char CHR ''A'', Var_b \<mapsto> Char CHR ''B''];
     let m = m(Var_ptr1 \<mapsto> Address Var_a);
     let m = m(Var_ptr2 \<mapsto> Address Var_ptr1);
     p \<leftarrow> load_address m Var_ptr2;
     let m = m(p \<mapsto> Address Var_b);
     v \<leftarrow> load_address m Var_ptr1;
     (case m v of Some (Char c) \<Rightarrow> Some c | _ \<Rightarrow> None)
   }"

lemma four_bytes:
  fixes n :: nat
  assumes "n < 4294967296"
  shows "n mod 256 + 256 * (n div 256 mod 256 + 256 * (n div 65536 mod 256 + 256 * (n div 16777216 mod 256))) = n"
proof -
  have d: "n div 65536 = n div 256 div 256" "n div 16777216 = n div 256 div 256 div 256"
    by (simp_all add: div_mult2_eq [symmetric])
  have "n div 256 div 256 div 256 < 256" using assms by (simp add: div_mult2_eq [symmetric] less_mult_imp_div_less)
  then show ?thesis unfolding d by simp
qed

lemma byte_at: "ucast (ucast (drop_bit n a :: 32 word) :: 8 word) = (of_nat (unat a div 2 ^ n mod 256) :: 32 word)"
proof -
  have t: "take_bit k (m :: nat) = m mod 2 ^ k" for k m by (rule take_bit_eq_mod)
  have "unat (ucast (ucast (drop_bit n a) :: 8 word) :: 32 word) = unat a div 2 ^ n mod 256"
    by (simp add: unsigned_ucast_eq unat_drop_bit_eq drop_bit_eq_div [of n "unat a"] unsigned_take_bit_eq t)
  then show ?thesis by (metis of_nat_unat ucast_id)
qed

lemma int_bytes_roundtrip: "bytes_int (int_bytes a) = a"
proof -
  have "bytes_int (int_bytes a) = of_nat (unat a mod 256 + 256 * (unat a div 256 mod 256 +
      256 * (unat a div 65536 mod 256 + 256 * (unat a div 16777216 mod 256))))"
    using byte_at [of 0 a] byte_at [of 8 a] byte_at [of 16 a] byte_at [of 24 a]
    by (simp add: bytes_int_def int_bytes_def upt_rec)
  also have "\<dots> = a"
  proof (subst four_bytes)
    have "unat a < 2 ^ LENGTH(32)" by (rule unsigned_less)
    then show "unat a < 4294967296" by simp
  qed simp
  finally show ?thesis .
qed

lemma ptr_home1_output: "ptr_home1 14031996 = [124, 28, -42, 0, 14027900]"
  by code_simp

lemma ptr_home2_output: "ptr_home2 = Some CHR ''B''"
  by (simp add: ptr_home2_def load_address_def)

end
