(* ===== verification/NetStub.thy ===== *)
theory NetStub
  imports CString
begin

text \<open>
  The stub network driver \<open>icmp/icmp.c\<close>: loading and unloading it, its queue, and
  \<open>stub_start_xmit\<close>, which answers every packet by sending an ICMP message of its own.
  What the kernel grants is a parameter: the four blocks of \<open>kmalloc\<close> (the bytes of the
  first), the socket, the device and its registration.  \<open>None\<close> is the use of a null
  pointer or of an unset one.
\<close>

record grants =
  kmalloc_buf :: "(nat \<Rightarrow> char) option"
  kmalloc_addr :: bool
  kmalloc_msg :: bool
  kmalloc_hdr :: bool
  socket_ok :: bool

text \<open>\<open>struct icmphdr\<close> for an echo request: type, code, checksum, identifier and sequence
  number, stored in the order of a little-endian machine without conversion.\<close>

definition host16 :: "nat \<Rightarrow> string" where
  "host16 n = [char_of (n mod 256), char_of (n div 256 mod 256)]"

definition echo_header :: "nat \<Rightarrow> string" where
  "echo_header sequence = [char_of (8 :: nat), NUL] @ host16 0 @ host16 1234 @ host16 sequence"

text \<open>\<open>memcpy(buf, &icmp_hdr, sizeof _icmp_hdr)\<close> copies the first 8 bytes of the kernel's
  function \<open>icmp_hdr\<close>, here \<open>code\<close>: the header that was filled is \<open>_icmp_hdr\<close>.  The result
  is the message given to \<open>kernel_sendmsg\<close>.\<close>

definition stub_start_xmit :: "grants \<Rightarrow> string \<Rightarrow> string option" where
  "stub_start_xmit k code = do {
     g \<leftarrow> kmalloc_buf k;
     let buf = fresh_block g 200;
     (if \<not> kmalloc_addr k \<or> \<not> kmalloc_msg k \<or> \<not> kmalloc_hdr k \<or> \<not> socket_ok k then None
      else do {
        let icmp_header = echo_header 0;
        buf \<leftarrow> memcpy buf 0 code 8;
        buf \<leftarrow> put_bytes buf 8 ''hello'';
        let sz = 8 + 5;
        Some (take sz buf)
      })
   }"

section \<open>The device\<close>

datatype net_resource = Device | Registered

record netdev =
  held :: "net_resource set"
  queue_on :: bool
  dev_addr :: string

definition my_open :: "netdev \<Rightarrow> int \<times> netdev" where
  "my_open d = (0, d \<lparr> queue_on := True \<rparr>)"

definition my_close :: "netdev \<Rightarrow> int \<times> netdev" where
  "my_close d = (0, d \<lparr> queue_on := False \<rparr>)"

text \<open>\<open>my_setup\<close> numbers the bytes of the hardware address; \<open>ether_setup\<close> keeps them.\<close>

definition my_setup :: "netdev \<Rightarrow> netdev" where
  "my_setup d = d \<lparr> dev_addr := map (\<lambda>j. char_of j) [0..<6 :: nat] \<rparr>"

definition my_init :: "bool \<Rightarrow> bool \<Rightarrow> netdev \<Rightarrow> (int \<times> netdev) option" where
  "my_init alloc_ok register_ok d =
     (if \<not> alloc_ok then None
      else let d = my_setup (d \<lparr> held := insert Device (held d) \<rparr>) in
      if \<not> register_ok then Some (-1, d \<lparr> held := held d - {Device} \<rparr>)
      else Some (0, d \<lparr> held := insert Registered (held d) \<rparr>))"

definition my_exit :: "netdev \<Rightarrow> netdev option" where
  "my_exit d =
     (if {Device, Registered} \<subseteq> held d then Some (d \<lparr> held := held d - {Registered} - {Device} \<rparr>) else None)"

section \<open>Facts\<close>

lemma stub_load_unload:
  assumes "held d = {}"
  shows "\<exists>ret d'. my_init True reg d = Some (ret, d') \<and>
    (if reg then ret = 0 \<and> map_option held (my_exit d') = Some {} else ret = -1 \<and> held d' = {})"
  using assms by (cases reg) (simp_all add: my_init_def my_setup_def my_exit_def insert_Diff_if)

lemma length_echo_header: "length (echo_header n) = 8"
  by (simp add: echo_header_def host16_def)

text \<open>
  What is sent is eight bytes of machine code and \<open>hello\<close>: it is the echo request that
  was prepared only if the code of the kernel's \<open>icmp_hdr\<close> happens to be that header.
\<close>

theorem stub_sends_code:
  assumes "kmalloc_buf k = Some g" "kmalloc_addr k" "kmalloc_msg k" "kmalloc_hdr k" "socket_ok k" "8 \<le> length code"
  shows "stub_start_xmit k code = Some (take 8 code @ ''hello'') \<and>
    (stub_start_xmit k code = Some (echo_header 0 @ ''hello'') \<longleftrightarrow> take 8 code = echo_header 0)"
  using assms length_echo_header [of 0]
  by (simp add: stub_start_xmit_def memcpy_def put_bytes_def)

theorem stub_sends_code_witness:
  "stub_start_xmit \<lparr> kmalloc_buf = Some (\<lambda>_. NUL), kmalloc_addr = True, kmalloc_msg = True, kmalloc_hdr = True,
     socket_ok = True \<rparr> (replicate 8 CHR 0x90) = Some (replicate 8 CHR 0x90 @ ''hello'')"
  using stub_sends_code [of "\<lparr> kmalloc_buf = Some (\<lambda>_. NUL), kmalloc_addr = True, kmalloc_msg = True, kmalloc_hdr = True,
     socket_ok = True \<rparr>" "\<lambda>_. NUL" "replicate 8 CHR 0x90"] by simp

end
