(* ===== verification/Spec2Isabelle.thy ===== *)
theory Spec2Isabelle
  imports Pathnames Shop ShopLiveness OneTimeInit Shell Phonebook ChatMq ChatShm BlockDevice PortFilter RwModule
    SysProc Packets Traceroute EchoServers ServerModels ThreadServer AcceptServer
    QueueServer SelectServer ChatSystem Editor Windows Calculator Pointers NetStub
begin

text \<open>
  A verification library for the C programs under \<open>src/C\<close>: small system programs, servers
  and Linux kernel modules that share nothing but their style.

  \<^bold>\<open>Conventions.\<close>  A C object of \<open>n\<close> bytes is a list of \<open>n\<close> characters; every access goes
  through \<open>buf_get\<close>, \<open>buf_set\<close> and \<open>put_bytes\<close>.  An operation that may go wrong returns an
  option: \<open>None\<close> is undefined behaviour (an access outside an object, a string function
  that finds no zero byte, a null or uninitialised value that is used), so that a theorem
  about \<open>Some\<close> is also one about memory safety.  Bytes that are used before they are
  written are a parameter (\<open>g\<close>, \<open>h\<close>: what a fresh block or the stack holds), and so is
  what the kernel, the network, the user or another library answers.  Numbers whose width
  matters are words; other C integers are \<open>int\<close> or \<open>nat\<close>.  Printed texts are lists of
  messages.  Errors a program reports are values.  An endless loop is a step function with
  \<open>iterate\<close> (any number of rounds), a fold over the events, or a step relation; no theorem
  rests on a bound chosen for fuel.

  \<^bold>\<open>The library.\<close>
  \<^item> Prelude: buffers, \<open>fold_opt\<close> (a loop over a list that may fail) and the contracts of
    state machines: \<open>machine\<close> (a step function with outputs), \<open>transition_system\<close> and
    \<open>locking\<close> (a step relation with an invariant; mutual exclusion), \<open>main_loop\<close>.
  \<^item> Threads: lists of threads, \<open>finishing\<close> (a step relation that uses up a measure and
    does not stop before its goal) and \<open>simulation\<close> (a step relation that refines another).
  \<^item> CString, Stdio: the functions of \<open>string.h\<close> and \<open>stdio.h\<close> the programs call.  The
    locale \<open>tokenizer\<close> is the contract of \<open>strtok\<close>: a loop over it is a fold over the
    fields of the string.
  \<^item> Sockets: \<open>recv\<close>, the capitals loop of the servers, and \<open>responder\<close>, what a server that
    answers in capitals owes its clients.  Descriptors: the descriptor table of a process.
  \<^item> MsgQueue: POSIX message queues under the contract \<open>fifo\<close>.  NameList: the list of names
    of both chats and its \<open>delete_name\<close> loop.

  \<^bold>\<open>User programs.\<close>
  \<^item> Pathnames: \<open>dirname & basename/\<close>.  \<open>dirn\<close> and \<open>basen\<close> with their per-thread block
    (locale \<open>per_thread\<close>); both are proved equal to the POSIX functions on lists of
    components when the unterminated heap block they copy from happens to be terminated; for
    \<open>basen\<close> the overrun of \<open>filename[255]\<close> by a long component is part of the statement.
  \<^item> Shop, ShopLiveness: \<open>threads_shop/\<close>.  The statements of \<open>loading\<close> and \<open>purchases\<close> as
    steps of four threads.  Mutual exclusion, conservation of goods, what \<open>main\<close> reports,
    the lost update of the counter; no deadlock, and every customer can always finish.  The
    steps are over \<open>int\<close>; \<open>shop_act32\<close> adds that an amount outside the 32-bit range is undefined,
    and the two agree for the first 21474823 statements of the loader, after which the
    endless loader can overflow a store (\<open>shop_overflow\<close>).
  \<^item> OneTimeInit: \<open>one_time_init/\<close>, any number of callers: one initialisation, and the
    mutex that stays locked.
  \<^item> Shell: \<open>command interpreter/\<close> and \<open>command interpreter 2 (pipe)/\<close>: what is executed
    for a line, with its arguments, and what the descriptors of every child stand for, compared
    with what a pipeline means (\<open>plumbed\<close>): right for two stages only.  Whether \<open>argv[1]\<close> of the
    first, never set, is null is a parameter.
  \<^item> Phonebook: \<open>structure/struct_home.c\<close>, a book of records and its menu; the operations
    refine lists of persons, except for the numbers that removal shifts.
  \<^item> Editor: \<open>text_editor/\<close> and \<open>text_editor2/\<close> over a model of files and descriptors; the
    two are equivalent.
  \<^item> Windows: the windows of the editors and of both chat clients, as resources: none is used
    after it was deleted, none is left over.
  \<^item> Calculator: \<open>calculator/static\<close> and \<open>calculator/dynamic\<close> with its plugins; arithmetic
    on \<open>double\<close>, the dynamic linker, the order of the directory and \<open>malloc\<close>'s block size and
    contents are parameters; the statement says for which of them the dynamic one starts.
  \<^item> Pointers: \<open>pointers/\<close>.

  \<^bold>\<open>Network programs.\<close>
  \<^item> ChatMq, ChatSystem: \<open>chat/\<close>.  The server's round refines joins, lines, broadcasts and
    departures on lists; ChatSystem composes the server with any number of client
    processes and their threads, and proves that a line reaches all clients.
  \<^item> ChatShm: \<open>chat 2/\<close>.  The clients' operations alone (a whole session) and as
    interleaved steps: the list of names is protected by the semaphore, the text is not.  What
    the uninitialised array of \<open>delete_name\<close> holds is a parameter of each client.
  \<^item> Packets: \<open>RAW/\<close>: the datagrams and frames built byte by byte, the loop that waits for
    the reply, the checksum against RFC 1071.  Traceroute: \<open>traceroute/\<close>, from the operand to
    the last line, with \<open>inet_pton\<close> and \<open>inet_ntop\<close> proved inverse; its rounds are judged by the
    bytes of the packets, and each leaks a socket, up to the limit of descriptors.
  \<^item> EchoServers: \<open>echo_TCP\<close>, \<open>echo_UDP\<close>, \<open>unix_sockets\<close>, \<open>broadcast\<close>, \<open>multicast\<close>: a
    server is a \<open>responder\<close>; clients and servers are put together and meet at the same
    address.
  \<^item> ServerModels, with a theory for each of the four servers under \<open>server models/\<close>.
    ThreadServer (1): a thread per connection, statement by statement; right until it closes a
    connection, wrong after it.  QueueServer (3): its queue, descriptor table and ten threads;
    replies go to the right clients, all clients can be served, and back pressure keeps the
    descriptors in the range of a \<open>char\<close>.  AcceptServer (2): ten accepting threads, proved to
    refine the third server, so that its safety follows from that of the other; live too.
    SelectServer (4): ten threads on five sockets; safe, live on one port, and able to lock up
    on two until another client comes to one of these.

  \<^bold>\<open>Kernel modules.\<close>
  \<^item> BlockDevice: \<open>block_device/main.c\<close>.  Every resource is acquired and released
    explicitly; no outcome of the kernel's calls leaks one.  Requests segment by segment.
  \<^item> PortFilter: \<open>block_port_module/\<close>, the hook and its attribute, and the namespace the hook is
    registered in, which is not one of the devices'.  RwModule: \<open>ioctl/\<close>, the
    device and its client.  SysProc: \<open>proc/\<close> and \<open>sys/\<close>.  NetStub: \<open>icmp/\<close>.

  \<^bold>\<open>How the parts rest on each other.\<close>  Every locale is interpreted on the definitions of
  the code in the theory that provides them: \<open>strtok\<close> as a \<open>tokenizer\<close>, the message queue as
  a \<open>fifo\<close>, shop, initialisation and chat clients as \<open>locking\<close> systems, the editor and the
  server models as transition systems, the second as a \<open>simulation\<close> by the third, the last
  three as \<open>finishing\<close> ones, the sysfs attribute as a \<open>machine\<close>, the phone
  book's menu as a \<open>main_loop\<close>, the echo servers and the raw servers as \<open>responder\<close>s.  The
  properties use the facts these interpretations give.

  \<^bold>\<open>Not modelled.\<close>  What curses draws (borders, colours, what a window hides) and the resize
  signal of the curses programs; the text of messages in Russian; scheduling and time (\<open>sleep\<close>, the timeout of
  \<open>select\<close>); failures of \<open>socket\<close>, \<open>bind\<close> and \<open>recv\<close>, which the programs do not test, except in
  Traceroute; a failure of \<open>accept\<close> in the fourth server, whose ten threads hold at most
  ten connections (it is a step of the other three).  A client that connects to one of
  the servers 1 to 3 and stays silent is a thread that is not scheduled: it changes nothing
  for their safety, but that every connection can be answered and closed is said of
  clients that send their request; in the fourth server such clients are explicit.  The descriptor
  table of Descriptors is that of the kernel: it has no lines in the programs.
  \<open>kernel/hello.c\<close>, which only prints; the build files.
\<close>

end
